(* ===== verification/Kallisto_Prelude.thy ===== *)
theory Kallisto_Prelude
  imports
    Main
    "HOL-Library.Word"
    "HOL-Library.Monad_Syntax"
    "HOL-Library.Char_ord"
    "HOL-Library.List_Lexorder"
begin

text \<open>
  What the components of the development share: the names of the Rust integer and text types,
  memory reads and writes that make an access out of bounds visible, loops whose body may panic,
  and the lemma collections the component proofs use.

  A Rust \<^verbatim>\<open>String\<close>, \<^verbatim>\<open>&str\<close> and \<^verbatim>\<open>Vec<u8>\<close> is a list of bytes here, and a HOL
  character is a byte. The order of \<^verbatim>\<open>str\<close> in Rust is the lexicographic order of the bytes, which
  is the order that \<^theory_text>\<open>List_Lexorder\<close> and \<^theory_text>\<open>Char_ord\<close> give to \<^typ>\<open>string\<close>.
\<close>

type_synonym u32 = "32 word"
type_synonym u64 = "64 word"
type_synonym bytes = string

named_theorems mem_simps \<open>reads and writes of memory that are in bounds\<close>

text \<open>Arithmetic of \<^verbatim>\<open>usize\<close> wraps at 64 bits in a release build.\<close>

definition usize_wrap :: "nat \<Rightarrow> nat" where
  "usize_wrap n = n mod 2 ^ 64"

subsection \<open>Checked memory\<close>

text \<open>
  \<open>mem_rd\<close> and \<open>mem_wr\<close> are a load and a store at an index of an allocation. The value \<open>None\<close>
  is an access that the program must not make: outside of the allocation (undefined behaviour of a
  raw pointer, a panic of a checked index).
\<close>

definition mem_rd :: "'a list \<Rightarrow> nat \<Rightarrow> 'a option" where
  "mem_rd xs i = (if i < length xs then Some (xs ! i) else None)"

definition mem_wr :: "'a list \<Rightarrow> nat \<Rightarrow> 'a \<Rightarrow> 'a list option" where
  "mem_wr xs i v = (if i < length xs then Some (xs[i := v]) else None)"

lemma mem_rd_in [mem_simps]: "i < length xs \<Longrightarrow> mem_rd xs i = Some (xs ! i)"
  by (simp add: mem_rd_def)

lemma mem_wr_in [mem_simps]: "i < length xs \<Longrightarrow> mem_wr xs i v = Some (xs[i := v])"
  by (simp add: mem_wr_def)

lemma mem_rd_Some_iff: "mem_rd xs i = Some v \<longleftrightarrow> i < length xs \<and> xs ! i = v"
  by (auto simp: mem_rd_def)

lemma mem_wr_Some_iff: "mem_wr xs i v = Some ys \<longleftrightarrow> i < length xs \<and> ys = xs[i := v]"
  by (auto simp: mem_wr_def)

subsection \<open>Loops\<close>

text \<open>A loop over a list whose body may panic.\<close>

fun foldm :: "('a \<Rightarrow> 's \<Rightarrow> 's option) \<Rightarrow> 'a list \<Rightarrow> 's \<Rightarrow> 's option" where
  "foldm f [] s = Some s"
| "foldm f (x # xs) s = do { s \<leftarrow> f x s; foldm f xs s }"

lemma foldm_mono [partial_function_mono]:
  assumes "\<And>x s. mono_option (\<lambda>f. B f x s)"
  shows "mono_option (\<lambda>f. foldm (B f) xs s)"
proof (induction xs arbitrary: s)
  case Nil
  show ?case by (simp add: option.const_mono)
next
  case (Cons x xs)
  show ?case unfolding foldm.simps by (rule bind_mono[OF assms Cons])
qed

subsection \<open>Maps\<close>

lemma map_leD: "m \<subseteq>\<^sub>m m' \<Longrightarrow> m k = Some v \<Longrightarrow> m' k = Some v"
  by (metis domI map_le_def)

end
