(* ===== verification/Cuckoo_Table.thy ===== *)
theory Cuckoo_Table
  imports Kallisto_Prelude
begin

text \<open>
  The bucketised cuckoo hash table of \<^verbatim>\<open>src/engine/cuckoo_table.rs\<close>: its raw memory, the CLOCK
  eviction, the displacement loop, and the operations \<open>insert\<close>, \<open>lookup_map\<close>, \<open>remove\<close>,
  \<open>get_all_entries\<close> and \<open>get_memory_stats\<close>.

  Every operation runs under the table's read-write lock, so one call is one atomic step on the
  record \<open>unsafe_cuckoo\<close>. A result \<open>None\<close> is a call that leaves the memory it may touch (an index
  outside of an allocation, a read of a slot of \<open>storage\<close> that was never written) or that panics
  (a remainder by zero, a size that does not fit). The list \<open>storage\<close> is the initialised part of
  the arena, so reading past it is reading uninitialised memory. The hash function
  (\<^verbatim>\<open>SipHasher24\<close> of the crate \<^verbatim>\<open>siphasher\<close>) is the parameter \<open>sip\<close>: its two keys and the string.
\<close>

unbundle bit_operations_syntax

type_synonym sip_hash = "u64 \<Rightarrow> u64 \<Rightarrow> string \<Rightarrow> u64"

subsection \<open>Data\<close>

record secret_entry =
  entry_key :: string
  entry_payload :: bytes
  entry_referenced :: bool

record slot =
  slot_tag :: u32
  slot_index :: u32

type_synonym bucket = "slot list"

definition U32_MAX :: u32 where
  "U32_MAX = 0xFFFFFFFF"

definition empty_slot :: slot where
  "empty_slot = \<lparr>slot_tag = 0, slot_index = U32_MAX\<rparr>"

record unsafe_cuckoo =
  table_1 :: "bucket list"
  table_2 :: "bucket list"
  capacity :: nat
  storage :: "secret_entry list"
  max_capacity :: nat
  storage_size :: nat
  free_list :: "u32 list"
  free_list_capacity :: nat
  free_list_size :: nat
  clock_hand :: nat

record cuckoo_table =
  ct_state :: unsafe_cuckoo
  shadow_max_capacity :: nat
  shadow_storage_size :: nat
  shadow_free_list_size :: nat

record memory_stats =
  bucket_count :: nat
  storage_capacity :: nat
  storage_used :: nat
  ms_free_list_size :: nat
  bucket_memory_bytes :: nat
  storage_memory_bytes :: nat
  total_memory_allocated :: nat

subsection \<open>Construction\<close>

text \<open>
  \<^verbatim>\<open>Layout::array::<T>(n).unwrap()\<close> panics when the array is larger than \<^verbatim>\<open>isize::MAX\<close> bytes. A bucket
  is 64 bytes (eight slots of eight bytes, aligned to 64), a \<^verbatim>\<open>SecretEntry\<close> 56 bytes (a \<^verbatim>\<open>String\<close>
  and a \<^verbatim>\<open>Vec\<close> of three words each and a flag, padded to a word), a \<^verbatim>\<open>u32\<close> 4 bytes.
\<close>

definition layout_array_ok :: "nat \<Rightarrow> nat \<Rightarrow> bool" where
  "layout_array_ok size_of n \<longleftrightarrow> n * size_of \<le> 2 ^ 63 - 1"

definition size_of_Bucket :: nat where
  "size_of_Bucket = 64"

definition size_of_SecretEntry :: nat where
  "size_of_SecretEntry = 56"

definition size_of_u32 :: nat where
  "size_of_u32 = 4"

definition unsafe_cuckoo_new :: "nat \<Rightarrow> nat \<Rightarrow> unsafe_cuckoo option" where
  "unsafe_cuckoo_new sz max_cap =
     (if layout_array_ok size_of_Bucket sz
         \<and> layout_array_ok size_of_SecretEntry max_cap
         \<and> layout_array_ok size_of_u32 max_cap
      then Some
        \<lparr>table_1 = replicate sz (replicate 8 empty_slot),
         table_2 = replicate sz (replicate 8 empty_slot),
         capacity = sz,
         storage = [],
         max_capacity = max_cap,
         storage_size = 0,
         free_list = replicate max_cap 0,
         free_list_capacity = max_cap,
         free_list_size = 0,
         clock_hand = 0\<rparr>
      else None)"

definition cuckoo_new :: "nat \<Rightarrow> nat \<Rightarrow> cuckoo_table option" where
  "cuckoo_new sz max_cap =
     (let absolute_max = usize_wrap (sz * 16 * 90) div 100;
          max_cap' = min max_cap absolute_max
      in do {
        st \<leftarrow> unsafe_cuckoo_new sz max_cap';
        Some \<lparr>ct_state = st,
              shadow_max_capacity = max_cap',
              shadow_storage_size = 0,
              shadow_free_list_size = 0\<rparr>
      })"

subsection \<open>Hashes\<close>

definition hash1_full :: "sip_hash \<Rightarrow> string \<Rightarrow> u64" where
  "hash1_full sip key = sip 0xDEADBEEF64 0xCAFEBABE64 key"

definition hash2_full :: "sip_hash \<Rightarrow> string \<Rightarrow> u64" where
  "hash2_full sip key = sip 0xFACEB00C64 0xDEADC0DE64 key"

definition get_tag :: "u64 \<Rightarrow> u32" where
  "get_tag hash = (let tag = ucast (drop_bit 32 hash) in if tag = 0 then 1 else tag)"

definition bucket_of :: "u64 \<Rightarrow> nat \<Rightarrow> nat option" where
  "bucket_of h cap = (if cap = 0 then None else Some (unat h mod cap))"

definition fresh_entry :: "string \<Rightarrow> bytes \<Rightarrow> secret_entry" where
  "fresh_entry key p = \<lparr>entry_key = key, entry_payload = p, entry_referenced = True\<rparr>"

subsection \<open>Scans of one bucket\<close>

text \<open>
  \<open>find_key\<close> is the loop over the eight slots that \<open>insert\<close>, \<open>lookup_map\<close> and \<open>remove\<close> share: the
  first occupied slot whose tag and whose stored key both match, with its position.
\<close>

fun find_key :: "secret_entry list \<Rightarrow> u32 \<Rightarrow> string \<Rightarrow> bucket \<Rightarrow> nat \<Rightarrow> (nat \<times> u32) option option" where
  "find_key sto t key [] j = Some None"
| "find_key sto t key (s # ss) j =
     (if slot_index s \<noteq> U32_MAX \<and> slot_tag s = t
      then do {
        se \<leftarrow> mem_rd sto (unat (slot_index s));
        (if entry_key se = key then Some (Some (j, slot_index s))
         else find_key sto t key ss (Suc j))
      }
      else find_key sto t key ss (Suc j))"

text \<open>\<open>find_index\<close> is the scan for the first slot that holds a given storage index.\<close>

fun find_index :: "u32 \<Rightarrow> bucket \<Rightarrow> nat \<Rightarrow> nat option" where
  "find_index ix [] j = None"
| "find_index ix (s # ss) j = (if slot_index s = ix then Some j else find_index ix ss (Suc j))"

definition set_slot :: "bucket list \<Rightarrow> nat \<Rightarrow> nat \<Rightarrow> slot \<Rightarrow> bucket list option" where
  "set_slot tbl b j s = do {
     bk \<leftarrow> mem_rd tbl b;
     bk' \<leftarrow> mem_wr bk j s;
     mem_wr tbl b bk'
   }"

text \<open>The search in the two candidate buckets; the flag says whether the hit is in \<open>table_2\<close>.\<close>

definition locate :: "sip_hash \<Rightarrow> unsafe_cuckoo \<Rightarrow> string \<Rightarrow> (bool \<times> nat \<times> nat \<times> u32) option option" where
  "locate sip st key =
     (let h1_raw = hash1_full sip key; t = get_tag h1_raw in do {
        idx1 \<leftarrow> bucket_of h1_raw (capacity st);
        bucket1 \<leftarrow> mem_rd (table_1 st) idx1;
        r1 \<leftarrow> find_key (storage st) t key bucket1 0;
        (case r1 of
           Some (j, ix) \<Rightarrow> Some (Some (False, idx1, j, ix))
         | None \<Rightarrow> do {
             idx2 \<leftarrow> bucket_of (hash2_full sip key) (capacity st);
             bucket2 \<leftarrow> mem_rd (table_2 st) idx2;
             r2 \<leftarrow> find_key (storage st) t key bucket2 0;
             (case r2 of
                Some (j, ix) \<Rightarrow> Some (Some (True, idx2, j, ix))
              | None \<Rightarrow> Some None)
           })
      })"

subsection \<open>CLOCK eviction\<close>

text \<open>
  The sweep of the clock hand, at most \<open>n\<close> entries: an entry that was referenced loses its mark, the
  first one that was not is the victim.
\<close>

fun clock_sweep :: "nat \<Rightarrow> nat \<Rightarrow> secret_entry list \<Rightarrow> nat \<Rightarrow> (u32 \<times> secret_entry list \<times> nat) option" where
  "clock_sweep 0 max_cap sto hand = Some (U32_MAX, sto, hand)"
| "clock_sweep (Suc n) max_cap sto hand =
     (let idx = (if hand \<ge> max_cap then 0 else hand) in do {
        e \<leftarrow> mem_rd sto idx;
        (if entry_referenced e
         then do {
           sto' \<leftarrow> mem_wr sto idx (e\<lparr>entry_referenced := False\<rparr>);
           clock_sweep n max_cap sto' (idx + 1)
         }
         else Some (of_nat idx, sto, idx + 1))
      })"

text \<open>
  The victim's slot is searched in the two buckets of its key and cleared; a victim that has no slot
  (an entry lost by an earlier displacement) leaves the tables as they are.
\<close>

definition clear_victim_slot :: "sip_hash \<Rightarrow> unsafe_cuckoo \<Rightarrow> u32 \<Rightarrow> string \<Rightarrow> unsafe_cuckoo option" where
  "clear_victim_slot sip st victim_idx victim_key = do {
     b1 \<leftarrow> bucket_of (hash1_full sip victim_key) (capacity st);
     b2 \<leftarrow> bucket_of (hash2_full sip victim_key) (capacity st);
     bucket1 \<leftarrow> mem_rd (table_1 st) b1;
     (case find_index victim_idx bucket1 0 of
        Some j \<Rightarrow> do {
          t1 \<leftarrow> set_slot (table_1 st) b1 j empty_slot;
          Some (st\<lparr>table_1 := t1\<rparr>)
        }
      | None \<Rightarrow> do {
          bucket2 \<leftarrow> mem_rd (table_2 st) b2;
          (case find_index victim_idx bucket2 0 of
             Some j \<Rightarrow> do {
               t2 \<leftarrow> set_slot (table_2 st) b2 j empty_slot;
               Some (st\<lparr>table_2 := t2\<rparr>)
             }
           | None \<Rightarrow> Some st)
        })
   }"

definition evict_and_reuse :: "sip_hash \<Rightarrow> unsafe_cuckoo \<Rightarrow> string \<Rightarrow> bytes \<Rightarrow> (u32 option \<times> unsafe_cuckoo) option" where
  "evict_and_reuse sip st key p = do {
     (victim_idx, sto, hand) \<leftarrow> clock_sweep (max_capacity st * 2) (max_capacity st) (storage st) (clock_hand st);
     let st1 = st\<lparr>storage := sto, clock_hand := hand\<rparr>;
     (if victim_idx \<noteq> U32_MAX
      then do {
        se \<leftarrow> mem_rd (storage st1) (unat victim_idx);
        st2 \<leftarrow> clear_victim_slot sip st1 victim_idx (entry_key se);
        sto' \<leftarrow> mem_wr (storage st2) (unat victim_idx) (fresh_entry key p);
        Some (Some victim_idx, st2\<lparr>storage := sto'\<rparr>)
      }
      else Some (None, st1))
   }"

subsection \<open>Allocation of a storage index\<close>

text \<open>
  \<^verbatim>\<open>ptr::write\<close> initialises the memory at an index: it may be the first write to the next free place
  of the arena, which has room for \<open>max_capacity\<close> entries.
\<close>

definition storage_write :: "unsafe_cuckoo \<Rightarrow> nat \<Rightarrow> secret_entry \<Rightarrow> secret_entry list option" where
  "storage_write st i e =
     (if i < length (storage st) then Some ((storage st)[i := e])
      else if i = length (storage st) \<and> i < max_capacity st then Some (storage st @ [e])
      else None)"

definition alloc_index :: "sip_hash \<Rightarrow> cuckoo_table \<Rightarrow> string \<Rightarrow> bytes \<Rightarrow> (u32 option \<times> cuckoo_table) option" where
  "alloc_index sip t key p =
     (let st = ct_state t in
      if free_list_size st > 0 then do {
        let n = free_list_size st - 1;
        ix \<leftarrow> mem_rd (free_list st) n;
        sto \<leftarrow> mem_wr (storage st) (unat ix) (fresh_entry key p);
        Some (Some ix, t\<lparr>ct_state := st\<lparr>free_list_size := n, storage := sto\<rparr>,
                         shadow_free_list_size := n\<rparr>)
      }
      else if storage_size st < max_capacity st then do {
        let ix = (of_nat (storage_size st) :: u32);
        sto \<leftarrow> storage_write st (unat ix) (fresh_entry key p);
        Some (Some ix, t\<lparr>ct_state := st\<lparr>storage_size := storage_size st + 1, storage := sto\<rparr>,
                         shadow_storage_size := storage_size st + 1\<rparr>)
      }
      else do {
        (r, st') \<leftarrow> evict_and_reuse sip st key p;
        Some (r, t\<lparr>ct_state := st'\<rparr>)
      })"

subsection \<open>Displacement\<close>

text \<open>
  The loop over \<open>i\<close> in \<open>0..256\<close>, from iteration \<open>i\<close> with \<open>n\<close> iterations left: the entry in hand goes to
  a free slot of its first or of its second bucket, otherwise it takes a slot of the first bucket and
  the entry that was there is next. The sum that picks the slot wraps at 64 bits.
\<close>

fun displace :: "sip_hash \<Rightarrow> nat \<Rightarrow> nat \<Rightarrow> u32 \<Rightarrow> u32 \<Rightarrow> string \<Rightarrow> unsafe_cuckoo \<Rightarrow> (bool \<times> unsafe_cuckoo) option" where
  "displace sip 0 i current_index current_tag cur_key st = Some (False, st)"
| "displace sip (Suc n) i current_index current_tag cur_key st =
     (let h1 = hash1_full sip cur_key;
          h2 = hash2_full sip cur_key;
          held = \<lparr>slot_tag = current_tag, slot_index = current_index\<rparr>
      in do {
        b1 \<leftarrow> bucket_of h1 (capacity st);
        bucket1 \<leftarrow> mem_rd (table_1 st) b1;
        (case find_index U32_MAX bucket1 0 of
           Some j \<Rightarrow> do {
             t1 \<leftarrow> set_slot (table_1 st) b1 j held;
             Some (True, st\<lparr>table_1 := t1\<rparr>)
           }
         | None \<Rightarrow> do {
             b2 \<leftarrow> bucket_of h2 (capacity st);
             bucket2 \<leftarrow> mem_rd (table_2 st) b2;
             (case find_index U32_MAX bucket2 0 of
                Some j \<Rightarrow> do {
                  t2 \<leftarrow> set_slot (table_2 st) b2 j held;
                  Some (True, st\<lparr>table_2 := t2\<rparr>)
                }
              | None \<Rightarrow> do {
                  let victim_slot = unat (h1 + ucast current_index + of_nat i) mod 8;
                  victim \<leftarrow> mem_rd bucket1 victim_slot;
                  t1 \<leftarrow> set_slot (table_1 st) b1 victim_slot held;
                  e \<leftarrow> mem_rd (storage st) (unat (slot_index victim));
                  displace sip n (Suc i) (slot_index victim) (slot_tag victim) (entry_key e)
                    (st\<lparr>table_1 := t1\<rparr>)
                })
           })
      })"

subsection \<open>Operations\<close>

definition cuckoo_insert :: "sip_hash \<Rightarrow> cuckoo_table \<Rightarrow> string \<Rightarrow> secret_entry \<Rightarrow> (bool \<times> cuckoo_table) option" where
  "cuckoo_insert sip t key entry = do {
     r \<leftarrow> locate sip (ct_state t) key;
     (case r of
        Some (w, b, j, ix) \<Rightarrow> do {
          sto \<leftarrow> mem_wr (storage (ct_state t)) (unat ix) (fresh_entry key (entry_payload entry));
          Some (True, t\<lparr>ct_state := (ct_state t)\<lparr>storage := sto\<rparr>\<rparr>)
        }
      | None \<Rightarrow> do {
          (a, t1) \<leftarrow> alloc_index sip t key (entry_payload entry);
          (case a of
             None \<Rightarrow> Some (False, t1)
           | Some new_storage_idx \<Rightarrow> do {
               (ok, st) \<leftarrow> displace sip 256 0 new_storage_idx (get_tag (hash1_full sip key)) key (ct_state t1);
               Some (ok, t1\<lparr>ct_state := st\<rparr>)
             })
        })
   }"

definition cuckoo_lookup_map :: "sip_hash \<Rightarrow> cuckoo_table \<Rightarrow> string \<Rightarrow> (secret_entry \<Rightarrow> 'r) \<Rightarrow> ('r option \<times> cuckoo_table) option" where
  "cuckoo_lookup_map sip t key f = do {
     r \<leftarrow> locate sip (ct_state t) key;
     (case r of
        Some (w, b, j, ix) \<Rightarrow> do {
          se \<leftarrow> mem_rd (storage (ct_state t)) (unat ix);
          let se' = se\<lparr>entry_referenced := True\<rparr>;
          sto \<leftarrow> mem_wr (storage (ct_state t)) (unat ix) se';
          Some (Some (f se'), t\<lparr>ct_state := (ct_state t)\<lparr>storage := sto\<rparr>\<rparr>)
        }
      | None \<Rightarrow> Some (None, t))
   }"

definition cuckoo_lookup :: "sip_hash \<Rightarrow> cuckoo_table \<Rightarrow> string \<Rightarrow> (secret_entry option \<times> cuckoo_table) option" where
  "cuckoo_lookup sip t key = cuckoo_lookup_map sip t key (\<lambda>entry. entry)"

definition cuckoo_remove :: "sip_hash \<Rightarrow> cuckoo_table \<Rightarrow> string \<Rightarrow> (bool \<times> cuckoo_table) option" where
  "cuckoo_remove sip t key =
     (let st = ct_state t in do {
        r \<leftarrow> locate sip st key;
        (case r of
           Some (w, b, j, removed_index) \<Rightarrow> do {
             tbl \<leftarrow> set_slot (if w then table_2 st else table_1 st) b j empty_slot;
             fl \<leftarrow> mem_wr (free_list st) (free_list_size st) removed_index;
             let st1 = (if w then st\<lparr>table_2 := tbl\<rparr> else st\<lparr>table_1 := tbl\<rparr>);
             Some (True, t\<lparr>ct_state := st1\<lparr>free_list := fl, free_list_size := free_list_size st + 1\<rparr>,
                            shadow_free_list_size := free_list_size st + 1\<rparr>)
           }
         | None \<Rightarrow> Some (False, t))
      })"

text \<open>The entries of the occupied slots, bucket by bucket, \<open>table_1\<close> before \<open>table_2\<close>.\<close>

fun bucket_entries :: "secret_entry list \<Rightarrow> bucket \<Rightarrow> secret_entry list option" where
  "bucket_entries sto [] = Some []"
| "bucket_entries sto (s # ss) =
     (if slot_index s \<noteq> U32_MAX
      then do {
        e \<leftarrow> mem_rd sto (unat (slot_index s));
        es \<leftarrow> bucket_entries sto ss;
        Some (e # es)
      }
      else bucket_entries sto ss)"

fun all_entries_from :: "nat \<Rightarrow> nat \<Rightarrow> unsafe_cuckoo \<Rightarrow> secret_entry list option" where
  "all_entries_from 0 i st = Some []"
| "all_entries_from (Suc n) i st = do {
     bk1 \<leftarrow> mem_rd (table_1 st) i;
     es1 \<leftarrow> bucket_entries (storage st) bk1;
     bk2 \<leftarrow> mem_rd (table_2 st) i;
     es2 \<leftarrow> bucket_entries (storage st) bk2;
     rest \<leftarrow> all_entries_from n (Suc i) st;
     Some (es1 @ es2 @ rest)
   }"

definition cuckoo_get_all_entries :: "cuckoo_table \<Rightarrow> secret_entry list option" where
  "cuckoo_get_all_entries t =
     (let st = ct_state t in
      if storage_size st < free_list_size st then None
      else all_entries_from (capacity st) 0 st)"

definition cuckoo_get_memory_stats :: "cuckoo_table \<Rightarrow> memory_stats" where
  "cuckoo_get_memory_stats t =
     (let bc = capacity (ct_state t) * 2;
          bmem = bc * size_of_Bucket;
          smem = shadow_max_capacity t * size_of_SecretEntry;
          fl = shadow_free_list_size t * size_of_u32
      in \<lparr>bucket_count = bc,
          storage_capacity = shadow_max_capacity t,
          storage_used = shadow_storage_size t,
          ms_free_list_size = fl,
          bucket_memory_bytes = bmem,
          storage_memory_bytes = smem,
          total_memory_allocated = bmem + smem + fl\<rparr>)"

end
