(* ===== verification/Cuckoo_Invariant.thy ===== *)
theory Cuckoo_Invariant
  imports Cuckoo_Table
begin

text \<open>
  The representation invariant of the cuckoo table and how one slot write changes it. A location
  \<open>(w, b, j)\<close> is slot \<open>j\<close> of bucket \<open>b\<close> of \<open>table_2\<close> (\<open>w\<close>) or \<open>table_1\<close>; \<open>live\<close> are the storage
  indices that some slot holds. The invariant carries a set \<open>F\<close> of indices in hand: entries that are
  stored but have no slot yet, as they occur inside of \<open>insert\<close>.
\<close>

type_synonym loc = "bool \<times> nat \<times> nat"

definition tbl :: "unsafe_cuckoo \<Rightarrow> bool \<Rightarrow> bucket list" where
  "tbl st w = (if w then table_2 st else table_1 st)"

fun slot_at :: "unsafe_cuckoo \<Rightarrow> loc \<Rightarrow> slot" where
  "slot_at st (w, b, j) = tbl st w ! b ! j"

fun valid_loc :: "unsafe_cuckoo \<Rightarrow> loc \<Rightarrow> bool" where
  "valid_loc st (w, b, j) \<longleftrightarrow> b < capacity st \<and> j < 8"

definition occupied :: "unsafe_cuckoo \<Rightarrow> loc \<Rightarrow> bool" where
  "occupied st l \<longleftrightarrow> valid_loc st l \<and> slot_index (slot_at st l) \<noteq> U32_MAX"

definition idx_at :: "unsafe_cuckoo \<Rightarrow> loc \<Rightarrow> nat" where
  "idx_at st l = unat (slot_index (slot_at st l))"

definition live :: "unsafe_cuckoo \<Rightarrow> nat set" where
  "live st = idx_at st ` {l. occupied st l}"

definition free_idx :: "unsafe_cuckoo \<Rightarrow> nat list" where
  "free_idx st = map unat (take (free_list_size st) (free_list st))"

definition key_of :: "unsafe_cuckoo \<Rightarrow> nat \<Rightarrow> string" where
  "key_of st i = entry_key (storage st ! i)"

definition home :: "sip_hash \<Rightarrow> bool \<Rightarrow> string \<Rightarrow> nat \<Rightarrow> nat" where
  "home sip w key cap = unat (if w then hash2_full sip key else hash1_full sip key) mod cap"

definition slot_ok :: "sip_hash \<Rightarrow> unsafe_cuckoo \<Rightarrow> loc \<Rightarrow> slot \<Rightarrow> bool" where
  "slot_ok sip st l s \<longleftrightarrow>
     unat (slot_index s) < storage_size st
     \<and> slot_tag s = get_tag (hash1_full sip (key_of st (unat (slot_index s))))
     \<and> fst (snd l) = home sip (fst l) (key_of st (unat (slot_index s))) (capacity st)"

definition shape :: "unsafe_cuckoo \<Rightarrow> bool" where
  "shape st \<longleftrightarrow>
     0 < capacity st
     \<and> length (table_1 st) = capacity st \<and> length (table_2 st) = capacity st
     \<and> (\<forall>bk \<in> set (table_1 st). length bk = 8) \<and> (\<forall>bk \<in> set (table_2 st). length bk = 8)
     \<and> length (storage st) = storage_size st \<and> storage_size st \<le> max_capacity st
     \<and> max_capacity st \<le> 2 ^ 32 - 1
     \<and> length (free_list st) = free_list_capacity st \<and> free_list_capacity st = max_capacity st
     \<and> free_list_size st \<le> free_list_capacity st
     \<and> clock_hand st \<le> max_capacity st"

definition cuckoo_wf :: "sip_hash \<Rightarrow> nat set \<Rightarrow> unsafe_cuckoo \<Rightarrow> bool" where
  "cuckoo_wf sip F st \<longleftrightarrow>
     shape st
     \<and> (\<forall>l. occupied st l \<longrightarrow> slot_ok sip st l (slot_at st l))
     \<and> inj_on (idx_at st) {l. occupied st l}
     \<and> inj_on (key_of st) (live st \<union> F)
     \<and> F \<inter> live st = {} \<and> F \<subseteq> {..<storage_size st}
     \<and> distinct (free_idx st) \<and> set (free_idx st) \<subseteq> {..<storage_size st}
     \<and> set (free_idx st) \<inter> (live st \<union> F) = {}"

definition content :: "unsafe_cuckoo \<Rightarrow> string \<Rightarrow> bytes option" where
  "content st k =
     (if \<exists>i \<in> live st. key_of st i = k
      then Some (entry_payload (storage st ! (THE i. i \<in> live st \<and> key_of st i = k)))
      else None)"

subsection \<open>Consequences of the invariant\<close>

lemma wfD:
  assumes "cuckoo_wf sip F st"
  shows "shape st"
    and "occupied st l \<Longrightarrow> slot_ok sip st l (slot_at st l)"
    and "inj_on (idx_at st) {l. occupied st l}"
    and "inj_on (key_of st) (live st \<union> F)"
    and "F \<inter> live st = {}" and "F \<subseteq> {..<storage_size st}"
    and "distinct (free_idx st)" and "set (free_idx st) \<subseteq> {..<storage_size st}"
    and "set (free_idx st) \<inter> (live st \<union> F) = {}"
  using assms unfolding cuckoo_wf_def by meson+

lemma shapeD:
  assumes "shape st"
  shows "0 < capacity st" and "length (tbl st w) = capacity st"
    and "b < capacity st \<Longrightarrow> length (tbl st w ! b) = 8"
    and "length (storage st) = storage_size st" and "storage_size st \<le> max_capacity st"
    and "max_capacity st \<le> 2 ^ 32 - 1"
    and "length (free_list st) = max_capacity st" and "free_list_size st \<le> max_capacity st"
    and "clock_hand st \<le> max_capacity st" and "free_list_capacity st = max_capacity st"
  using assms unfolding shape_def tbl_def by (auto simp del: One_nat_def)

lemma live_lt: "cuckoo_wf sip F st \<Longrightarrow> i \<in> live st \<Longrightarrow> i < storage_size st"
proof -
  assume w: "cuckoo_wf sip F st" and "i \<in> live st"
  then obtain l where "occupied st l" "i = idx_at st l" by (auto simp: live_def)
  with wfD(2)[OF w, of l] show ?thesis by (simp add: slot_ok_def idx_at_def)
qed

lemma liveI: "occupied st l \<Longrightarrow> idx_at st l \<in> live st"
  by (simp add: live_def)

lemma free_idx_length: "shape st \<Longrightarrow> length (free_idx st) = free_list_size st"
  by (simp add: free_idx_def shapeD)

lemma content_Some_iff:
  assumes "cuckoo_wf sip F st"
  shows "content st k = Some p \<longleftrightarrow>
    (\<exists>i \<in> live st. key_of st i = k \<and> entry_payload (storage st ! i) = p)"
proof (cases "\<exists>i \<in> live st. key_of st i = k")
  case True
  then obtain i where i: "i \<in> live st" "key_of st i = k" by blast
  have u: "i' = i" if "i' \<in> live st" "key_of st i' = k" for i'
    using inj_onD[OF wfD(4)[OF assms], of i' i] i that by simp
  have "(THE i. i \<in> live st \<and> key_of st i = k) = i"
    by (rule the_equality) (use i in simp, rule u, simp_all)
  then have "content st k = Some (entry_payload (storage st ! i))"
    using True by (simp add: content_def)
  then show ?thesis using i u by (metis option.inject)
next
  case False
  then show ?thesis by (auto simp: content_def)
qed

lemma content_None_iff:
  "content st k = None \<longleftrightarrow> (\<forall>i \<in> live st. key_of st i \<noteq> k)"
  by (auto simp: content_def)

subsection \<open>Writing one slot\<close>

fun put_slot :: "unsafe_cuckoo \<Rightarrow> loc \<Rightarrow> slot \<Rightarrow> unsafe_cuckoo" where
  "put_slot st (w, b, j) s =
     (if w then st\<lparr>table_2 := (table_2 st)[b := (table_2 st ! b)[j := s]]\<rparr>
      else st\<lparr>table_1 := (table_1 st)[b := (table_1 st ! b)[j := s]]\<rparr>)"

lemma put_slot_frame [simp]:
  "capacity (put_slot st l s) = capacity st" "storage (put_slot st l s) = storage st"
  "max_capacity (put_slot st l s) = max_capacity st" "storage_size (put_slot st l s) = storage_size st"
  "free_list (put_slot st l s) = free_list st"
  "free_list_capacity (put_slot st l s) = free_list_capacity st"
  "free_list_size (put_slot st l s) = free_list_size st" "clock_hand (put_slot st l s) = clock_hand st"
  "free_idx (put_slot st l s) = free_idx st" "key_of (put_slot st l s) = key_of st"
  "valid_loc (put_slot st l s) = valid_loc st" "slot_ok sip (put_slot st l s) = slot_ok sip st"
  by (cases l, simp add: free_idx_def key_of_def slot_ok_def fun_eq_iff)+

lemma shape_put_slot [simp]:
  assumes st: "shape st" and l: "valid_loc st l"
  shows "shape (put_slot st l s)"
proof -
  obtain w b j where l_def: "l = (w, b, j)" by (cases l)
  have "length bk = 8" if "bk \<in> set ((tbl st w)[b := (tbl st w ! b)[j := s]])" for bk
  proof -
    from that obtain c where c: "c < capacity st" "bk = (tbl st w)[b := (tbl st w ! b)[j := s]] ! c"
      using shapeD(2)[OF st, of w] by (auto simp: in_set_conv_nth)
    show ?thesis
      using c l l_def shapeD(2)[OF st, of w] shapeD(3)[OF st, of _ w] by (cases "c = b") auto
  qed
  then show ?thesis
    using st by (cases w) (simp_all add: shape_def tbl_def l_def)
qed

lemma slot_at_put_slot:
  assumes "shape st" "valid_loc st l" "valid_loc st l'"
  shows "slot_at (put_slot st l s) l' = (if l' = l then s else slot_at st l')"
proof -
  obtain w b j where l: "l = (w, b, j)" by (cases l)
  obtain w' b' j' where l': "l' = (w', b', j')" by (cases l')
  have len: "b < length (tbl st w)" "j < length (tbl st w ! b)"
    using assms(2) shapeD(2)[OF assms(1), of w] shapeD(3)[OF assms(1), of b w] by (simp_all add: l)
  show ?thesis
    using len by (cases "w' = w"; cases "b' = b"; cases w) (simp_all add: l l' tbl_def)
qed

declare slot_at.simps [simp del] valid_loc.simps [simp del] put_slot.simps [simp del]

lemma occupied_put_slot:
  assumes "shape st" "valid_loc st l"
  shows "occupied (put_slot st l s) l' \<longleftrightarrow>
    (if l' = l then slot_index s \<noteq> U32_MAX else occupied st l')"
  using slot_at_put_slot[OF assms, of l' s] assms(2) by (cases "l' = l") (auto simp: occupied_def)

lemma idx_at_put_slot:
  assumes "shape st" "valid_loc st l" "valid_loc st l'"
  shows "idx_at (put_slot st l s) l' = (if l' = l then unat (slot_index s) else idx_at st l')"
  by (simp add: idx_at_def slot_at_put_slot[OF assms])

lemma occupied_valid: "occupied st l \<Longrightarrow> valid_loc st l"
  by (simp add: occupied_def)

lemma live_put_slot:
  assumes "shape st" "valid_loc st l"
  shows "live (put_slot st l s) =
    (if slot_index s \<noteq> U32_MAX then {unat (slot_index s)} else {}) \<union> idx_at st ` {l'. occupied st l' \<and> l' \<noteq> l}"
proof -
  have "{l'. occupied (put_slot st l s) l'} =
      (if slot_index s \<noteq> U32_MAX then {l} else {}) \<union> {l'. occupied st l' \<and> l' \<noteq> l}"
    by (simp add: set_eq_iff occupied_put_slot[OF assms] del: split_paired_All)
  moreover have "idx_at (put_slot st l s) ` {l'. occupied st l' \<and> l' \<noteq> l}
      = idx_at st ` {l'. occupied st l' \<and> l' \<noteq> l}"
    by (rule image_cong) (simp_all add: idx_at_put_slot[OF assms] occupied_valid)
  ultimately show ?thesis
    by (simp add: live_def image_Un idx_at_put_slot[OF assms assms(2)])
qed

lemma live_others:
  assumes "cuckoo_wf sip F st" "occupied st l"
  shows "idx_at st ` {l'. occupied st l' \<and> l' \<noteq> l} = live st - {idx_at st l}"
proof -
  have "{l'. occupied st l' \<and> l' \<noteq> l} = {l'. occupied st l'} - {l}" by blast
  then show ?thesis
    using inj_on_image_set_diff[OF wfD(3)[OF assms(1)], of "{l'. occupied st l'}" "{l}"] assms(2)
    by (simp add: live_def)
qed

lemma live_others_free:
  assumes "\<not> occupied st l"
  shows "idx_at st ` {l'. occupied st l' \<and> l' \<noteq> l} = live st"
proof -
  have "{l'. occupied st l' \<and> l' \<noteq> l} = {l'. occupied st l'}" using assms by blast
  then show ?thesis by (simp add: live_def)
qed

lemma occupied_set_put_slot:
  assumes "shape st" "valid_loc st l"
  shows "{l'. occupied (put_slot st l s) l'} =
    (if slot_index s \<noteq> U32_MAX then insert l {l'. occupied st l' \<and> l' \<noteq> l}
     else {l'. occupied st l' \<and> l' \<noteq> l})"
  by (auto simp: occupied_put_slot[OF assms])

lemma inj_idx_put_slot:
  assumes "cuckoo_wf sip F st" "valid_loc st l"
    and fresh: "slot_index s \<noteq> U32_MAX \<Longrightarrow> unat (slot_index s) \<notin> live st"
  shows "inj_on (idx_at (put_slot st l s)) {l'. occupied (put_slot st l s) l'}"
proof -
  note sh = wfD(1)[OF assms(1)]
  let ?A = "{l'. occupied st l' \<and> l' \<noteq> l}"
  have eq: "idx_at (put_slot st l s) l' = idx_at st l'" if "l' \<in> ?A" for l'
    using that by (simp add: idx_at_put_slot[OF sh assms(2)] occupied_valid)
  have "inj_on (idx_at st) ?A"
    by (rule inj_on_subset[OF wfD(3)[OF assms(1)]]) blast
  then have A: "inj_on (idx_at (put_slot st l s)) ?A"
    using inj_on_cong[of ?A "idx_at (put_slot st l s)" "idx_at st"] eq by blast
  have "idx_at (put_slot st l s) ` ?A = idx_at st ` ?A"
    by (rule image_cong[OF refl eq])
  then have "unat (slot_index s) \<notin> idx_at (put_slot st l s) ` ?A" if "slot_index s \<noteq> U32_MAX"
    using fresh[OF that] by (auto simp: live_def)
  with A show ?thesis
    by (simp add: occupied_set_put_slot[OF sh assms(2)] idx_at_put_slot[OF sh assms(2) assms(2)])
qed

lemma slots_ok_put_slot:
  assumes "cuckoo_wf sip F st" "valid_loc st l" "slot_index s \<noteq> U32_MAX \<Longrightarrow> slot_ok sip st l s"
    and "occupied (put_slot st l s) l'"
  shows "slot_ok sip (put_slot st l s) l' (slot_at (put_slot st l s) l')"
proof -
  note sh = wfD(1)[OF assms(1)]
  have v: "valid_loc st l'" using occupied_valid[OF assms(4)] by simp
  show ?thesis
    using assms(4) assms(3) wfD(2)[OF assms(1), of l']
    by (simp add: slot_at_put_slot[OF sh assms(2) v] occupied_put_slot[OF sh assms(2)] split: if_splits)
qed

lemma empty_slot_index [simp]: "slot_index empty_slot = U32_MAX"
  by (simp add: empty_slot_def)

lemma wf_clear_slot:
  assumes w: "cuckoo_wf sip F st" and l: "occupied st l"
  shows "cuckoo_wf sip F (put_slot st l empty_slot)"
    and "live (put_slot st l empty_slot) = live st - {idx_at st l}"
proof -
  note sh = wfD(1)[OF w] and v = occupied_valid[OF l]
  show live: "live (put_slot st l empty_slot) = live st - {idx_at st l}"
    by (simp add: live_put_slot[OF sh v] live_others[OF w l])
  have "inj_on (key_of st) ((live st - {idx_at st l}) \<union> F)"
    by (rule inj_on_subset[OF wfD(4)[OF w]]) blast
  moreover have "F \<inter> (live st - {idx_at st l}) = {}"
    and "set (free_idx st) \<inter> (live st - {idx_at st l} \<union> F) = {}"
    using wfD(5,9)[OF w] by blast+
  ultimately show "cuckoo_wf sip F (put_slot st l empty_slot)"
    unfolding cuckoo_wf_def live
    using sh v wfD(6,7,8)[OF w] slots_ok_put_slot[OF w v, of empty_slot]
      inj_idx_put_slot[OF w v, of empty_slot]
    by simp
qed

lemma wf_fill_slot:
  assumes w: "cuckoo_wf sip {c} st" and v: "valid_loc st l"
    and s: "slot_index s \<noteq> U32_MAX" "unat (slot_index s) = c" "slot_ok sip st l s"
  shows "\<not> occupied st l \<Longrightarrow> cuckoo_wf sip {} (put_slot st l s) \<and> live (put_slot st l s) = insert c (live st)"
    and "occupied st l \<Longrightarrow> cuckoo_wf sip {idx_at st l} (put_slot st l s)
           \<and> live (put_slot st l s) = insert c (live st - {idx_at st l})"
proof -
  note sh = wfD(1)[OF w]
  have c: "c \<notin> live st" "c < storage_size st" "c \<notin> set (free_idx st)"
    using wfD(5,6,9)[OF w] by auto
  have common: "shape (put_slot st l s)"
    "\<forall>l'. occupied (put_slot st l s) l' \<longrightarrow> slot_ok sip (put_slot st l s) l' (slot_at (put_slot st l s) l')"
    "inj_on (idx_at (put_slot st l s)) {l'. occupied (put_slot st l s) l'}"
    using sh v s c slots_ok_put_slot[OF w v, of s] inj_idx_put_slot[OF w v, of s] by auto
  show "cuckoo_wf sip {} (put_slot st l s) \<and> live (put_slot st l s) = insert c (live st)" if n: "\<not> occupied st l"
  proof -
    have live: "live (put_slot st l s) = insert c (live st)"
      using s by (simp add: live_put_slot[OF sh v] live_others_free[OF n])
    have "inj_on (key_of st) (insert c (live st))" using wfD(4)[OF w] by (simp add: Un_commute)
    then show ?thesis
      unfolding cuckoo_wf_def live using common wfD(7,8,9)[OF w] by auto
  qed
  show "cuckoo_wf sip {idx_at st l} (put_slot st l s)
      \<and> live (put_slot st l s) = insert c (live st - {idx_at st l})" if o: "occupied st l"
  proof -
    have live: "live (put_slot st l s) = insert c (live st - {idx_at st l})"
      using s by (simp add: live_put_slot[OF sh v] live_others[OF w o])
    have i: "idx_at st l \<in> live st" by (rule liveI[OF o])
    have all: "insert c (live st - {idx_at st l}) \<union> {idx_at st l} = live st \<union> {c}" using i by blast
    have "inj_on (key_of st) (insert c (live st - {idx_at st l}) \<union> {idx_at st l})"
      unfolding all by (rule wfD(4)[OF w])
    moreover have "idx_at st l < storage_size st" by (rule live_lt[OF w i])
    moreover have "{idx_at st l} \<inter> insert c (live st - {idx_at st l}) = {}" using i c by auto
    moreover have "set (free_idx st) \<inter> (insert c (live st - {idx_at st l}) \<union> {idx_at st l}) = {}"
      unfolding all by (rule wfD(9)[OF w])
    ultimately show ?thesis
      unfolding cuckoo_wf_def live using common wfD(7,8)[OF w] by simp
  qed
qed

end
