(* ===== verification/Cuckoo_Correct.thy ===== *)
theory Cuckoo_Correct
  imports Cuckoo_Invariant
begin

text \<open>
  The operations of the cuckoo table keep the invariant of \<open>Cuckoo_Invariant\<close>, never leave the memory
  they own, and act on the table's content as a map that may forget entries: \<open>lookup\<close> and \<open>remove\<close>
  exactly, \<open>insert\<close> up to the entry the CLOCK evicts and the entry a failed displacement drops.
\<close>

subsection \<open>Slots of a state\<close>

lemma set_slot_1:
  assumes "shape st" "b < capacity st" "j < 8"
  shows "set_slot (table_1 st) b j s = Some (table_1 (put_slot st (False, b, j) s))"
  using assms shapeD(2)[OF assms(1), of False] shapeD(3)[OF assms(1,2), of False]
  by (simp add: set_slot_def mem_simps tbl_def put_slot.simps)

lemma set_slot_2:
  assumes "shape st" "b < capacity st" "j < 8"
  shows "set_slot (table_2 st) b j s = Some (table_2 (put_slot st (True, b, j) s))"
  using assms shapeD(2)[OF assms(1), of True] shapeD(3)[OF assms(1,2), of True]
  by (simp add: set_slot_def mem_simps tbl_def put_slot.simps)

lemma put_slot_1: "st\<lparr>table_1 := table_1 (put_slot st (False, b, j) s)\<rparr> = put_slot st (False, b, j) s"
  by (simp add: put_slot.simps)

lemma put_slot_2: "st\<lparr>table_2 := table_2 (put_slot st (True, b, j) s)\<rparr> = put_slot st (True, b, j) s"
  by (simp add: put_slot.simps)

lemma bucket_of_home:
  assumes "0 < cap"
  shows "bucket_of (hash1_full sip k) cap = Some (home sip False k cap)"
    and "bucket_of (hash2_full sip k) cap = Some (home sip True k cap)"
  using assms by (simp_all add: bucket_of_def home_def)

lemma home_lt: "0 < cap \<Longrightarrow> home sip w k cap < cap"
  by (simp add: home_def)

lemma read_bucket:
  assumes "shape st" "b < capacity st"
  shows "mem_rd (table_1 st) b = Some (tbl st False ! b)"
    and "mem_rd (table_2 st) b = Some (tbl st True ! b)"
  using assms shapeD(2)[OF assms(1), of False] shapeD(2)[OF assms(1), of True]
  by (simp_all add: mem_rd_def tbl_def)

lemmas slot_access = set_slot_1 set_slot_2 put_slot_1 put_slot_2 bucket_of_home home_lt read_bucket

subsection \<open>Scans\<close>

lemma find_index_Some:
  "find_index ix bk j0 = Some j \<Longrightarrow> j0 \<le> j \<and> j < j0 + length bk \<and> slot_index (bk ! (j - j0)) = ix"
  by (induction ix bk j0 rule: find_index.induct) (auto split: if_splits simp: nth_Cons')

lemma find_index_None:
  "find_index ix bk j0 = None \<longleftrightarrow> (\<forall>s \<in> set bk. slot_index s \<noteq> ix)"
  by (induction ix bk j0 rule: find_index.induct) auto

lemma find_key_total:
  assumes "\<And>s. s \<in> set bk \<Longrightarrow> slot_index s \<noteq> U32_MAX \<Longrightarrow> unat (slot_index s) < length sto"
  shows "\<exists>r. find_key sto t key bk j0 = Some r"
  using assms by (induction sto t key bk j0 rule: find_key.induct) (auto simp: mem_simps)

lemma find_key_None:
  "find_key sto t key bk j0 = Some None \<Longrightarrow> s \<in> set bk \<Longrightarrow> slot_index s \<noteq> U32_MAX \<Longrightarrow> slot_tag s = t
    \<Longrightarrow> entry_key (sto ! unat (slot_index s)) \<noteq> key"
  by (induction sto t key bk j0 rule: find_key.induct)
    (auto split: if_splits bind_splits simp: mem_rd_Some_iff)

lemma find_key_Some:
  "find_key sto t key bk j0 = Some (Some (j, ix)) \<Longrightarrow>
    j0 \<le> j \<and> j < j0 + length bk \<and> slot_index (bk ! (j - j0)) = ix \<and> ix \<noteq> U32_MAX
    \<and> entry_key (sto ! unat ix) = key"
  by (induction sto t key bk j0 rule: find_key.induct)
    (auto split: if_splits bind_splits simp: mem_rd_Some_iff nth_Cons')

lemma bucket_slot:
  assumes "shape st" "b < capacity st" "s \<in> set (tbl st w ! b)"
  obtains j where "j < 8" "s = slot_at st (w, b, j)"
  using assms shapeD(3)[OF assms(1,2), of w] by (auto simp: in_set_conv_nth slot_at.simps)

lemma bucket_reads_ok:
  assumes w: "cuckoo_wf sip F st" and b: "b < capacity st"
    and s: "s \<in> set (tbl st u ! b)" "slot_index s \<noteq> U32_MAX"
  shows "unat (slot_index s) < length (storage st)"
proof -
  note sh = wfD(1)[OF w]
  obtain j where j: "j < 8" "s = slot_at st (u, b, j)" using bucket_slot[OF sh b s(1)] .
  then have "occupied st (u, b, j)" using s b by (simp add: occupied_def valid_loc.simps)
  with wfD(2)[OF w] j show ?thesis by (simp add: slot_ok_def shapeD(4)[OF sh])
qed

text \<open>A live entry with key \<open>k\<close> sits in one of the two home buckets of \<open>k\<close>, under its tag.\<close>

lemma live_key_home:
  assumes w: "cuckoo_wf sip F st" and i: "i \<in> live st"
  obtains u j where "occupied st (u, home sip u (key_of st i) (capacity st), j)"
    and "idx_at st (u, home sip u (key_of st i) (capacity st), j) = i"
    and "slot_tag (slot_at st (u, home sip u (key_of st i) (capacity st), j)) = get_tag (hash1_full sip (key_of st i))"
proof -
  from i obtain u b j where o: "occupied st (u, b, j)" "idx_at st (u, b, j) = i"
    by (auto simp: live_def)
  have b: "b = home sip u (key_of st i) (capacity st)"
    and t: "slot_tag (slot_at st (u, b, j)) = get_tag (hash1_full sip (key_of st i))"
    using wfD(2)[OF w o(1)] o(2) unfolding slot_ok_def idx_at_def by auto
  show ?thesis using that[of u j] o t unfolding b by blast
qed

subsection \<open>Search\<close>

lemma occupiedI_bucket:
  assumes "shape st" "b < capacity st" "j < length (tbl st u ! b)" "slot_index (tbl st u ! b ! j) \<noteq> U32_MAX"
  shows "occupied st (u, b, j)"
  using assms shapeD(3)[OF assms(1,2), of u] by (simp add: occupied_def valid_loc.simps slot_at.simps)

lemma find_key_bucket_None:
  assumes w: "cuckoo_wf sip F st" and f: "find_key (storage st) (get_tag (hash1_full sip key)) key
      (tbl st u ! home sip u key (capacity st)) 0 = Some None"
    and o: "occupied st (u, home sip u key (capacity st), j)"
    and t: "slot_tag (slot_at st (u, home sip u key (capacity st), j)) = get_tag (hash1_full sip key)"
  shows "key_of st (idx_at st (u, home sip u key (capacity st), j)) \<noteq> key"
proof -
  let ?b = "home sip u key (capacity st)"
  note sh = wfD(1)[OF w]
  have "?b < capacity st" "j < 8" using o by (simp_all add: occupied_def valid_loc.simps)
  then have "slot_at st (u, ?b, j) \<in> set (tbl st u ! ?b)"
    using shapeD(3)[OF sh, of ?b u] by (simp add: slot_at.simps)
  from find_key_None[OF f this] o t show ?thesis
    by (simp add: occupied_def key_of_def idx_at_def)
qed

lemma locate_spec:
  assumes w: "cuckoo_wf sip F st"
  shows "(locate sip st key = Some None \<and> (\<forall>i \<in> live st. key_of st i \<noteq> key))
    \<or> (\<exists>u b j ix. locate sip st key = Some (Some (u, b, j, ix)) \<and> occupied st (u, b, j)
         \<and> slot_index (slot_at st (u, b, j)) = ix \<and> key_of st (unat ix) = key)"
proof -
  note sh = wfD(1)[OF w] and cap = shapeD(1)[OF wfD(1)[OF w]]
  let ?t = "get_tag (hash1_full sip key)" and ?b = "\<lambda>u. home sip u key (capacity st)"
  let ?f = "\<lambda>u. find_key (storage st) ?t key (tbl st u ! ?b u) 0"
  have b: "?b u < capacity st" for u by (rule home_lt[OF cap])
  have tot: "\<exists>r. ?f u = Some r" for u
    by (rule find_key_total) (rule bucket_reads_ok[OF w b])
  have hit: "occupied st (u, ?b u, j) \<and> slot_index (slot_at st (u, ?b u, j)) = ix \<and> key_of st (unat ix) = key"
    if "?f u = Some (Some (j, ix))" for u j ix
    using find_key_Some[OF that] occupiedI_bucket[OF sh b, of j u] by (simp add: slot_at.simps key_of_def)
  consider (one) j ix where "?f False = Some (Some (j, ix))"
    | (two) j ix where "?f False = Some None" "?f True = Some (Some (j, ix))"
    | (none) "?f False = Some None" "?f True = Some None"
    using tot[of False] tot[of True] by (metis option.exhaust surj_pair)
  then show ?thesis
  proof cases
    case one
    then have "locate sip st key = Some (Some (False, ?b False, j, ix))"
      by (simp add: locate_def Let_def bucket_of_home[OF cap] read_bucket[OF sh b])
    with hit[OF one] show ?thesis by blast
  next
    case two
    then have "locate sip st key = Some (Some (True, ?b True, j, ix))"
      by (simp add: locate_def Let_def bucket_of_home[OF cap] read_bucket[OF sh b])
    with hit[OF two(2)] show ?thesis by blast
  next
    case none
    then have "locate sip st key = Some None"
      by (simp add: locate_def Let_def bucket_of_home[OF cap] read_bucket[OF sh b])
    moreover have "key_of st i \<noteq> key" if i: "i \<in> live st" for i
    proof
      assume k: "key_of st i = key"
      from live_key_home[OF w i] obtain u j where h: "occupied st (u, ?b u, j)"
        "idx_at st (u, ?b u, j) = i" "slot_tag (slot_at st (u, ?b u, j)) = ?t" unfolding k .
      have "?f u = Some None" using none by (cases u) simp_all
      from find_key_bucket_None[OF w this h(1,3)] h(2) k show False by simp
    qed
    ultimately show ?thesis by blast
  qed
qed

subsection \<open>Displacement\<close>

definition same_but_tables :: "unsafe_cuckoo \<Rightarrow> unsafe_cuckoo \<Rightarrow> bool" where
  "same_but_tables st st' \<longleftrightarrow> st' = st\<lparr>table_1 := table_1 st', table_2 := table_2 st'\<rparr>"

lemma same_but_tables_refl [simp]: "same_but_tables st st"
  by (simp add: same_but_tables_def)

lemma same_but_tables_put_slot [simp]: "same_but_tables st (put_slot st l s)"
  by (cases l) (simp add: same_but_tables_def put_slot.simps)

lemma same_but_tables_trans:
  assumes "same_but_tables a b" "same_but_tables b c"
  shows "same_but_tables a c"
  using assms by (cases a; cases b; cases c) (simp add: same_but_tables_def)

lemma same_but_tablesD:
  assumes "same_but_tables st st'"
  shows "capacity st' = capacity st" "storage st' = storage st" "max_capacity st' = max_capacity st"
    "storage_size st' = storage_size st" "free_list st' = free_list st"
    "free_list_size st' = free_list_size st" "clock_hand st' = clock_hand st" "key_of st' = key_of st"
proof -
  from assms have *: "f st' = f (st\<lparr>table_1 := table_1 st', table_2 := table_2 st'\<rparr>)" for f :: "unsafe_cuckoo \<Rightarrow> 'x"
    by (simp add: same_but_tables_def)
  show "capacity st' = capacity st" "max_capacity st' = max_capacity st"
    "storage_size st' = storage_size st" "free_list_size st' = free_list_size st"
    "clock_hand st' = clock_hand st"
    by (subst *, simp)+
  show "storage st' = storage st" "free_list st' = free_list st" "key_of st' = key_of st"
    using assms by (cases st; cases st'; simp add: same_but_tables_def key_of_def fun_eq_iff)+
qed

lemma held_slot_ok:
  assumes "cuckoo_wf sip {unat ci} st" "key_of st (unat ci) = ck"
  shows "slot_ok sip st (u, home sip u ck (capacity st), j)
    \<lparr>slot_tag = get_tag (hash1_full sip ck), slot_index = ci\<rparr>"
  using assms wfD(6)[OF assms(1)] by (simp add: slot_ok_def)

lemma free_slot_of_bucket:
  assumes sh: "shape st" and b: "b < capacity st" and f: "find_index U32_MAX (tbl st u ! b) 0 = Some j"
  shows "j < 8" and "valid_loc st (u, b, j)" and "\<not> occupied st (u, b, j)"
  using find_index_Some[OF f] b shapeD(3)[OF sh b, of u]
  by (simp_all add: occupied_def valid_loc.simps slot_at.simps)

lemma full_bucket_occupied:
  assumes sh: "shape st" and b: "b < capacity st" and f: "find_index U32_MAX (tbl st u ! b) 0 = None"
    and j: "j < 8"
  shows "occupied st (u, b, j)"
proof -
  have "tbl st u ! b ! j \<in> set (tbl st u ! b)" using j shapeD(3)[OF sh b, of u] by simp
  with f b j show ?thesis by (simp add: find_index_None occupied_def valid_loc.simps slot_at.simps)
qed

text \<open>
  The loop writes to \<open>table_1\<close> only in the bucket of the entry in hand, and to \<open>table_2\<close> only when it
  succeeds.
\<close>

definition confined :: "sip_hash \<Rightarrow> unsafe_cuckoo \<Rightarrow> nat \<Rightarrow> bool \<Rightarrow> unsafe_cuckoo \<Rightarrow> bool" where
  "confined sip st c ok st' \<longleftrightarrow>
     (\<forall>b. b \<noteq> home sip False (key_of st c) (capacity st) \<longrightarrow> table_1 st' ! b = table_1 st ! b)
     \<and> (\<not> ok \<longrightarrow> table_2 st' = table_2 st)"

lemma confined_fill: "confined sip st c True (put_slot st (u, home sip u (key_of st c) (capacity st), j) s)"
  by (simp add: confined_def put_slot.simps)

lemma confined_step:
  assumes "slot_ok sip st (False, b, j) s" "slot_ok sip st (False, b, j) (slot_at st (False, b, j))"
    and "confined sip (put_slot st (False, b, j) s) (idx_at st (False, b, j)) ok st'"
  shows "confined sip st (unat (slot_index s)) ok st'"
proof -
  have h: "home sip False (key_of st (unat (slot_index s))) (capacity st) = b"
    "home sip False (key_of st (idx_at st (False, b, j))) (capacity st) = b"
    using assms(1,2) by (simp_all add: slot_ok_def idx_at_def)
  show ?thesis using assms(3) unfolding confined_def put_slot_frame h by (simp add: put_slot.simps)
qed

definition displaced :: "sip_hash \<Rightarrow> unsafe_cuckoo \<Rightarrow> nat \<Rightarrow> bool \<Rightarrow> unsafe_cuckoo \<Rightarrow> bool" where
  "displaced sip st c ok st' \<longleftrightarrow>
     same_but_tables st st' \<and> confined sip st c ok st'
     \<and> (if ok then cuckoo_wf sip {} st' \<and> live st' = insert c (live st)
        else \<exists>x \<in> insert c (live st). cuckoo_wf sip {x} st' \<and> live st' = insert c (live st) - {x})"

lemma displaced_step:
  assumes w: "cuckoo_wf sip {c} st" and o: "occupied st (False, b, j)"
    and s: "slot_index s \<noteq> U32_MAX" "unat (slot_index s) = c" "slot_ok sip st (False, b, j) s"
    and d: "displaced sip (put_slot st (False, b, j) s) (idx_at st (False, b, j)) ok st'"
  shows "displaced sip st c ok st'"
proof -
  let ?l = "(False, b, j)"
  have "confined sip st c ok st'"
    using confined_step[OF s(3) wfD(2)[OF w o], of ok st'] d s(2) by (simp add: displaced_def)
  moreover have live: "insert (idx_at st ?l) (live (put_slot st ?l s)) = insert c (live st)"
    using wf_fill_slot(2)[OF w occupied_valid[OF o] s o] liveI[OF o] by blast
  ultimately show ?thesis
    using d same_but_tables_trans[OF same_but_tables_put_slot, of st ?l s st']
    unfolding displaced_def live by (auto split: if_splits)
qed

text \<open>One iteration: the entry goes into a free slot of its first or second bucket, or takes the place of a victim.\<close>

lemma displace_step:
  fixes sip :: sip_hash and st :: unsafe_cuckoo and ck :: string and ci ct :: u32 and i :: nat
  assumes sh: "shape st"
  defines "b \<equiv> \<lambda>u. home sip u ck (capacity st)" and "s \<equiv> \<lparr>slot_tag = ct, slot_index = ci\<rparr>"
    and "l \<equiv> (False, home sip False ck (capacity st), unat (hash1_full sip ck + ucast ci + of_nat i) mod 8)"
  shows "find_index U32_MAX (tbl st False ! b False) 0 = Some j \<Longrightarrow>
      displace sip (Suc n) i ci ct ck st = Some (True, put_slot st (False, b False, j) s)"
    and "find_index U32_MAX (tbl st False ! b False) 0 = None \<Longrightarrow> find_index U32_MAX (tbl st True ! b True) 0 = Some j \<Longrightarrow>
      displace sip (Suc n) i ci ct ck st = Some (True, put_slot st (True, b True, j) s)"
    and "find_index U32_MAX (tbl st False ! b False) 0 = None \<Longrightarrow> find_index U32_MAX (tbl st True ! b True) 0 = None \<Longrightarrow>
      slot_ok sip st l (slot_at st l) \<Longrightarrow>
      displace sip (Suc n) i ci ct ck st = displace sip n (Suc i) (slot_index (slot_at st l)) (slot_tag (slot_at st l))
        (key_of st (unat (slot_index (slot_at st l)))) (put_slot st l s)"
proof -
  note cap = shapeD(1)[OF sh]
  have lt: "home sip u ck (capacity st) < capacity st" for u by (rule home_lt[OF cap])
  note ev = Let_def b_def s_def bucket_of_home[OF cap] read_bucket[OF sh lt]
  {
    assume f: "find_index U32_MAX (tbl st False ! b False) 0 = Some j"
    then show "displace sip (Suc n) i ci ct ck st = Some (True, put_slot st (False, b False, j) s)"
      using free_slot_of_bucket(1)[OF sh lt f[unfolded b_def]] by (simp add: ev set_slot_1[OF sh lt] put_slot_1)
  next
    assume f: "find_index U32_MAX (tbl st False ! b False) 0 = None" "find_index U32_MAX (tbl st True ! b True) 0 = Some j"
    then show "displace sip (Suc n) i ci ct ck st = Some (True, put_slot st (True, b True, j) s)"
      using free_slot_of_bucket(1)[OF sh lt f(2)[unfolded b_def]] by (simp add: ev set_slot_2[OF sh lt] put_slot_2)
  next
    assume f: "find_index U32_MAX (tbl st False ! b False) 0 = None" "find_index U32_MAX (tbl st True ! b True) 0 = None"
      and ok: "slot_ok sip st l (slot_at st l)"
    let ?v = "unat (hash1_full sip ck + ucast ci + of_nat i) mod 8"
    have v: "?v < 8" by simp
    have rd: "mem_rd (tbl st False ! b False) ?v = Some (slot_at st l)"
      using shapeD(3)[OF sh lt, of False] by (simp add: mem_rd_def slot_at.simps l_def b_def)
    have st: "mem_rd (storage st) (unat (slot_index (slot_at st l))) = Some (storage st ! unat (slot_index (slot_at st l)))"
      using ok shapeD(4)[OF sh] by (simp add: mem_rd_def slot_ok_def)
    show "displace sip (Suc n) i ci ct ck st = displace sip n (Suc i) (slot_index (slot_at st l)) (slot_tag (slot_at st l))
        (key_of st (unat (slot_index (slot_at st l)))) (put_slot st l s)"
      using f rd st by (simp add: ev l_def set_slot_1[OF sh lt v] put_slot_1 key_of_def)
  }
qed

lemma displace_spec:
  assumes "cuckoo_wf sip {unat ci} st" "ci \<noteq> U32_MAX" "key_of st (unat ci) = ck"
    and "ct = get_tag (hash1_full sip ck)"
  shows "\<exists>ok st'. displace sip n i ci ct ck st = Some (ok, st') \<and> displaced sip st (unat ci) ok st'"
  using assms
proof (induction n arbitrary: i ci ct ck st)
  case 0
  note w = "0.prems"(1)
  have "live st = insert (unat ci) (live st) - {unat ci}" using wfD(5)[OF w] by auto
  then show ?case using w by (simp add: displaced_def confined_def) blast
next
  case (Suc n)
  note w = Suc.prems(1) and sh = wfD(1)[OF Suc.prems(1)] and cap = shapeD(1)[OF wfD(1)[OF Suc.prems(1)]]
  let ?b = "\<lambda>u. home sip u ck (capacity st)" and ?s = "\<lparr>slot_tag = ct, slot_index = ci\<rparr>"
  let ?fi = "\<lambda>u. find_index U32_MAX (tbl st u ! ?b u) 0"
  have b: "?b u < capacity st" for u by (rule home_lt[OF cap])
  have sok: "slot_ok sip st (u, ?b u, j) ?s" for u j
    using held_slot_ok[OF w Suc.prems(3)] Suc.prems(4) by simp
  have fill: "displaced sip st (unat ci) True (put_slot st (u, ?b u, j) ?s)" if "?fi u = Some j" for u j
    using wf_fill_slot(1)[OF w free_slot_of_bucket(2)[OF sh b that] _ _ sok free_slot_of_bucket(3)[OF sh b that]]
      Suc.prems(2) confined_fill[of sip st "unat ci" u j] Suc.prems(3) by (simp add: displaced_def)
  consider (one) j where "?fi False = Some j" | (two) j where "?fi False = None" "?fi True = Some j"
    | (none) "?fi False = None" "?fi True = None" by (cases "?fi False"; cases "?fi True") auto
  then show ?case
  proof cases
    case one
    then show ?thesis using displace_step(1)[OF sh one] fill[OF one] by blast
  next
    case two
    then show ?thesis using displace_step(2)[OF sh two] fill[OF two(2)] by blast
  next
    case none
    let ?v = "unat (hash1_full sip ck + ucast ci + of_nat i) mod 8"
    let ?l = "(False, ?b False, ?v)" and ?st = "put_slot st (False, ?b False, ?v) ?s"
    let ?vic = "slot_at st ?l"
    have v: "?v < 8" by simp
    have o: "occupied st ?l" by (rule full_bucket_occupied[OF sh b none(1) v])
    have w': "cuckoo_wf sip {unat (slot_index ?vic)} ?st"
      using wf_fill_slot(2)[OF w occupied_valid[OF o] _ _ sok o] Suc.prems(2) by (simp add: idx_at_def)
    have ok: "slot_ok sip st ?l ?vic" by (rule wfD(2)[OF w o])
    have "\<exists>ok st'. displace sip n (Suc i) (slot_index ?vic) (slot_tag ?vic) (key_of st (unat (slot_index ?vic))) ?st = Some (ok, st')
        \<and> displaced sip ?st (unat (slot_index ?vic)) ok st'"
      by (rule Suc.IH[OF w']) (use o ok in \<open>simp_all add: occupied_def slot_ok_def\<close>)
    then obtain ok st' where r: "displace sip n (Suc i) (slot_index ?vic) (slot_tag ?vic) (key_of st (unat (slot_index ?vic))) ?st = Some (ok, st')"
        "displaced sip ?st (idx_at st ?l) ok st'" by (auto simp: idx_at_def)
    have "displaced sip st (unat ci) ok st'"
      by (rule displaced_step[OF w o _ _ sok r(2)]) (use Suc.prems(2) in simp_all)
    moreover have "displace sip (Suc n) i ci ct ck st = Some (ok, st')"
      using displace_step(3)[OF sh none ok] r(1) by simp
    ultimately show ?thesis by blast
  qed
qed

subsection \<open>Changes of the arena\<close>

lemma same_tables_live:
  assumes "table_1 st' = table_1 st" "table_2 st' = table_2 st" "capacity st' = capacity st"
  shows "slot_at st' = slot_at st" "occupied st' = occupied st" "idx_at st' = idx_at st" "live st' = live st"
proof -
  have t: "tbl st' = tbl st" using assms by (simp add: tbl_def fun_eq_iff)
  show sl: "slot_at st' = slot_at st" by (simp add: t fun_eq_iff slot_at.simps)
  show oc: "occupied st' = occupied st"
    using assms by (auto simp: sl fun_eq_iff occupied_def valid_loc.simps)
  show ix: "idx_at st' = idx_at st" by (simp add: sl fun_eq_iff idx_at_def)
  show "live st' = live st" by (simp add: live_def oc ix)
qed

lemma wf_arena:
  assumes w: "cuckoo_wf sip {} st" and sh: "shape st'"
    and same: "table_1 st' = table_1 st" "table_2 st' = table_2 st" "capacity st' = capacity st"
    and size: "storage_size st \<le> storage_size st'"
    and keys: "\<And>i. i \<in> live st \<Longrightarrow> key_of st' i = key_of st i"
    and F: "F \<inter> live st = {}" "F \<subseteq> {..<storage_size st'}" "inj_on (key_of st') (live st \<union> F)"
    and free: "distinct (free_idx st')" "set (free_idx st') \<subseteq> set (free_idx st)" "set (free_idx st') \<inter> F = {}"
  shows "cuckoo_wf sip F st'"
proof -
  note sl = same_tables_live[OF same]
  have "slot_ok sip st' l (slot_at st l)" if o: "occupied st l" for l
  proof -
    have "key_of st' (unat (slot_index (slot_at st l))) = key_of st (unat (slot_index (slot_at st l)))"
      using keys[OF liveI[OF o]] by (simp add: idx_at_def)
    then show ?thesis using wfD(2)[OF w o] size same(3) by (simp add: slot_ok_def)
  qed
  moreover have "set (free_idx st') \<subseteq> {..<storage_size st'}" using free(2) wfD(8)[OF w] size by force
  moreover have "set (free_idx st') \<inter> (live st \<union> F) = {}" using free(2,3) wfD(9)[OF w] by blast
  ultimately show ?thesis
    unfolding cuckoo_wf_def sl using sh wfD(3)[OF w] F free(1) by blast
qed

lemma wf_weaken: "cuckoo_wf sip F st \<Longrightarrow> cuckoo_wf sip {} st"
proof -
  assume w: "cuckoo_wf sip F st"
  have "inj_on (key_of st) (live st)" by (rule inj_on_subset[OF wfD(4)[OF w]]) blast
  moreover have "set (free_idx st) \<inter> live st = {}" using wfD(9)[OF w] by blast
  ultimately show ?thesis unfolding cuckoo_wf_def using wfD(1,3,7,8)[OF w] wfD(2)[OF w] by simp
qed

text \<open>A write that keeps every key keeps the invariant: an update of a payload or of a mark.\<close>

lemma wf_keep_keys:
  assumes w: "cuckoo_wf sip {} st" and len: "length sto = length (storage st)"
    and keys: "\<And>i. i < length (storage st) \<Longrightarrow> entry_key (sto ! i) = key_of st i"
    and hand: "h \<le> max_capacity st"
  shows "cuckoo_wf sip {} (st\<lparr>storage := sto, clock_hand := h\<rparr>)"
    and "live (st\<lparr>storage := sto, clock_hand := h\<rparr>) = live st"
proof -
  let ?st = "st\<lparr>storage := sto, clock_hand := h\<rparr>"
  note sh = wfD(1)[OF w]
  have k: "key_of ?st i = key_of st i" if "i \<in> live st" for i
    using keys[of i] live_lt[OF w that] by (simp add: key_of_def shapeD(4)[OF sh])
  show "cuckoo_wf sip {} ?st"
  proof (rule wf_arena[OF w])
    show "shape ?st" using sh len hand by (simp add: shape_def)
    have "inj_on (key_of ?st) (live st) = inj_on (key_of st) (live st)" by (rule inj_on_cong) (rule k)
    then show "inj_on (key_of ?st) (live st \<union> {})" using wfD(4)[OF w] by simp
    show "distinct (free_idx ?st)" using wfD(7)[OF w] by (simp add: free_idx_def)
  qed (use k in \<open>simp_all add: free_idx_def\<close>)
  show "live ?st = live st" by (rule same_tables_live(4)) simp_all
qed

text \<open>A fresh entry at an index that is neither live nor free is an entry in hand.\<close>

lemma wf_hold:
  assumes w: "cuckoo_wf sip {} st" and sh: "shape st'"
    and same: "table_1 st' = table_1 st" "table_2 st' = table_2 st" "capacity st' = capacity st"
    and size: "storage_size st \<le> storage_size st'" "c < storage_size st'"
    and c: "c \<notin> live st"
    and ks: "\<And>i. i \<in> insert c (live st) \<Longrightarrow> key_of st' i = ((key_of st)(c := key)) i"
    and fresh: "\<forall>i \<in> live st. key_of st i \<noteq> key"
    and free: "distinct (free_idx st')" "set (free_idx st') \<subseteq> set (free_idx st)" "c \<notin> set (free_idx st')"
  shows "cuckoo_wf sip {c} st'"
proof (rule wf_arena[OF w sh same size(1)])
  show "key_of st' i = key_of st i" if "i \<in> live st" for i using ks[of i] that c by auto
  have "inj_on (key_of st) (live st)" using wfD(4)[OF w] by simp
  then have "inj_on ((key_of st)(c := key)) (insert c (live st))"
    using c fresh by (auto simp: inj_on_def)
  then have "inj_on (key_of st') (insert c (live st))"
    using inj_on_cong[of "insert c (live st)" "key_of st'" "(key_of st)(c := key)"] ks by blast
  then show "inj_on (key_of st') (live st \<union> {c})" by simp
qed (use c size free in auto)

subsection \<open>The CLOCK\<close>

definition same_data :: "secret_entry list \<Rightarrow> secret_entry list \<Rightarrow> bool" where
  "same_data sto sto' \<longleftrightarrow> map entry_key sto' = map entry_key sto \<and> map entry_payload sto' = map entry_payload sto"

lemma same_data_refl [simp]: "same_data sto sto"
  by (simp add: same_data_def)

lemma same_data_trans: "same_data a b \<Longrightarrow> same_data b c \<Longrightarrow> same_data a c"
  by (simp add: same_data_def)

lemma same_data_mark [simp]:
  "i < length sto \<Longrightarrow> same_data sto (sto[i := (sto ! i)\<lparr>entry_referenced := r\<rparr>])"
  by (auto simp: same_data_def list_eq_iff_nth_eq nth_list_update)

lemma same_dataD:
  assumes "same_data sto sto'"
  shows "length sto' = length sto"
    and "i < length sto \<Longrightarrow> entry_key (sto' ! i) = entry_key (sto ! i)"
    and "i < length sto \<Longrightarrow> entry_payload (sto' ! i) = entry_payload (sto ! i)"
proof -
  show len: "length sto' = length sto"
    using assms unfolding same_data_def by (metis length_map)
  show "i < length sto \<Longrightarrow> entry_key (sto' ! i) = entry_key (sto ! i)"
    "i < length sto \<Longrightarrow> entry_payload (sto' ! i) = entry_payload (sto ! i)"
    using assms len unfolding same_data_def by (metis nth_map)+
qed

lemma of_nat_u32:
  assumes "i < 2 ^ 32 - 1"
  shows "unat (of_nat i :: u32) = i" and "(of_nat i :: u32) \<noteq> U32_MAX"
proof -
  show i: "unat (of_nat i :: u32) = i" using assms by (simp add: unsigned_of_nat take_bit_nat_eq_self)
  have "unat U32_MAX = 2 ^ 32 - 1" by (simp add: U32_MAX_def)
  then show "(of_nat i :: u32) \<noteq> U32_MAX" using i assms by auto
qed

lemma clock_sweep_spec:
  assumes "length sto = m" "0 < m" "m \<le> 2 ^ 32 - 1" "hand \<le> m"
  shows "\<exists>v sto' hand'. clock_sweep n m sto hand = Some (v, sto', hand') \<and> same_data sto sto' \<and> hand' \<le> m
    \<and> (v \<noteq> U32_MAX \<longrightarrow> unat v < m)
    \<and> (length (filter entry_referenced sto) < n \<longrightarrow> v \<noteq> U32_MAX)"
  using assms
proof (induction n arbitrary: sto hand)
  case 0
  then show ?case by simp
next
  case (Suc n)
  define idx where "idx = (if hand \<ge> m then 0 else hand)"
  have idx: "idx < m" "idx < length sto" using Suc.prems by (auto simp: idx_def)
  show ?case
  proof (cases "entry_referenced (sto ! idx)")
    case False
    then have "clock_sweep (Suc n) m sto hand = Some (of_nat idx, sto, idx + 1)"
      using idx by (simp add: Let_def mem_simps flip: idx_def)
    moreover have "idx < 2 ^ 32 - 1" using idx Suc.prems by simp
    ultimately show ?thesis using idx of_nat_u32[of idx] by simp
  next
    case True
    let ?sto = "sto[idx := (sto ! idx)\<lparr>entry_referenced := False\<rparr>]"
    have "length (filter entry_referenced sto) = Suc (length (filter entry_referenced ?sto))"
    proof -
      have s: "sto = take idx sto @ sto ! idx # drop (Suc idx) sto" using idx by (simp add: id_take_nth_drop)
      have "?sto = take idx sto @ (sto ! idx)\<lparr>entry_referenced := False\<rparr> # drop (Suc idx) sto"
        using idx by (simp add: upd_conv_take_nth_drop)
      then show ?thesis using True by (subst s) simp
    qed
    moreover obtain v sto' hand' where r: "clock_sweep n m ?sto (idx + 1) = Some (v, sto', hand')"
      "same_data ?sto sto'" "hand' \<le> m" "v \<noteq> U32_MAX \<longrightarrow> unat v < m"
      "length (filter entry_referenced ?sto) < n \<longrightarrow> v \<noteq> U32_MAX"
      using Suc.IH[of ?sto "idx + 1"] Suc.prems idx by auto
    moreover have "same_data sto sto'" using r(2) same_data_mark[OF idx(2)] same_data_trans by blast
    moreover have "clock_sweep (Suc n) m sto hand = Some (v, sto', hand')"
      using True idx r(1) by (simp add: Let_def mem_simps flip: idx_def)
    ultimately show ?thesis by simp
  qed
qed

subsection \<open>Eviction and allocation\<close>

lemma find_index_live:
  assumes w: "cuckoo_wf sip F st" and b: "b < capacity st" and v: "v \<noteq> U32_MAX"
    and f: "find_index v (tbl st u ! b) 0 = Some j"
  shows "j < 8" and "occupied st (u, b, j)" and "idx_at st (u, b, j) = unat v"
  using find_index_Some[OF f] v b shapeD(3)[OF wfD(1)[OF w] b, of u]
  by (simp_all add: occupied_def valid_loc.simps slot_at.simps idx_at_def)

lemma clear_victim_slot_spec:
  assumes w: "cuckoo_wf sip {} st" and v: "v \<noteq> U32_MAX"
  shows "\<exists>st'. clear_victim_slot sip st v (key_of st (unat v)) = Some st' \<and> same_but_tables st st'
    \<and> cuckoo_wf sip {} st' \<and> live st' = live st - {unat v}"
proof -
  note sh = wfD(1)[OF w] and cap = shapeD(1)[OF wfD(1)[OF w]]
  let ?k = "key_of st (unat v)"
  let ?b = "\<lambda>u. home sip u ?k (capacity st)" and ?fi = "\<lambda>u. find_index v (tbl st u ! home sip u ?k (capacity st)) 0"
  have b: "?b u < capacity st" for u by (rule home_lt[OF cap])
  have found: "cuckoo_wf sip {} (put_slot st (u, ?b u, j) empty_slot)
      \<and> live (put_slot st (u, ?b u, j) empty_slot) = live st - {unat v}" if "?fi u = Some j" for u j
    using wf_clear_slot[OF w find_index_live(2)[OF w b v that]] find_index_live(3)[OF w b v that] by simp
  consider (one) j where "?fi False = Some j" | (two) j where "?fi False = None" "?fi True = Some j"
    | (none) "?fi False = None" "?fi True = None" by (cases "?fi False"; cases "?fi True") auto
  then show ?thesis
  proof cases
    case one
    then have "clear_victim_slot sip st v ?k = Some (put_slot st (False, ?b False, j) empty_slot)"
      using find_index_live(1)[OF w b v one]
      by (simp add: clear_victim_slot_def bucket_of_home[OF cap] read_bucket[OF sh b] set_slot_1[OF sh b] put_slot_1)
    with found[OF one] show ?thesis by simp
  next
    case two
    then have "clear_victim_slot sip st v ?k = Some (put_slot st (True, ?b True, j) empty_slot)"
      using find_index_live(1)[OF w b v two(2)]
      by (simp add: clear_victim_slot_def bucket_of_home[OF cap] read_bucket[OF sh b] set_slot_2[OF sh b] put_slot_2)
    with found[OF two(2)] show ?thesis by simp
  next
    case none
    have "unat v \<notin> live st"
    proof
      assume "unat v \<in> live st"
      from live_key_home[OF w this] obtain u j where o: "occupied st (u, ?b u, j)" "idx_at st (u, ?b u, j) = unat v" .
      have "slot_at st (u, ?b u, j) \<in> set (tbl st u ! ?b u)"
        using o(1) shapeD(3)[OF sh b, of u] by (simp add: occupied_def valid_loc.simps slot_at.simps)
      moreover have "slot_index (slot_at st (u, ?b u, j)) = v"
        using o(2) by (simp add: idx_at_def word_unat_eq_iff)
      moreover have "?fi u = None" using none by (cases u) simp_all
      ultimately show False by (simp add: find_index_None)
    qed
    moreover have "clear_victim_slot sip st v ?k = Some st"
      using none by (simp add: clear_victim_slot_def bucket_of_home[OF cap] read_bucket[OF sh b])
    ultimately show ?thesis using w by simp
  qed
qed

definition shadows_ok :: "cuckoo_table \<Rightarrow> bool" where
  "shadows_ok t \<longleftrightarrow>
     shadow_max_capacity t = max_capacity (ct_state t)
     \<and> shadow_storage_size t = storage_size (ct_state t)
     \<and> shadow_free_list_size t = free_list_size (ct_state t)"

definition cuckoo_inv :: "sip_hash \<Rightarrow> cuckoo_table \<Rightarrow> bool" where
  "cuckoo_inv sip t \<longleftrightarrow> cuckoo_wf sip {} (ct_state t) \<and> shadows_ok t"

text \<open>What an allocation keeps: the entries that stay live are as they were.\<close>

definition keeps :: "unsafe_cuckoo \<Rightarrow> unsafe_cuckoo \<Rightarrow> nat set \<Rightarrow> bool" where
  "keeps st st' A \<longleftrightarrow>
     (\<forall>i \<in> A. key_of st' i = key_of st i \<and> entry_payload (storage st' ! i) = entry_payload (storage st ! i))"

definition is_full :: "unsafe_cuckoo \<Rightarrow> bool" where
  "is_full st \<longleftrightarrow> free_list_size st = 0 \<and> storage_size st = max_capacity st"

text \<open>The arena slot of a victim, once it is out of the tables, holds the new entry.\<close>

lemma reuse_victim:
  fixes p :: bytes
  assumes w: "cuckoo_wf sip {} st" and full: "is_full st" and v: "unat v < max_capacity st" "unat v \<notin> live st"
    and fresh: "\<forall>i \<in> live st. key_of st i \<noteq> key"
  defines "st' \<equiv> st\<lparr>storage := (storage st)[unat v := fresh_entry key p]\<rparr>"
  shows "cuckoo_wf sip {unat v} st'" "live st' = live st" "keeps st st' (live st)" "storage st' ! unat v = fresh_entry key p"
proof -
  have len: "length (storage st) = max_capacity st" using full shapeD(4)[OF wfD(1)[OF w]] by (simp add: is_full_def)
  have k: "key_of st' i = ((key_of st)(unat v := key)) i" if "i < max_capacity st" for i
    using that v(1) len by (simp add: st'_def key_of_def fresh_entry_def nth_list_update)
  have lt: "i < max_capacity st" if "i \<in> live st" for i using live_lt[OF w that] full by (simp add: is_full_def)
  show l: "live st' = live st" unfolding st'_def by (rule same_tables_live(4)) simp_all
  have fr: "free_idx st' = []" using full by (simp add: st'_def free_idx_def is_full_def)
  show "cuckoo_wf sip {unat v} st'"
  proof (rule wf_hold[OF w, where key = key])
    show "shape st'" using wfD(1)[OF w] by (simp add: shape_def st'_def)
    show "unat v < storage_size st'" using v(1) full by (simp add: st'_def is_full_def)
    show "key_of st' i = ((key_of st)(unat v := key)) i" if "i \<in> insert (unat v) (live st)" for i
      using that k[of i] lt v(1) by auto
  qed (use fr v(2) fresh in \<open>simp_all add: st'_def\<close>)
  have "entry_payload (storage st' ! i) = entry_payload (storage st ! i)" "key_of st' i = key_of st i" if "i \<in> live st" for i
  proof -
    have "i \<noteq> unat v" using that v(2) by blast
    then show "entry_payload (storage st' ! i) = entry_payload (storage st ! i)" "key_of st' i = key_of st i"
      using k[OF lt[OF that]] by (simp_all add: st'_def)
  qed
  then show "keeps st st' (live st)" by (simp add: keeps_def)
  show "storage st' ! unat v = fresh_entry key p" using v(1) len by (simp add: st'_def)
qed

lemma evict_and_reuse_spec:
  assumes w: "cuckoo_wf sip {} st" and full: "is_full st" and m: "0 < max_capacity st"
    and fresh: "\<forall>i \<in> live st. key_of st i \<noteq> key"
  shows "\<exists>v st'. evict_and_reuse sip st key p = Some (Some v, st') \<and> v \<noteq> U32_MAX \<and> cuckoo_wf sip {unat v} st'
    \<and> storage st' ! unat v = fresh_entry key p \<and> live st' = live st - {unat v} \<and> keeps st st' (live st')
    \<and> storage_size st' = storage_size st \<and> free_list_size st' = free_list_size st
    \<and> max_capacity st' = max_capacity st \<and> capacity st' = capacity st"
proof -
  note sh = wfD(1)[OF w]
  have len: "length (storage st) = max_capacity st" using full shapeD(4)[OF sh] by (simp add: is_full_def)
  let ?m = "max_capacity st"
  obtain v sto hand where sw: "clock_sweep (?m * 2) ?m (storage st) (clock_hand st) = Some (v, sto, hand)"
    and sd: "same_data (storage st) sto" and h: "hand \<le> ?m" and v: "v \<noteq> U32_MAX" "unat v < ?m"
  proof -
    have "length (filter entry_referenced (storage st)) < ?m * 2"
      using length_filter_le[of entry_referenced "storage st"] m unfolding len by linarith
    then show ?thesis
      using clock_sweep_spec[OF len m shapeD(6)[OF sh] shapeD(9)[OF sh], of "?m * 2"] that by blast
  qed
  let ?st1 = "st\<lparr>storage := sto, clock_hand := hand\<rparr>"
  have w1: "cuckoo_wf sip {} ?st1" and l1: "live ?st1 = live st"
    using wf_keep_keys[OF w same_dataD(1)[OF sd] _ h] same_dataD(2)[OF sd] by (simp_all add: key_of_def)
  have k1: "key_of ?st1 i = key_of st i" if "i < ?m" for i
    using same_dataD(2)[OF sd, of i] that by (simp add: key_of_def len)
  obtain st2 where cl: "clear_victim_slot sip ?st1 v (key_of ?st1 (unat v)) = Some st2"
    and sb: "same_but_tables ?st1 st2" and w2: "cuckoo_wf sip {} st2" and l2: "live st2 = live ?st1 - {unat v}"
    using clear_victim_slot_spec[OF w1 v(1)] by blast
  note eq2 = same_but_tablesD[OF sb]
  let ?st3 = "st2\<lparr>storage := (storage st2)[unat v := fresh_entry key p]\<rparr>"
  have len2: "length (storage st2) = ?m" using same_dataD(1)[OF sd] len by (simp add: eq2)
  have lt: "i < ?m" if "i \<in> live st2" for i using live_lt[OF w2 that] full by (simp add: eq2 is_full_def)
  have f2: "is_full st2" "unat v < max_capacity st2" "unat v \<notin> live st2" "\<forall>i \<in> live st2. key_of st2 i \<noteq> key"
    using full v(2) l2 l1 fresh lt k1 by (simp_all add: eq2 is_full_def)
  note r = reuse_victim[OF w2 f2, of p]
  have "keeps st ?st3 (live ?st3)"
  proof -
    have "entry_payload (storage st2 ! i) = entry_payload (storage st ! i)" "key_of st2 i = key_of st i" if "i \<in> live st2" for i
      using lt[OF that] same_dataD(3)[OF sd, of i] k1[of i] len by (auto simp: eq2)
    then show ?thesis using r(2,3) by (simp add: keeps_def)
  qed
  moreover have "evict_and_reuse sip st key p = Some (Some v, ?st3)"
    using sw v cl len2 same_dataD(1)[OF sd] len by (simp add: evict_and_reuse_def mem_simps key_of_def)
  ultimately show ?thesis
    using v r l2 l1 by (intro exI[of _ v] exI[of _ ?st3]) (simp add: eq2)
qed

definition allocated :: "sip_hash \<Rightarrow> cuckoo_table \<Rightarrow> string \<Rightarrow> bytes \<Rightarrow> u32 option \<Rightarrow> cuckoo_table \<Rightarrow> bool" where
  "allocated sip t key p a t' \<longleftrightarrow>
     (let st = ct_state t; st' = ct_state t' in
      shadows_ok t' \<and> capacity st' = capacity st \<and> max_capacity st' = max_capacity st
      \<and> (case a of
           None \<Rightarrow> max_capacity st = 0 \<and> cuckoo_wf sip {} st' \<and> live st' = live st \<and> keeps st st' (live st')
         | Some ix \<Rightarrow> ix \<noteq> U32_MAX \<and> cuckoo_wf sip {unat ix} st' \<and> storage st' ! unat ix = fresh_entry key p
             \<and> live st' = live st - (if is_full st then {unat ix} else {}) \<and> keeps st st' (live st')
             \<and> (\<not> is_full st \<longrightarrow> unat ix \<notin> live st)))"

lemma alloc_from_free_list:
  assumes i: "cuckoo_inv sip t" and fresh: "\<forall>i \<in> live (ct_state t). key_of (ct_state t) i \<noteq> key"
    and n: "0 < free_list_size (ct_state t)"
  shows "\<exists>a t'. alloc_index sip t key p = Some (a, t') \<and> allocated sip t key p a t'"
proof -
  let ?st = "ct_state t" and ?n = "free_list_size (ct_state t) - 1"
  have w: "cuckoo_wf sip {} ?st" and sd: "shadows_ok t" using i by (simp_all add: cuckoo_inv_def)
  note sh = wfD(1)[OF w]
  define ix where "ix = free_list ?st ! ?n"
  have n_lt: "?n < length (free_list ?st)" "Suc ?n = free_list_size ?st" using n shapeD(7,8)[OF sh] by simp_all
  have fi: "free_idx ?st = map unat (take ?n (free_list ?st)) @ [unat ix]"
    using take_Suc_conv_app_nth[OF n_lt(1)] n_lt(2) by (simp add: free_idx_def ix_def)
  have ix: "unat ix < storage_size ?st" "unat ix \<notin> live ?st"
    "distinct (map unat (take ?n (free_list ?st)))" "unat ix \<notin> set (map unat (take ?n (free_list ?st)))"
    using wfD(7,8,9)[OF w] unfolding fi by auto
  have "unat ix < 2 ^ 32 - 1" using ix(1) shapeD(5,6)[OF sh] by linarith
  then have max: "ix \<noteq> U32_MAX" by (auto simp: U32_MAX_def)
  let ?st' = "?st\<lparr>free_list_size := ?n, storage := (storage ?st)[unat ix := fresh_entry key p]\<rparr>"
  have fi': "free_idx ?st' = map unat (take ?n (free_list ?st))" by (simp add: free_idx_def)
  have live: "live ?st' = live ?st" by (rule same_tables_live(4)) simp_all
  have k: "key_of ?st' i = ((key_of ?st)(unat ix := key)) i" for i
    using ix(1) by (simp add: key_of_def fresh_entry_def nth_list_update shapeD(4)[OF sh])
  have "cuckoo_wf sip {unat ix} ?st'"
  proof (rule wf_hold[OF w, where key = key])
    show "shape ?st'" using sh by (simp add: shape_def) linarith
  qed (use k ix fi fi' fresh in auto)
  moreover have "keeps ?st ?st' (live ?st)"
    using ix(2) k unfolding keeps_def by (auto simp: nth_list_update_neq)
  moreover have "alloc_index sip t key p = Some (Some ix, t\<lparr>ct_state := ?st', shadow_free_list_size := ?n\<rparr>)"
  proof -
    have "mem_rd (free_list ?st) ?n = Some ix" using n_lt(1) by (simp add: mem_rd_def ix_def)
    then show ?thesis
      using n ix(1) by (simp add: alloc_index_def Let_def mem_simps shapeD(4)[OF sh] del: One_nat_def)
  qed
  moreover have "\<not> is_full ?st" using n by (simp add: is_full_def)
  ultimately show ?thesis
    using ix max live sd by (intro exI) (auto simp: allocated_def shadows_ok_def Let_def shapeD(4)[OF sh])
qed

lemma alloc_fresh:
  assumes i: "cuckoo_inv sip t" and fresh: "\<forall>i \<in> live (ct_state t). key_of (ct_state t) i \<noteq> key"
    and n: "free_list_size (ct_state t) = 0" and lt: "storage_size (ct_state t) < max_capacity (ct_state t)"
  shows "\<exists>a t'. alloc_index sip t key p = Some (a, t') \<and> allocated sip t key p a t'"
proof -
  let ?st = "ct_state t" and ?c = "storage_size (ct_state t)"
  have w: "cuckoo_wf sip {} ?st" and sd: "shadows_ok t" using i by (simp_all add: cuckoo_inv_def)
  note sh = wfD(1)[OF w]
  have c: "?c < 2 ^ 32 - 1" using lt shapeD(6)[OF sh] by linarith
  have nl: "?c \<notin> live ?st" using live_lt[OF w, of ?c] by blast
  let ?st' = "?st\<lparr>storage_size := ?c + 1, storage := storage ?st @ [fresh_entry key p]\<rparr>"
  have fi: "free_idx ?st' = []" using n by (simp add: free_idx_def)
  have live: "live ?st' = live ?st" by (rule same_tables_live(4)) simp_all
  have k: "key_of ?st' i = ((key_of ?st)(?c := key)) i" if "i \<in> insert ?c (live ?st)" for i
    using that live_lt[OF w, of i] by (auto simp: key_of_def fresh_entry_def nth_append shapeD(4)[OF sh])
  have "cuckoo_wf sip {?c} ?st'"
  proof (rule wf_hold[OF w, where key = key])
    show "shape ?st'" using sh lt by (simp add: shape_def)
  qed (use k nl fi fresh in simp_all)
  moreover have "keeps ?st ?st' (live ?st)"
  proof -
    have "storage ?st' ! i = storage ?st ! i" if "i \<in> live ?st" for i
      using live_lt[OF w that] by (simp add: nth_append shapeD(4)[OF sh])
    then show ?thesis by (simp add: keeps_def key_of_def)
  qed
  moreover have "alloc_index sip t key p
      = Some (Some (of_nat ?c), t\<lparr>ct_state := ?st', shadow_storage_size := ?c + 1\<rparr>)"
    using n lt by (simp add: alloc_index_def Let_def storage_write_def shapeD(4)[OF sh] of_nat_u32(1)[OF c])
  moreover have "\<not> is_full ?st" using lt by (simp add: is_full_def)
  moreover have "storage ?st' ! ?c = fresh_entry key p" by (simp add: nth_append shapeD(4)[OF sh])
  ultimately show ?thesis
    using nl live sd of_nat_u32[OF c] unfolding allocated_def shadows_ok_def Let_def
    by (intro exI conjI) (assumption, simp_all)
qed

lemma alloc_index_spec:
  assumes i: "cuckoo_inv sip t" and fresh: "\<forall>i \<in> live (ct_state t). key_of (ct_state t) i \<noteq> key"
  shows "\<exists>a t'. alloc_index sip t key p = Some (a, t') \<and> allocated sip t key p a t'"
proof -
  let ?st = "ct_state t"
  have w: "cuckoo_wf sip {} ?st" and sd: "shadows_ok t" using i by (simp_all add: cuckoo_inv_def)
  note sh = wfD(1)[OF w]
  consider (free) "0 < free_list_size ?st"
    | (new) "free_list_size ?st = 0" "storage_size ?st < max_capacity ?st"
    | (zero) "is_full ?st" "max_capacity ?st = 0" | (full) "is_full ?st" "0 < max_capacity ?st"
    using shapeD(5)[OF sh] unfolding is_full_def by linarith
  then show ?thesis
  proof cases
    case free
    then show ?thesis by (rule alloc_from_free_list[OF i fresh])
  next
    case new
    then show ?thesis by (rule alloc_fresh[OF i fresh])
  next
    case zero
    then have "alloc_index sip t key p = Some (None, t)"
      by (simp add: alloc_index_def evict_and_reuse_def is_full_def)
    then show ?thesis using zero w sd by (intro exI) (auto simp: allocated_def Let_def keeps_def)
  next
    case full
    from evict_and_reuse_spec[OF w full fresh] obtain v st' where
      r: "evict_and_reuse sip ?st key p = Some (Some v, st')" "v \<noteq> U32_MAX" "cuckoo_wf sip {unat v} st'"
        "storage st' ! unat v = fresh_entry key p" "live st' = live ?st - {unat v}" "keeps ?st st' (live st')"
        "storage_size st' = storage_size ?st" "free_list_size st' = free_list_size ?st"
        "max_capacity st' = max_capacity ?st" "capacity st' = capacity ?st" by blast
    then have "alloc_index sip t key p = Some (Some v, t\<lparr>ct_state := st'\<rparr>)"
      using full by (simp add: alloc_index_def is_full_def)
    then show ?thesis
      using r full sd unfolding allocated_def shadows_ok_def Let_def
      by (intro exI conjI) (assumption, simp_all)
  qed
qed

subsection \<open>The content as a map\<close>

definition forget :: "string set \<Rightarrow> (string \<Rightarrow> bytes option) \<Rightarrow> string \<Rightarrow> bytes option" where
  "forget L m = (\<lambda>k. if k \<in> L then None else m k)"

lemma forget_empty: "forget {} m = m"
  by (simp add: forget_def)

lemma content_new_entry:
  assumes w: "cuckoo_wf sip F st" and w': "cuckoo_wf sip F' st'"
    and fresh: "\<forall>i \<in> live st. key_of st i \<noteq> key"
    and sub: "live st' \<subseteq> insert c (live st)" and k: "keeps st st' (live st' - {c})"
    and new: "c \<in> live st' \<Longrightarrow> storage st' ! c = fresh_entry key p"
  shows "content st' = forget ((if c \<in> live st' then {} else {key}) \<union> key_of st ` (live st - (live st' - {c})))
    ((content st)(key \<mapsto> p))"
proof
  fix k
  let ?L = "(if c \<in> live st' then {} else {key}) \<union> key_of st ` (live st - (live st' - {c}))"
  have kk: "key_of st' i = key_of st i" "entry_payload (storage st' ! i) = entry_payload (storage st ! i)"
    if "i \<in> live st'" "i \<noteq> c" for i using k that by (simp_all add: keeps_def)
  have new': "key_of st' c = key" "entry_payload (storage st' ! c) = p" if "c \<in> live st'"
    using new[OF that] by (simp_all add: key_of_def fresh_entry_def)
  have live: "i \<in> live st" if "i \<in> live st'" "i \<noteq> c" for i using sub that by blast
  have "content st' k = Some q \<longleftrightarrow> forget ?L ((content st)(key \<mapsto> p)) k = Some q" for q
  proof (cases "k = key")
    case True
    have "\<forall>i \<in> live st'. i \<noteq> c \<longrightarrow> key_of st' i \<noteq> key" using fresh kk(1) live by auto
    then have "content st' k = Some q \<longleftrightarrow> c \<in> live st' \<and> p = q"
      unfolding content_Some_iff[OF w'] True using new' by metis
    moreover have "key \<notin> key_of st ` (live st - (live st' - {c}))" using fresh by auto
    ultimately show ?thesis by (simp add: forget_def True)
  next
    case False
    have "content st' k = Some q \<longleftrightarrow>
        (\<exists>i \<in> live st' - {c}. key_of st i = k \<and> entry_payload (storage st ! i) = q)"
      unfolding content_Some_iff[OF w'] using False new' kk by (metis Diff_iff empty_iff insert_iff)
    also have "\<dots> \<longleftrightarrow> k \<notin> key_of st ` (live st - (live st' - {c})) \<and> content st k = Some q"
    proof -
      have "i = i'" if "i \<in> live st" "i' \<in> live st" "key_of st i = key_of st i'" for i i'
        using inj_onD[OF wfD(4)[OF w], of i i'] that by simp
      then show ?thesis unfolding content_Some_iff[OF w] using live by blast
    qed
    finally show ?thesis using False by (simp add: forget_def)
  qed
  then show "content st' k = forget ?L ((content st)(key \<mapsto> p)) k"
    by (metis option.exhaust)
qed

lemma content_keep:
  assumes w: "cuckoo_wf sip F st" and w': "cuckoo_wf sip F' st'" and live: "live st' = live st"
    and k: "keeps st st' (live st)"
  shows "content st' = content st"
proof
  fix k
  have "content st' k = Some q \<longleftrightarrow> content st k = Some q" for q
    using assms(4) unfolding content_Some_iff[OF w] content_Some_iff[OF w'] live keeps_def by auto
  then show "content st' k = content st k" by (metis option.exhaust)
qed

lemma card_le_1: "A \<subseteq> {a} \<Longrightarrow> finite A \<and> card A \<le> 1"
  using finite_subset[of A "{a}"] card_mono[of "{a}" A] by simp

lemma card_le_2: "A \<subseteq> {a, b} \<Longrightarrow> finite A \<and> card A \<le> 2"
proof -
  assume "A \<subseteq> {a, b}"
  then have "finite A" "card A \<le> card {a, b}" by (auto intro: finite_subset card_mono)
  then show ?thesis using card_insert_le_m1[of 2 "{b}" a] by (simp add: card_insert_if split: if_splits)
qed

subsection \<open>The operations\<close>

lemma cuckoo_inv_storage:
  assumes i: "cuckoo_inv sip t" and len: "length sto = length (storage (ct_state t))"
    and keys: "\<And>i. i < length (storage (ct_state t)) \<Longrightarrow> entry_key (sto ! i) = key_of (ct_state t) i"
  shows "cuckoo_inv sip (t\<lparr>ct_state := (ct_state t)\<lparr>storage := sto\<rparr>\<rparr>)"
    and "live ((ct_state t)\<lparr>storage := sto\<rparr>) = live (ct_state t)"
proof -
  have w: "cuckoo_wf sip {} (ct_state t)" using i by (simp add: cuckoo_inv_def)
  have h: "(ct_state t)\<lparr>storage := sto, clock_hand := clock_hand (ct_state t)\<rparr> = (ct_state t)\<lparr>storage := sto\<rparr>"
    by simp
  show "cuckoo_inv sip (t\<lparr>ct_state := (ct_state t)\<lparr>storage := sto\<rparr>\<rparr>)"
    using wf_keep_keys(1)[OF w len keys shapeD(9)[OF wfD(1)[OF w]]] i
    unfolding h by (simp add: cuckoo_inv_def shadows_ok_def)
  show "live ((ct_state t)\<lparr>storage := sto\<rparr>) = live (ct_state t)"
    by (rule same_tables_live(4)) simp_all
qed

lemma located_index:
  assumes w: "cuckoo_wf sip {} st" and o: "occupied st (u, b, j)" and ix: "slot_index (slot_at st (u, b, j)) = ix"
  shows "unat ix \<in> live st" and "unat ix < length (storage st)"
proof -
  show l: "unat ix \<in> live st" using liveI[OF o] ix by (simp add: idx_at_def)
  show "unat ix < length (storage st)" using live_lt[OF w l] shapeD(4)[OF wfD(1)[OF w]] by simp
qed

lemma cuckoo_lookup_map_spec:
  assumes i: "cuckoo_inv sip t"
  shows "\<exists>r t'. cuckoo_lookup_map sip t key f = Some (r, t') \<and> cuckoo_inv sip t'
    \<and> content (ct_state t') = content (ct_state t)
    \<and> (case content (ct_state t) key of
         None \<Rightarrow> r = None
       | Some p \<Rightarrow> r = Some (f \<lparr>entry_key = key, entry_payload = p, entry_referenced = True\<rparr>))"
proof -
  let ?st = "ct_state t"
  have w: "cuckoo_wf sip {} ?st" using i by (simp add: cuckoo_inv_def)
  from locate_spec[OF w, of key] show ?thesis
  proof (elim disjE exE conjE)
    assume l: "locate sip ?st key = Some None" and k: "\<forall>i \<in> live ?st. key_of ?st i \<noteq> key"
    then have "content ?st key = None" by (simp add: content_None_iff)
    with l i show ?thesis by (simp add: cuckoo_lookup_map_def)
  next
    fix u b j ix
    assume l: "locate sip ?st key = Some (Some (u, b, j, ix))" and o: "occupied ?st (u, b, j)"
      and ix: "slot_index (slot_at ?st (u, b, j)) = ix" and k: "key_of ?st (unat ix) = key"
    note li = located_index[OF w o ix]
    let ?e = "(storage ?st ! unat ix)\<lparr>entry_referenced := True\<rparr>"
    let ?sto = "(storage ?st)[unat ix := ?e]"
    let ?t = "t\<lparr>ct_state := ?st\<lparr>storage := ?sto\<rparr>\<rparr>"
    have same: "same_data (storage ?st) ?sto" using li(2) by simp
    have inv: "cuckoo_inv sip ?t" and lv: "live (?st\<lparr>storage := ?sto\<rparr>) = live ?st"
      using cuckoo_inv_storage[OF i same_dataD(1)[OF same]] same_dataD(2)[OF same] by (simp_all add: key_of_def)
    have "keeps ?st (?st\<lparr>storage := ?sto\<rparr>) (live ?st)"
      using same_dataD(2,3)[OF same] live_lt[OF w] by (simp add: keeps_def key_of_def shapeD(4)[OF wfD(1)[OF w]])
    then have "content (?st\<lparr>storage := ?sto\<rparr>) = content ?st"
      using inv lv by (intro content_keep[OF w, where F' = "{}"]) (simp_all add: cuckoo_inv_def)
    moreover have "cuckoo_lookup_map sip t key f = Some (Some (f ?e), ?t)"
      using l li(2) by (simp add: cuckoo_lookup_map_def mem_simps Let_def)
    moreover have "content ?st key = Some (entry_payload (storage ?st ! unat ix))"
      using content_Some_iff[OF w] li(1) k by blast
    moreover have "?e = \<lparr>entry_key = key, entry_payload = entry_payload (storage ?st ! unat ix), entry_referenced = True\<rparr>"
      using k by (simp add: key_of_def)
    ultimately show ?thesis using inv by simp
  qed
qed

lemma cuckoo_insert_present:
  assumes i: "cuckoo_inv sip t" and l: "locate sip (ct_state t) key = Some (Some (u, b, j, ix))"
    and o: "occupied (ct_state t) (u, b, j)" and ix: "slot_index (slot_at (ct_state t) (u, b, j)) = ix"
    and k: "key_of (ct_state t) (unat ix) = key"
  shows "\<exists>t'. cuckoo_insert sip t key e = Some (True, t') \<and> cuckoo_inv sip t'
    \<and> content (ct_state t') = (content (ct_state t))(key \<mapsto> entry_payload e)"
proof -
  let ?st = "ct_state t" and ?p = "entry_payload e"
  have w: "cuckoo_wf sip {} ?st" using i by (simp add: cuckoo_inv_def)
  note li = located_index[OF w o ix]
  let ?sto = "(storage ?st)[unat ix := fresh_entry key ?p]"
  let ?t = "t\<lparr>ct_state := ?st\<lparr>storage := ?sto\<rparr>\<rparr>"
  have ks: "entry_key (?sto ! i) = key_of ?st i" if "i < length (storage ?st)" for i
    using that k by (cases "i = unat ix") (simp_all add: key_of_def fresh_entry_def)
  have inv: "cuckoo_inv sip ?t" and lv: "live (?st\<lparr>storage := ?sto\<rparr>) = live ?st"
    using cuckoo_inv_storage[OF i _ ks] by simp_all
  have w': "cuckoo_wf sip {} (?st\<lparr>storage := ?sto\<rparr>)" using inv by (simp add: cuckoo_inv_def)
  have kk: "key_of (?st\<lparr>storage := ?sto\<rparr>) i = key_of ?st i" if "i \<in> live ?st" for i
    using ks[of i] live_lt[OF w that] by (simp add: key_of_def shapeD(4)[OF wfD(1)[OF w]])
  have "content (?st\<lparr>storage := ?sto\<rparr>) k' = Some q \<longleftrightarrow> ((content ?st)(key \<mapsto> ?p)) k' = Some q" for k' q
  proof -
    have u: "i = unat ix" if "i \<in> live ?st" "key_of ?st i = key" for i
      using inj_onD[OF wfD(4)[OF w], of i "unat ix"] that k li(1) by simp
    have "content (?st\<lparr>storage := ?sto\<rparr>) k' = Some q \<longleftrightarrow>
        (\<exists>i \<in> live ?st. key_of ?st i = k' \<and> entry_payload (?sto ! i) = q)"
      unfolding content_Some_iff[OF w'] lv using kk by auto
    also have "\<dots> \<longleftrightarrow> (if k' = key then ?p = q else content ?st k' = Some q)"
    proof (cases "k' = key")
      case True
      have "entry_payload (?sto ! unat ix) = ?p" using li(2) by (simp add: fresh_entry_def)
      with True show ?thesis using u li(1) k by metis
    next
      case False
      then have "?sto ! i = storage ?st ! i" if "key_of ?st i = k'" for i
        using that k by (metis nth_list_update_neq)
      then show ?thesis using False unfolding content_Some_iff[OF w] by auto
    qed
    finally show ?thesis by simp
  qed
  then have "content (?st\<lparr>storage := ?sto\<rparr>) = (content ?st)(key \<mapsto> ?p)"
    by (intro ext) (metis option.exhaust)
  moreover have "cuckoo_insert sip t key e = Some (True, ?t)"
    using l li(2) by (simp add: cuckoo_insert_def mem_simps)
  ultimately show ?thesis using inv by simp
qed

lemma live_diff_cases:
  assumes "live st1 = live st - (if is_full st then {c} else {})" "\<not> is_full st \<Longrightarrow> c \<notin> live st"
  shows "live st - (insert c (live st1) - {c}) \<subseteq> (if is_full st then {c} else {})"
    and "live st - (insert c (live st1) - {x} - {c}) \<subseteq> {c, x}"
proof -
  have "is_full st \<Longrightarrow> live st1 = live st - {c}" "\<not> is_full st \<Longrightarrow> live st1 = live st"
    using assms(1) by simp_all
  with assms(2) show "live st - (insert c (live st1) - {c}) \<subseteq> (if is_full st then {c} else {})"
    "live st - (insert c (live st1) - {x} - {c}) \<subseteq> {c, x}"
    by (cases "is_full st"; auto)+
qed

definition inserted :: "unsafe_cuckoo \<Rightarrow> string \<Rightarrow> bytes \<Rightarrow> bool \<Rightarrow> unsafe_cuckoo \<Rightarrow> bool" where
  "inserted st key p ok st' \<longleftrightarrow>
     (\<exists>L. content st' = forget L ((content st)(key \<mapsto> p)) \<and> finite L \<and> card L \<le> (if ok then 1 else 2)
        \<and> (ok \<longrightarrow> key \<notin> L \<and> (L \<noteq> {} \<longrightarrow> content st key = None \<and> is_full st)))"

lemma insertedI:
  assumes w: "cuckoo_wf sip {} st" and w': "cuckoo_wf sip {} st'" and fresh: "\<forall>i \<in> live st. key_of st i \<noteq> key"
    and al: "live st1 = live st - (if is_full st then {c} else {})" "\<not> is_full st \<Longrightarrow> c \<notin> live st"
    and live: "if ok then live st' = insert c (live st1) else \<exists>x. live st' = insert c (live st1) - {x}"
    and k: "keeps st st' (live st' - {c})" and new: "storage st' ! c = fresh_entry key p"
  shows "inserted st key p ok st'"
proof -
  let ?K = "key_of st ` (live st - (live st' - {c}))"
  let ?L = "(if c \<in> live st' then {} else {key}) \<union> ?K"
  have "live st' \<subseteq> insert c (live st)" using live al(1) by (auto split: if_splits)
  from content_new_entry[OF w w' fresh this k new]
  have cont: "content st' = forget ?L ((content st)(key \<mapsto> p))" .
  have none: "content st key = None" using fresh by (simp add: content_None_iff)
  have kL: "key \<notin> ?K" using fresh by auto
  show ?thesis
  proof (cases ok)
    case True
    then have l: "live st' = insert c (live st1)" using live by simp
    then have "?L \<subseteq> (if is_full st then {key_of st c} else {})"
      using live_diff_cases(1)[OF al] by (auto split: if_splits)
    then have "finite ?L \<and> card ?L \<le> 1 \<and> (?L \<noteq> {} \<longrightarrow> is_full st)"
      using card_le_1[of ?L "key_of st c"] by (auto split: if_splits)
    with True l kL none cont show ?thesis unfolding inserted_def by (intro exI[of _ ?L]) simp
  next
    case False
    then obtain x where l: "live st' = insert c (live st1) - {x}" using live by auto
    have sub: "?K \<subseteq> key_of st ` (live st \<inter> {c, x})"
      using live_diff_cases(2)[OF al, of x] unfolding l by (auto split: if_splits)
    have "?L \<subseteq> (if x = c then {key, key_of st c} else {key_of st c, key_of st x})"
      using sub l by (auto split: if_splits)
    then have "finite ?L \<and> card ?L \<le> 2"
      using card_le_2[of ?L key "key_of st c"] card_le_2[of ?L "key_of st c" "key_of st x"] by (simp split: if_splits)
    with False cont show ?thesis unfolding inserted_def by (intro exI[of _ ?L]) simp
  qed
qed

lemma insert_not_allocated:
  assumes "cuckoo_wf sip {} st" "\<forall>i \<in> live st. key_of st i \<noteq> key" "cuckoo_wf sip {} st'" "live st' = live st" "keeps st st' (live st)"
  shows "inserted st key p False st'"
proof -
  have none: "content st key = None" using assms(2) by (simp add: content_None_iff)
  have "content st' = content st" by (rule content_keep[OF assms(1,3-5)])
  then have "content st' = forget {key} ((content st)(key \<mapsto> p))" using none by (auto simp: forget_def fun_eq_iff)
  then show ?thesis unfolding inserted_def by (intro exI[of _ "{key}"]) simp
qed

lemma insert_displaced:
  assumes w: "cuckoo_wf sip {} st" and fresh: "\<forall>i \<in> live st. key_of st i \<noteq> key" and stored: "storage st1 ! i = fresh_entry key p"
    and live1: "live st1 = live st - (if is_full st then {i} else {})" and keeps1: "keeps st st1 (live st1)" and new: "\<not> is_full st \<Longrightarrow> i \<notin> live st"
    and d: "displaced sip st1 i ok st'"
  shows "inserted st key p ok st'" "cuckoo_wf sip {} st'"
proof -
  note eq = same_but_tablesD[of st1 st']
  have sb: "same_but_tables st1 st'" using d by (simp add: displaced_def)
  show w': "cuckoo_wf sip {} st'" using d wf_weaken by (auto simp: displaced_def split: if_splits)
  have live: "if ok then live st' = insert i (live st1) else \<exists>x. live st' = insert i (live st1) - {x}"
    using d by (auto simp: displaced_def split: if_splits)
  have "keeps st st' (live st' - {i})" using keeps1 live by (auto simp: keeps_def eq[OF sb] split: if_splits)
  moreover have "storage st' ! i = fresh_entry key p" using stored by (simp add: eq[OF sb])
  ultimately show "inserted st key p ok st'" using insertedI[OF w w' fresh live1 _ live] new by blast
qed

lemma cuckoo_insert_absent:
  assumes i: "cuckoo_inv sip t" and l: "locate sip (ct_state t) key = Some None"
    and fresh: "\<forall>i \<in> live (ct_state t). key_of (ct_state t) i \<noteq> key"
  shows "\<exists>ok t'. cuckoo_insert sip t key e = Some (ok, t') \<and> cuckoo_inv sip t'
    \<and> inserted (ct_state t) key (entry_payload e) ok (ct_state t')"
proof -
  let ?st = "ct_state t" and ?p = "entry_payload e"
  have w: "cuckoo_wf sip {} ?st" using i by (simp add: cuckoo_inv_def)
  from alloc_index_spec[OF i fresh, of ?p] obtain a t1 where
    a: "alloc_index sip t key ?p = Some (a, t1)" "allocated sip t key ?p a t1" by blast
  let ?st1 = "ct_state t1"
  have sd: "shadows_ok t1" using a(2) by (simp add: allocated_def Let_def)
  show ?thesis
  proof (cases a)
    case None
    then have n: "cuckoo_wf sip {} ?st1" "live ?st1 = live ?st" "keeps ?st ?st1 (live ?st)"
      using a(2) by (auto simp: allocated_def Let_def)
    have "inserted ?st key ?p False ?st1" by (rule insert_not_allocated[OF w fresh n])
    moreover have "cuckoo_insert sip t key e = Some (False, t1)"
      using l a(1) None by (simp add: cuckoo_insert_def)
    moreover have "cuckoo_inv sip t1" using n sd by (simp add: cuckoo_inv_def)
    ultimately show ?thesis by blast
  next
    case (Some ix)
    have s: "ix \<noteq> U32_MAX" "cuckoo_wf sip {unat ix} ?st1" "storage ?st1 ! unat ix = fresh_entry key ?p"
      "live ?st1 = live ?st - (if is_full ?st then {unat ix} else {})" "keeps ?st ?st1 (live ?st1)"
      "\<not> is_full ?st \<Longrightarrow> unat ix \<notin> live ?st"
      using a(2) unfolding Some allocated_def Let_def option.case by meson+
    have kix: "key_of ?st1 (unat ix) = key" using s(3) by (simp add: key_of_def fresh_entry_def)
    from displace_spec[OF s(2,1) kix refl, of 256 0] obtain ok st' where
      d: "displace sip 256 0 ix (get_tag (hash1_full sip key)) key ?st1 = Some (ok, st')"
        "displaced sip ?st1 (unat ix) ok st'" by blast
    have "inserted ?st key ?p ok st'" and w': "cuckoo_wf sip {} st'"
      using insert_displaced[OF w fresh s(3-6) d(2)] by blast+
    note eq = same_but_tablesD[of ?st1 st'] and sb = d(2)[unfolded displaced_def, THEN conjunct1]
    note \<open>inserted ?st key ?p ok st'\<close>
    moreover have "cuckoo_insert sip t key e = Some (ok, t1\<lparr>ct_state := st'\<rparr>)"
      using l a(1) d(1) by (simp add: cuckoo_insert_def Some)
    moreover have "cuckoo_inv sip (t1\<lparr>ct_state := st'\<rparr>)"
      using w' sd by (simp add: cuckoo_inv_def shadows_ok_def eq[OF sb])
    ultimately show ?thesis by simp
  qed
qed

lemma cuckoo_insert_spec:
  assumes i: "cuckoo_inv sip t"
  shows "\<exists>ok t'. cuckoo_insert sip t key e = Some (ok, t') \<and> cuckoo_inv sip t'
    \<and> inserted (ct_state t) key (entry_payload e) ok (ct_state t')"
proof -
  have w: "cuckoo_wf sip {} (ct_state t)" using i by (simp add: cuckoo_inv_def)
  from locate_spec[OF w, of key] show ?thesis
  proof (elim disjE exE conjE)
    assume "locate sip (ct_state t) key = Some None" "\<forall>i \<in> live (ct_state t). key_of (ct_state t) i \<noteq> key"
    then show ?thesis by (rule cuckoo_insert_absent[OF i])
  next
    fix u b j ix
    assume "locate sip (ct_state t) key = Some (Some (u, b, j, ix))" "occupied (ct_state t) (u, b, j)"
      "slot_index (slot_at (ct_state t) (u, b, j)) = ix" "key_of (ct_state t) (unat ix) = key"
    from cuckoo_insert_present[OF i this, of e] obtain t' where
      r: "cuckoo_insert sip t key e = Some (True, t')" "cuckoo_inv sip t'"
        "content (ct_state t') = (content (ct_state t))(key \<mapsto> entry_payload e)" by blast
    have "inserted (ct_state t) key (entry_payload e) True (ct_state t')"
      unfolding inserted_def r(3) by (intro exI[of _ "{}"]) (simp add: forget_empty)
    with r show ?thesis by blast
  qed
qed

lemma wf_push_free:
  fixes st :: unsafe_cuckoo and ix :: u32
  defines "st' \<equiv> st\<lparr>free_list := (free_list st)[free_list_size st := ix], free_list_size := free_list_size st + 1\<rparr>"
  assumes w: "cuckoo_wf sip {} st" and room: "free_list_size st < max_capacity st"
    and ix: "unat ix < storage_size st" "unat ix \<notin> live st" "unat ix \<notin> set (free_idx st)"
  shows "cuckoo_wf sip {} st'" and "live st' = live st"
proof -
  note sh = wfD(1)[OF w]
  have fi: "free_idx st' = free_idx st @ [unat ix]"
    using room shapeD(7)[OF sh] by (simp add: st'_def free_idx_def take_Suc_conv_app_nth)
  have same: "table_1 st' = table_1 st" "table_2 st' = table_2 st" "capacity st' = capacity st"
    "storage_size st' = storage_size st" "key_of st' = key_of st" "slot_ok sip st' = slot_ok sip st"
    by (simp_all add: st'_def key_of_def slot_ok_def fun_eq_iff)
  note sl = same_tables_live[OF same(1-3)]
  have "shape st'" using sh room shapeD(10)[OF sh] by (simp add: shape_def st'_def)
  moreover have "distinct (free_idx st')" using wfD(7)[OF w] ix(3) by (simp add: fi)
  moreover have "set (free_idx st') \<subseteq> {..<storage_size st}" using wfD(8)[OF w] ix(1) by (simp add: fi)
  moreover have "set (free_idx st') \<inter> (live st \<union> {}) = {}" using ix(2) wfD(9)[OF w] by (simp add: fi)
  ultimately show "cuckoo_wf sip {} st'"
    unfolding cuckoo_wf_def sl same(4-6) using wfD(2,3,4)[OF w] by simp
  show "live st' = live st" by (rule sl)
qed

lemma free_list_room:
  assumes "cuckoo_wf sip {} st" "i \<in> live st"
  shows "i \<notin> set (free_idx st)" "free_list_size st < max_capacity st"
proof -
  show nf: "i \<notin> set (free_idx st)" using wfD(9)[OF assms(1)] assms(2) by blast
  have "insert i (set (free_idx st)) \<subseteq> {..<storage_size st}"
    using wfD(8)[OF assms(1)] live_lt[OF assms] by blast
  then have "card (insert i (set (free_idx st))) \<le> storage_size st"
    using card_mono[of "{..<storage_size st}"] by fastforce
  then show "free_list_size st < max_capacity st"
    using nf distinct_card[OF wfD(7)[OF assms(1)]] free_idx_length[OF wfD(1)[OF assms(1)]] shapeD(5)[OF wfD(1)[OF assms(1)]] by simp
qed

lemma content_without:
  assumes w: "cuckoo_wf sip {} st" "cuckoo_wf sip {} st'" and i: "i \<in> live st" "live st' = live st - {i}"
    and same: "key_of st' = key_of st" "storage st' = storage st"
  shows "content st' = (content st)(key_of st i := None)"
proof -
  have "content st' k = Some q \<longleftrightarrow> ((content st)(key_of st i := None)) k = Some q" for k q
  proof -
    have un: "j = i" if "j \<in> live st" "key_of st j = key_of st i" for j
      using inj_onD[OF wfD(4)[OF w(1)], of j i] that i(1) by simp
    have "content st' k = Some q \<longleftrightarrow> (\<exists>j \<in> live st - {i}. key_of st j = k \<and> entry_payload (storage st ! j) = q)"
      unfolding content_Some_iff[OF w(2)] same i(2) by simp
    also have "\<dots> \<longleftrightarrow> k \<noteq> key_of st i \<and> content st k = Some q"
      unfolding content_Some_iff[OF w(1)] using un by blast
    finally show ?thesis by simp
  qed
  then show ?thesis by (intro ext) (metis option.exhaust)
qed

lemma cuckoo_remove_present:
  assumes i: "cuckoo_inv sip t" and l: "locate sip (ct_state t) key = Some (Some (u, b, j, ix))"
    and o: "occupied (ct_state t) (u, b, j)" and ix: "slot_index (slot_at (ct_state t) (u, b, j)) = ix"
    and k: "key_of (ct_state t) (unat ix) = key"
  shows "\<exists>t'. cuckoo_remove sip t key = Some (True, t') \<and> cuckoo_inv sip t'
    \<and> content (ct_state t') = (content (ct_state t))(key := None)"
proof -
  let ?st = "ct_state t" and ?n = "free_list_size (ct_state t)"
  have w: "cuckoo_wf sip {} ?st" and sd: "shadows_ok t" using i by (simp_all add: cuckoo_inv_def)
  note sh = wfD(1)[OF w] and li = located_index[OF w o ix]
  let ?st1 = "put_slot ?st (u, b, j) empty_slot"
  have idx: "idx_at ?st (u, b, j) = unat ix" using ix by (simp add: idx_at_def)
  have w1: "cuckoo_wf sip {} ?st1" and l1: "live ?st1 = live ?st - {unat ix}"
    using wf_clear_slot[OF w o] idx by simp_all
  have bj: "b < capacity ?st" "j < 8" using o by (simp_all add: occupied_def valid_loc.simps)
  note nf = free_list_room(1)[OF w li(1)] and room = free_list_room(2)[OF w li(1)]
  define st2 where "st2 = ?st1\<lparr>free_list := (free_list ?st1)[free_list_size ?st1 := ix], free_list_size := free_list_size ?st1 + 1\<rparr>"
  let ?t = "t\<lparr>ct_state := st2, shadow_free_list_size := ?n + 1\<rparr>"
  have w2: "cuckoo_wf sip {} st2" and l2: "live st2 = live ?st - {unat ix}"
    using wf_push_free[OF w1, of ix] room nf live_lt[OF w li(1)] l1 unfolding st2_def by auto
  have k2: "key_of st2 = key_of ?st" "storage st2 = storage ?st" by (simp_all add: st2_def key_of_def fun_eq_iff)
  have "content st2 = (content ?st)(key := None)" using content_without[OF w w2 li(1) l2 k2] by (simp add: k)
  moreover have "cuckoo_inv sip ?t" using w2 sd by (simp add: cuckoo_inv_def shadows_ok_def st2_def)
  moreover have "cuckoo_remove sip t key = Some (True, ?t)"
  proof -
    have sl: "set_slot (if u then table_2 ?st else table_1 ?st) b j empty_slot
        = Some (if u then table_2 ?st1 else table_1 ?st1)"
      using set_slot_1[OF sh bj] set_slot_2[OF sh bj] by (cases u) simp_all
    have upd: "(if u then ?st\<lparr>table_2 := if u then table_2 ?st1 else table_1 ?st1\<rparr>
        else ?st\<lparr>table_1 := if u then table_2 ?st1 else table_1 ?st1\<rparr>) = ?st1"
      by (cases u) (simp_all add: put_slot_1 put_slot_2)
    have fl: "mem_wr (free_list ?st) ?n ix = Some ((free_list ?st)[?n := ix])"
      using room shapeD(7)[OF sh] by (simp add: mem_wr_def)
    show ?thesis unfolding cuckoo_remove_def Let_def l using sl upd fl by (simp add: st2_def)
  qed
  ultimately show ?thesis by simp
qed

lemma cuckoo_remove_spec:
  assumes i: "cuckoo_inv sip t"
  shows "\<exists>t'. cuckoo_remove sip t key = Some (content (ct_state t) key \<noteq> None, t') \<and> cuckoo_inv sip t'
    \<and> content (ct_state t') = (content (ct_state t))(key := None)"
proof -
  have w: "cuckoo_wf sip {} (ct_state t)" using i by (simp add: cuckoo_inv_def)
  from locate_spec[OF w, of key] show ?thesis
  proof (elim disjE exE conjE)
    assume l: "locate sip (ct_state t) key = Some None" and k: "\<forall>i \<in> live (ct_state t). key_of (ct_state t) i \<noteq> key"
    then have c: "content (ct_state t) key = None" by (simp add: content_None_iff)
    then have "(content (ct_state t))(key := None) = content (ct_state t)" by (simp add: fun_eq_iff)
    with c l i show ?thesis by (simp add: cuckoo_remove_def Let_def)
  next
    fix u b j ix
    assume a: "locate sip (ct_state t) key = Some (Some (u, b, j, ix))" "occupied (ct_state t) (u, b, j)"
      "slot_index (slot_at (ct_state t) (u, b, j)) = ix" "key_of (ct_state t) (unat ix) = key"
    then have "content (ct_state t) key \<noteq> None"
      using located_index(1)[OF w a(2,3)] by (auto simp: content_None_iff)
    with cuckoo_remove_present[OF i a] show ?thesis by simp
  qed
qed

end
