(* ===== verification/Cache_Interface.thy ===== *)
theory Cache_Interface
  imports Kallisto_Prelude
begin

text \<open>
  The contract that the storage engine relies on when it uses the in-memory table as a cache: a partial
  map from keys to payloads in which an insertion may drop entries but never invents or corrupts one.
  The contract is a locale; \<open>Cuckoo_Theorems\<close> interprets it on the cuckoo table and
  \<open>Sharded_Cuckoo\<close> on the sharded table. Its client lemma is about whole histories: what a cache
  serves after any sequence of calls is what a map would serve, or nothing.
\<close>

datatype cache_op = Cache_Insert string bytes | Cache_Lookup string | Cache_Remove string

type_synonym 'c cache_ins = "'c \<Rightarrow> string \<Rightarrow> bytes \<Rightarrow> (bool \<times> 'c) option"
type_synonym 'c cache_lk = "'c \<Rightarrow> string \<Rightarrow> (bytes option \<times> 'c) option"
type_synonym 'c cache_rm = "'c \<Rightarrow> string \<Rightarrow> (bool \<times> 'c) option"

text \<open>A history of calls on a cache, with the answers of its lookups.\<close>

fun cache_run :: "'c cache_ins \<Rightarrow> 'c cache_lk \<Rightarrow> 'c cache_rm \<Rightarrow> 'c \<Rightarrow> cache_op list \<Rightarrow> ((string \<times> bytes option) list \<times> 'c) option" where
  "cache_run ins lk rm c [] = Some ([], c)"
| "cache_run ins lk rm c (Cache_Insert k p # ops) = do {
     (_, c') \<leftarrow> ins c k p;
     cache_run ins lk rm c' ops
   }"
| "cache_run ins lk rm c (Cache_Lookup k # ops) = do {
     (r, c') \<leftarrow> lk c k;
     (rs, c'') \<leftarrow> cache_run ins lk rm c' ops;
     Some ((k, r) # rs, c'')
   }"
| "cache_run ins lk rm c (Cache_Remove k # ops) = do {
     (_, c') \<leftarrow> rm c k;
     cache_run ins lk rm c' ops
   }"

text \<open>The same history on a map that never forgets.\<close>

fun map_run :: "(string \<Rightarrow> bytes option) \<Rightarrow> cache_op list \<Rightarrow> (string \<times> bytes option) list" where
  "map_run m [] = []"
| "map_run m (Cache_Insert k p # ops) = map_run (m(k \<mapsto> p)) ops"
| "map_run m (Cache_Lookup k # ops) = (k, m k) # map_run m ops"
| "map_run m (Cache_Remove k # ops) = map_run (m(k := None)) ops"

text \<open>An answer is a miss, or the answer of the map.\<close>

definition hit_or_miss :: "string \<times> bytes option \<Rightarrow> string \<times> bytes option \<Rightarrow> bool" where
  "hit_or_miss a b \<longleftrightarrow> fst a = fst b \<and> (snd a = None \<or> snd a = snd b)"

locale lossy_cache =
  fixes inv :: "'c \<Rightarrow> bool"
    and view :: "'c \<Rightarrow> string \<Rightarrow> bytes option"
    and ins :: "'c cache_ins"
    and lk :: "'c cache_lk"
    and rm :: "'c cache_rm"
  assumes ins_law: "inv c \<Longrightarrow> \<exists>ok c'. ins c k p = Some (ok, c') \<and> inv c'
      \<and> view c' \<subseteq>\<^sub>m (view c)(k \<mapsto> p) \<and> (ok \<longrightarrow> view c' k = Some p)"
    and lk_law: "inv c \<Longrightarrow> \<exists>c'. lk c k = Some (view c k, c') \<and> inv c' \<and> view c' = view c"
    and rm_law: "inv c \<Longrightarrow> \<exists>c'. rm c k = Some (view c k \<noteq> None, c') \<and> inv c'
      \<and> view c' = (view c)(k := None)"
begin

lemma ins_coherent:
  assumes "inv c" "view c \<subseteq>\<^sub>m m"
  obtains ok c' where "ins c k p = Some (ok, c')" "inv c'" "view c' \<subseteq>\<^sub>m m(k \<mapsto> p)"
    "ok \<Longrightarrow> view c' k = Some p"
proof -
  obtain ok c' where r: "ins c k p = Some (ok, c')" "inv c'" "view c' \<subseteq>\<^sub>m (view c)(k \<mapsto> p)"
    "ok \<longrightarrow> view c' k = Some p" using ins_law[OF assms(1)] by blast
  have "(view c)(k \<mapsto> p) \<subseteq>\<^sub>m m(k \<mapsto> p)" using assms(2) by (simp add: map_le_def)
  then have "view c' \<subseteq>\<^sub>m m(k \<mapsto> p)" by (rule map_le_trans[OF r(3)])
  with r that show ?thesis by blast
qed

lemma rm_coherent:
  assumes "inv c" "view c \<subseteq>\<^sub>m m"
  obtains c' where "rm c k = Some (view c k \<noteq> None, c')" "inv c'" "view c' \<subseteq>\<^sub>m m(k := None)"
proof -
  obtain c' where r: "rm c k = Some (view c k \<noteq> None, c')" "inv c'" "view c' = (view c)(k := None)"
    using rm_law[OF assms(1)] by blast
  have "view c' \<subseteq>\<^sub>m m(k := None)" using assms(2) r(3) by (auto simp: map_le_def)
  with r that show ?thesis by blast
qed

lemma run_hit_or_miss:
  assumes "inv c" "view c \<subseteq>\<^sub>m m"
  shows "\<exists>rs c'. cache_run ins lk rm c ops = Some (rs, c') \<and> inv c' \<and> list_all2 hit_or_miss rs (map_run m ops)"
  using assms
proof (induction ops arbitrary: c m)
  case Nil
  then show ?case by simp
next
  case (Cons op ops)
  show ?case
  proof (cases op)
    case (Cache_Insert k p)
    obtain ok c' where r: "ins c k p = Some (ok, c')" "inv c'" "view c' \<subseteq>\<^sub>m m(k \<mapsto> p)"
      using ins_coherent[OF Cons.prems] by blast
    obtain rs c'' where "cache_run ins lk rm c' ops = Some (rs, c'')" "inv c''"
      "list_all2 hit_or_miss rs (map_run (m(k \<mapsto> p)) ops)" using Cons.IH[OF r(2,3)] by blast
    then show ?thesis using r(1) by (simp add: Cache_Insert)
  next
    case (Cache_Lookup k)
    obtain c' where r: "lk c k = Some (view c k, c')" "inv c'" "view c' = view c"
      using lk_law[OF Cons.prems(1)] by blast
    have hit: "hit_or_miss (k, view c k) (k, m k)"
      using Cons.prems(2) by (cases "view c k") (force simp: hit_or_miss_def map_le_def)+
    have le: "view c' \<subseteq>\<^sub>m m" using r(3) Cons.prems(2) by simp
    from Cons.IH[OF r(2) le] r(1) hit show ?thesis by (auto simp: Cache_Lookup)
  next
    case (Cache_Remove k)
    obtain c' where r: "rm c k = Some (view c k \<noteq> None, c')" "inv c'" "view c' \<subseteq>\<^sub>m m(k := None)"
      using rm_coherent[OF Cons.prems] by blast
    obtain rs c'' where "cache_run ins lk rm c' ops = Some (rs, c'')" "inv c''"
      "list_all2 hit_or_miss rs (map_run (m(k := None)) ops)" using Cons.IH[OF r(2,3)] by blast
    then show ?thesis using r(1) by (simp add: Cache_Remove)
  qed
qed

end

end
