(* ===== verification/Cuckoo_Theorems.thy ===== *)
theory Cuckoo_Theorems
  imports Cuckoo_Correct Cache_Interface
begin

text \<open>
  The cuckoo table as its clients see it. \<open>cuckoo_view\<close> is what a lookup answers; the theorems below
  are stated with it. The interpretation at the end discharges the cache contract for the table.
\<close>

definition cuckoo_view :: "sip_hash \<Rightarrow> cuckoo_table \<Rightarrow> string \<Rightarrow> bytes option" where
  "cuckoo_view sip t key =
     (case cuckoo_lookup sip t key of
        Some (Some e, _) \<Rightarrow> Some (entry_payload e)
      | _ \<Rightarrow> None)"

lemma cuckoo_view_content:
  assumes "cuckoo_inv sip t"
  shows "cuckoo_view sip t = content (ct_state t)"
proof
  fix k
  show "cuckoo_view sip t k = content (ct_state t) k"
    using cuckoo_lookup_map_spec[OF assms, of k "\<lambda>e. e"]
    by (auto simp: cuckoo_view_def cuckoo_lookup_def split: option.splits)
qed

subsection \<open>Construction\<close>

lemma slot_at_new:
  assumes "unsafe_cuckoo_new sz m = Some st" "valid_loc st l"
  shows "slot_at st l = empty_slot"
  using assms by (cases l) (auto simp: unsafe_cuckoo_new_def slot_at.simps valid_loc.simps tbl_def split: if_splits)

lemma unsafe_cuckoo_new_wf:
  assumes n: "unsafe_cuckoo_new sz m = Some st" and sz: "0 < sz" and m: "m \<le> 2 ^ 32 - 1"
  shows "cuckoo_wf sip {} st" and "live st = {}"
proof -
  have o: "\<not> occupied st l" for l
    using slot_at_new[OF n, of l] by (auto simp: occupied_def empty_slot_def)
  then show l: "live st = {}" by (simp add: live_def)
  have "shape st" using n sz m by (auto simp: unsafe_cuckoo_new_def shape_def split: if_splits)
  moreover have "free_idx st = []" using n by (auto simp: unsafe_cuckoo_new_def free_idx_def split: if_splits)
  ultimately show "cuckoo_wf sip {} st" using o l by (simp add: cuckoo_wf_def)
qed

lemma cuckoo_new_inv:
  assumes "0 < sz" "sz \<le> 2 ^ 50" "min m (sz * 16 * 90 div 100) \<le> 2 ^ 32 - 1"
  shows "\<exists>t. cuckoo_new sz m = Some t \<and> cuckoo_inv sip t \<and> cuckoo_view sip t = Map.empty
    \<and> max_capacity (ct_state t) = min m (sz * 16 * 90 div 100)
    \<and> max_capacity (ct_state t) * 100 \<le> sz * 16 * 90"
proof -
  let ?m = "min m (sz * 16 * 90 div 100)"
  have wrap: "usize_wrap (sz * 16 * 90) = sz * 16 * 90" using assms(2) by (simp add: usize_wrap_def)
  obtain st where st: "unsafe_cuckoo_new sz ?m = Some st" and mc: "max_capacity st = ?m"
    "storage_size st = 0" "free_list_size st = 0"
    using assms(2,3) by (simp add: unsafe_cuckoo_new_def layout_array_ok_def size_of_Bucket_def
        size_of_SecretEntry_def size_of_u32_def)
  let ?t = "\<lparr>ct_state = st, shadow_max_capacity = ?m, shadow_storage_size = 0, shadow_free_list_size = 0\<rparr>"
  have inv: "cuckoo_inv sip ?t"
    using unsafe_cuckoo_new_wf(1)[OF st assms(1,3)] mc by (simp add: cuckoo_inv_def shadows_ok_def)
  have "content st = Map.empty"
    using unsafe_cuckoo_new_wf(2)[OF st assms(1,3)] by (auto simp: content_def)
  then have "cuckoo_view sip ?t = Map.empty" using cuckoo_view_content[OF inv] by simp
  moreover have "cuckoo_new sz m = Some ?t" unfolding cuckoo_new_def Let_def wrap st by simp
  moreover have "?m * 100 \<le> sz * 16 * 90" by linarith
  ultimately show ?thesis using inv mc by auto
qed

subsection \<open>Insert, lookup, remove\<close>

text \<open>
  C9: Inserting never accesses memory outside of the table, keeps the invariant, and makes the table
  answer as before with the key updated, except for a set of forgotten keys. When \<open>insert\<close> reports
  success the new entry is there, at most one other key is forgotten, and only if the key was new and
  the arena was full; when it reports failure at most two keys are forgotten.
\<close>

theorem cuckoo_insert_ok:
  assumes "cuckoo_inv sip t"
  shows "\<exists>ok t' L. cuckoo_insert sip t key e = Some (ok, t') \<and> cuckoo_inv sip t'
    \<and> cuckoo_view sip t' = forget L ((cuckoo_view sip t)(key \<mapsto> entry_payload e))
    \<and> finite L \<and> card L \<le> (if ok then 1 else 2)
    \<and> (ok \<longrightarrow> key \<notin> L \<and> (L \<noteq> {} \<longrightarrow> cuckoo_view sip t key = None \<and> is_full (ct_state t)))"
proof -
  obtain ok t' L where "cuckoo_insert sip t key e = Some (ok, t')" and i: "cuckoo_inv sip t'"
    and "content (ct_state t') = forget L ((content (ct_state t))(key \<mapsto> entry_payload e))"
      "finite L" "card L \<le> (if ok then 1 else 2)"
      "ok \<longrightarrow> key \<notin> L \<and> (L \<noteq> {} \<longrightarrow> content (ct_state t) key = None \<and> is_full (ct_state t))"
    using cuckoo_insert_spec[OF assms, of key e] unfolding inserted_def by blast
  then show ?thesis unfolding cuckoo_view_content[OF assms] cuckoo_view_content[OF i, symmetric]
    by (intro exI conjI) assumption+
qed

theorem cuckoo_insert_ok_witness:
  "\<exists>t ok t' L. cuckoo_new 10 100 = Some t \<and> cuckoo_inv (\<lambda>_ _ _. 0) t
    \<and> cuckoo_insert (\<lambda>_ _ _. 0) t ''k'' (fresh_entry ''k'' ''v'') = Some (ok, t') \<and> cuckoo_inv (\<lambda>_ _ _. 0) t'
    \<and> cuckoo_view (\<lambda>_ _ _. 0) t' = forget L [''k'' \<mapsto> ''v''] \<and> (ok \<longrightarrow> ''k'' \<notin> L)"
proof -
  obtain t where t: "cuckoo_new 10 100 = Some t" "cuckoo_inv (\<lambda>_ _ _. 0) t" "cuckoo_view (\<lambda>_ _ _. 0) t = Map.empty"
    using cuckoo_new_inv[of 10 100 "\<lambda>_ _ _. 0"] by auto
  show ?thesis
    using cuckoo_insert_ok[OF t(2), of "''k''" "fresh_entry ''k'' ''v''"] t
    by (metis fresh_entry_def secret_entry.select_convs(2))
qed

text \<open>
  A lookup never accesses memory outside of the table and changes no answer; it passes the stored
  entry to the closure exactly when the table holds the key, and leaves that entry marked as used.
\<close>

lemma cuckoo_lookup_map_ok:
  assumes "cuckoo_inv sip t"
  shows "\<exists>r t'. cuckoo_lookup_map sip t key f = Some (r, t') \<and> cuckoo_inv sip t'
    \<and> cuckoo_view sip t' = cuckoo_view sip t
    \<and> r = map_option (\<lambda>p. f (fresh_entry key p)) (cuckoo_view sip t key)"
proof -
  obtain r t' where r: "cuckoo_lookup_map sip t key f = Some (r, t')" "cuckoo_inv sip t'"
    "content (ct_state t') = content (ct_state t)"
    "case content (ct_state t) key of None \<Rightarrow> r = None
     | Some p \<Rightarrow> r = Some (f \<lparr>entry_key = key, entry_payload = p, entry_referenced = True\<rparr>)"
    using cuckoo_lookup_map_spec[OF assms, of key f] by blast
  have "r = map_option (\<lambda>p. f (fresh_entry key p)) (content (ct_state t) key)"
    using r(4) by (simp add: fresh_entry_def split: option.splits)
  with r(1-3) show ?thesis by (simp add: cuckoo_view_content assms)
qed

text \<open>
  Removing a key never accesses memory outside of the table (the free list has room for the index),
  reports whether the key was there, and forgets that key and no other.
\<close>

lemma cuckoo_remove_ok:
  assumes "cuckoo_inv sip t"
  shows "\<exists>t'. cuckoo_remove sip t key = Some (cuckoo_view sip t key \<noteq> None, t') \<and> cuckoo_inv sip t'
    \<and> cuckoo_view sip t' = (cuckoo_view sip t)(key := None)"
  using cuckoo_remove_spec[OF assms, of key] cuckoo_view_content[OF assms] by (auto simp: cuckoo_view_content)

subsection \<open>The cache contract\<close>

definition cuckoo_ins :: "sip_hash \<Rightarrow> cuckoo_table cache_ins" where
  "cuckoo_ins sip t k p = cuckoo_insert sip t k (fresh_entry k p)"

definition cuckoo_lk :: "sip_hash \<Rightarrow> cuckoo_table cache_lk" where
  "cuckoo_lk sip t k = cuckoo_lookup_map sip t k entry_payload"

lemma forget_map_le: "forget L m \<subseteq>\<^sub>m m"
  by (auto simp: forget_def map_le_def split: if_splits)

lemma cuckoo_ins_law:
  assumes i: "cuckoo_inv sip c"
  shows "\<exists>ok c'. cuckoo_ins sip c k p = Some (ok, c') \<and> cuckoo_inv sip c'
    \<and> cuckoo_view sip c' \<subseteq>\<^sub>m (cuckoo_view sip c)(k \<mapsto> p) \<and> (ok \<longrightarrow> cuckoo_view sip c' k = Some p)"
proof -
  obtain ok c' L where r: "cuckoo_insert sip c k (fresh_entry k p) = Some (ok, c')" and i': "cuckoo_inv sip c'"
    and v: "content (ct_state c') = forget L ((content (ct_state c))(k \<mapsto> p))" and ok: "ok \<longrightarrow> k \<notin> L"
    using cuckoo_insert_spec[OF i, of k "fresh_entry k p"] unfolding inserted_def fresh_entry_def by auto
  show ?thesis
    using r i' ok forget_map_le
    by (simp add: cuckoo_ins_def cuckoo_view_content[OF i] cuckoo_view_content[OF i'] v forget_def)
qed

lemma cuckoo_lk_law:
  assumes i: "cuckoo_inv sip c"
  shows "\<exists>c'. cuckoo_lk sip c k = Some (cuckoo_view sip c k, c') \<and> cuckoo_inv sip c'
    \<and> cuckoo_view sip c' = cuckoo_view sip c"
proof -
  obtain r c' where r: "cuckoo_lookup_map sip c k entry_payload = Some (r, c')" "cuckoo_inv sip c'"
    "content (ct_state c') = content (ct_state c)"
    "case content (ct_state c) k of None \<Rightarrow> r = None
     | Some p \<Rightarrow> r = Some (entry_payload \<lparr>entry_key = k, entry_payload = p, entry_referenced = True\<rparr>)"
    using cuckoo_lookup_map_spec[OF i, of k entry_payload] by blast
  have "r = content (ct_state c) k" using r(4) by (simp split: option.splits)
  with r(1-3) show ?thesis by (simp add: cuckoo_lk_def cuckoo_view_content i)
qed

lemma cuckoo_rm_law:
  assumes i: "cuckoo_inv sip c"
  shows "\<exists>c'. cuckoo_remove sip c k = Some (cuckoo_view sip c k \<noteq> None, c') \<and> cuckoo_inv sip c'
    \<and> cuckoo_view sip c' = (cuckoo_view sip c)(k := None)"
  using cuckoo_remove_spec[OF i, of k] cuckoo_view_content[OF i] by (auto simp: cuckoo_view_content)

interpretation ct: lossy_cache "cuckoo_inv sip" "cuckoo_view sip" "cuckoo_ins sip" "cuckoo_lk sip" "cuckoo_remove sip"
  for sip
  by unfold_locales (rule cuckoo_ins_law cuckoo_lk_law cuckoo_rm_law, assumption)+

text \<open>
  C10: After any sequence of calls, starting from an empty table, no call has accessed memory outside of
  the table and every lookup answered what a plain map would have answered, or nothing: the table never
  serves a stale payload, another key's payload, or a removed key.
\<close>

theorem cuckoo_history:
  assumes "0 < sz" "sz \<le> 2 ^ 50" "min m (sz * 16 * 90 div 100) \<le> 2 ^ 32 - 1" "cuckoo_new sz m = Some t"
  shows "\<exists>rs t'. cache_run (cuckoo_ins sip) (cuckoo_lk sip) (cuckoo_remove sip) t ops = Some (rs, t')
    \<and> cuckoo_inv sip t' \<and> list_all2 hit_or_miss rs (map_run Map.empty ops)"
proof -
  have "cuckoo_inv sip t" "cuckoo_view sip t \<subseteq>\<^sub>m Map.empty"
    using cuckoo_new_inv[OF assms(1-3), of sip] assms(4) by auto
  then show ?thesis by (rule ct.run_hit_or_miss)
qed

theorem cuckoo_history_witness:
  "\<exists>t rs t'. cuckoo_new 10 100 = Some t
    \<and> cache_run (cuckoo_ins (\<lambda>_ _ _. 0)) (cuckoo_lk (\<lambda>_ _ _. 0)) (cuckoo_remove (\<lambda>_ _ _. 0)) t
        [Cache_Insert ''k'' ''v'', Cache_Remove ''k'', Cache_Lookup ''k''] = Some (rs, t')
    \<and> list_all2 hit_or_miss rs [(''k'', None)]"
proof -
  obtain t where t: "cuckoo_new 10 100 = Some t" using cuckoo_new_inv[of 10 100] by auto
  show ?thesis
    using cuckoo_history[of 10 100 t "\<lambda>_ _ _. 0" "[Cache_Insert ''k'' ''v'', Cache_Remove ''k'', Cache_Lookup ''k'']"] t
    by auto
qed

end
