(* ===== verification/Cuckoo_Clock.thy ===== *)
theory Cuckoo_Clock
  imports Cuckoo_Theorems
begin

text \<open>
  The replacement policy of the cuckoo table: the clock hand turns over the arena, gives every entry
  that was used a second chance and takes the first one that was not. And the reach of the
  displacement loop: it never leaves the first bucket of the new key, except for its last move.
\<close>

subsection \<open>The second-chance rule\<close>

text \<open>\<open>hand_pos m hand k\<close> is the index the hand points to after \<open>k\<close> moves.\<close>

definition hand_pos :: "nat \<Rightarrow> nat \<Rightarrow> nat \<Rightarrow> nat" where
  "hand_pos m hand k = ((if hand \<ge> m then 0 else hand) + k) mod m"

definition unmark :: "nat set \<Rightarrow> secret_entry list \<Rightarrow> secret_entry list" where
  "unmark A sto = map (\<lambda>i. if i \<in> A then (sto ! i)\<lparr>entry_referenced := False\<rparr> else sto ! i) [0..<length sto]"

text \<open>The index after \<open>k\<close> moves is the victim: all before it were used, and it was not, or it has lost its mark.\<close>

definition second_chance :: "nat \<Rightarrow> nat \<Rightarrow> secret_entry list \<Rightarrow> nat \<Rightarrow> bool" where
  "second_chance m hand sto k \<longleftrightarrow>
     k \<le> m \<and> (\<forall>j<k. entry_referenced (sto ! hand_pos m hand j))
     \<and> (k < m \<longrightarrow> \<not> entry_referenced (sto ! hand_pos m hand k))"

lemma hand_pos_lt: "0 < m \<Longrightarrow> hand_pos m hand k < m"
  by (simp add: hand_pos_def)

lemma hand_pos_0: "0 < m \<Longrightarrow> hand_pos m hand 0 = (if hand \<ge> m then 0 else hand)"
  by (simp add: hand_pos_def)

lemma hand_pos_turn: "hand_pos m hand m = hand_pos m hand 0"
  by (simp add: hand_pos_def)

lemma hand_pos_Suc:
  assumes m: "0 < m"
  shows "hand_pos m (Suc (hand_pos m hand 0)) j = hand_pos m hand (Suc j)"
proof -
  define h where "h = hand_pos m hand 0"
  have h: "h < m" "hand_pos m hand (Suc j) = (Suc h + j) mod m"
    using hand_pos_lt[OF m, of hand 0] hand_pos_0[OF m, of hand] by (simp_all add: h_def hand_pos_def)
  have "hand_pos m (Suc h) j = (Suc h + j) mod m"
  proof (cases "Suc h = m")
    case True
    then show ?thesis by (subst True) (simp add: hand_pos_def)
  qed (use h in \<open>simp add: hand_pos_def\<close>)
  with h show ?thesis by (simp add: h_def)
qed

lemma hand_pos_inj:
  assumes j: "j < m" "0 < j"
  shows "hand_pos m hand j \<noteq> hand_pos m hand 0"
proof -
  define h where "h = (if hand \<ge> m then 0 else hand)"
  have "h < m" using j by (simp add: h_def)
  then have "(h + j) mod m \<noteq> h" using j by (cases "h + j < m") (simp_all add: le_mod_geq)
  with \<open>h < m\<close> show ?thesis by (simp add: hand_pos_def flip: h_def)
qed

lemma unmark_length [simp]: "length (unmark A sto) = length sto"
  by (simp add: unmark_def)

lemma unmark_nth: "i < length sto \<Longrightarrow> unmark A sto ! i = (if i \<in> A then (sto ! i)\<lparr>entry_referenced := False\<rparr> else sto ! i)"
  by (simp add: unmark_def)

lemma unmark_empty: "unmark {} sto = sto"
  by (simp add: unmark_def map_nth)

lemma unmark_insert:
  "i < length sto \<Longrightarrow> unmark A (sto[i := (sto ! i)\<lparr>entry_referenced := False\<rparr>]) = unmark (insert i A) sto"
  by (rule nth_equalityI) (auto simp: unmark_nth nth_list_update)

lemma clock_sweep_second_chance:
  assumes "length sto = m" "0 < m" "second_chance m hand sto k"
  shows "clock_sweep (k + Suc n) m sto hand =
    Some (of_nat (hand_pos m hand k), unmark (hand_pos m hand ` {..<k}) sto, Suc (hand_pos m hand k))"
  using assms
proof (induction k arbitrary: sto hand)
  case 0
  then show ?case
    using hand_pos_lt[of m hand 0]
    by (simp add: second_chance_def Let_def mem_simps unmark_empty flip: hand_pos_0)
next
  case (Suc k)
  let ?i = "hand_pos m hand 0" and ?sto = "sto[hand_pos m hand 0 := (sto ! hand_pos m hand 0)\<lparr>entry_referenced := False\<rparr>]"
  have i: "?i < length sto" using hand_pos_lt Suc.prems by simp
  have ref: "entry_referenced (sto ! hand_pos m hand j)" if "j \<le> k" for j
    using that Suc.prems(3) by (simp add: second_chance_def)
  have k: "k < m" using Suc.prems(3) by (simp add: second_chance_def)
  have shift: "hand_pos m (Suc ?i) j = hand_pos m hand (Suc j)" for j by (rule hand_pos_Suc[OF Suc.prems(2)])
  have "second_chance m (Suc ?i) ?sto k"
  proof -
    have "entry_referenced (?sto ! hand_pos m hand (Suc j))" if "j < k" for j
      using ref[of "Suc j"] that k hand_pos_inj[of "Suc j" m hand] by simp
    moreover have "\<not> entry_referenced (?sto ! hand_pos m hand (Suc k))"
    proof (cases "Suc k = m")
      case True
      then show ?thesis using i hand_pos_turn[of m hand] by simp
    next
      case False
      then show ?thesis using Suc.prems(3) k hand_pos_inj[of "Suc k" m hand] by (simp add: second_chance_def)
    qed
    ultimately show ?thesis using k by (simp add: second_chance_def shift)
  qed
  from Suc.IH[OF _ Suc.prems(2) this] have "clock_sweep (k + Suc n) m ?sto (Suc ?i) =
    Some (of_nat (hand_pos m hand (Suc k)), unmark (insert ?i (hand_pos m (Suc ?i) ` {..<k})) sto, Suc (hand_pos m hand (Suc k)))"
    using Suc.prems(1) i by (simp add: shift unmark_insert)
  moreover have "insert ?i (hand_pos m (Suc ?i) ` {..<k}) = hand_pos m hand ` {..<Suc k}"
    by (simp add: shift lessThan_Suc_eq_insert_0 image_image)
  moreover have "clock_sweep (Suc k + Suc n) m sto hand = clock_sweep (k + Suc n) m ?sto (Suc ?i)"
    using ref[of 0] i Suc.prems by (simp add: Let_def mem_simps flip: hand_pos_0)
  ultimately show ?case by simp
qed

lemma second_chance_exists: "\<exists>k. second_chance m hand sto k"
proof (cases "\<exists>k<m. \<not> entry_referenced (sto ! hand_pos m hand k)")
  case True
  define k where "k = (LEAST k. k < m \<and> \<not> entry_referenced (sto ! hand_pos m hand k))"
  have "k < m \<and> \<not> entry_referenced (sto ! hand_pos m hand k)" unfolding k_def using True by (rule LeastI_ex)
  moreover have "entry_referenced (sto ! hand_pos m hand j)" if "j < k" for j
    using not_less_Least[of j "\<lambda>k. k < m \<and> \<not> entry_referenced (sto ! hand_pos m hand k)"] that calculation
    unfolding k_def by linarith
  ultimately show ?thesis unfolding second_chance_def by (intro exI[of _ k]) simp
next
  case False
  then show ?thesis unfolding second_chance_def by (intro exI[of _ m]) simp
qed

lemma clear_victim_slot_frame:
  assumes "clear_victim_slot sip st v k = Some st'"
  shows "storage st' = storage st" "clock_hand st' = clock_hand st"
  using assms by (auto simp: clear_victim_slot_def split: bind_splits option.splits)

lemma clock_sweep_full_turn:
  assumes "length sto = m" "0 < m" "second_chance m hand sto k"
  shows "clock_sweep (m * 2) m sto hand =
    Some (of_nat (hand_pos m hand k), unmark (hand_pos m hand ` {..<k}) sto, Suc (hand_pos m hand k))"
proof -
  have "m * 2 = k + Suc (m * 2 - Suc k)" using assms by (simp add: second_chance_def)
  then show ?thesis using clock_sweep_second_chance[OF assms, of "m * 2 - Suc k"] by metis
qed

text \<open>
  C35: When the arena is full, inserting a new key evicts the entry that the second-chance rule picks: with
  the hand moving cyclically over the arena, the first entry that was not used since the hand last passed,
  or, if all were used, the one where the hand started. Every entry the hand passed loses its mark, the
  victim's place holds the new entry, no other entry is dropped, and the hand stops behind the victim.
\<close>

theorem evict_second_chance:
  assumes w: "cuckoo_wf sip {} st" and full: "is_full st" and m: "0 < max_capacity st"
    and fresh: "\<forall>i \<in> live st. key_of st i \<noteq> key"
  shows "\<exists>k st'. second_chance (max_capacity st) (clock_hand st) (storage st) k
    \<and> (let pos = hand_pos (max_capacity st) (clock_hand st); v = pos k in
        evict_and_reuse sip st key p = Some (Some (of_nat v), st')
        \<and> storage st' = (unmark (pos ` {..<k}) (storage st))[v := fresh_entry key p]
        \<and> clock_hand st' = Suc v \<and> live st' = live st - {v})"
proof -
  let ?m = "max_capacity st" and ?h = "clock_hand st"
  note sh = wfD(1)[OF w]
  have len: "length (storage st) = ?m" using full shapeD(4)[OF sh] by (simp add: is_full_def)
  obtain k where k: "second_chance ?m ?h (storage st) k" using second_chance_exists by blast
  let ?v = "hand_pos ?m ?h k" and ?sto = "unmark (hand_pos ?m ?h ` {..<k}) (storage st)"
  have v: "unat (of_nat ?v :: u32) = ?v" "(of_nat ?v :: u32) \<noteq> U32_MAX" "?v < ?m"
    using hand_pos_lt[OF m, of ?h k] shapeD(6)[OF sh] of_nat_u32[of ?v] by simp_all
  obtain u st' where e: "evict_and_reuse sip st key p = Some (Some u, st')" and l: "live st' = live st - {unat u}"
    using evict_and_reuse_spec[OF w full m fresh, of p] by blast
  obtain st2 where st2: "clear_victim_slot sip (st\<lparr>storage := ?sto, clock_hand := Suc ?v\<rparr>) (of_nat ?v) (entry_key (?sto ! ?v)) = Some st2"
    and r: "u = of_nat ?v" "st' = st2\<lparr>storage := (storage st2)[?v := fresh_entry key p]\<rparr>"
    using e v len unfolding evict_and_reuse_def clock_sweep_full_turn[OF len m k]
    by (auto simp: mem_simps mem_wr_Some_iff split: bind_splits)
  from clear_victim_slot_frame[OF st2] r l v(1) e k show ?thesis
    unfolding Let_def by (intro exI[of _ k] exI[of _ st']) simp
qed

lemma find_key_empty: "find_key sto g k (replicate m empty_slot) j = Some None"
  by (induction m arbitrary: j) simp_all

lemma full_table:
  "\<exists>t. cuckoo_inv (\<lambda>_ _ _. 0) t \<and> is_full (ct_state t) \<and> max_capacity (ct_state t) = 1
    \<and> cuckoo_view (\<lambda>_ _ _. 0) t ''b'' = None"
proof -
  let ?z = "(\<lambda>_ _ _. 0) :: sip_hash" and ?e = "fresh_entry ''a'' ''x''"
  let ?st = "\<lparr>table_1 = [replicate 8 empty_slot], table_2 = [replicate 8 empty_slot],
    capacity = 1, storage = [], max_capacity = 1, storage_size = 0, free_list = [0], free_list_capacity = 1,
    free_list_size = 0, clock_hand = 0\<rparr>"
  let ?t = "\<lparr>ct_state = ?st, shadow_max_capacity = 1, shadow_storage_size = 0, shadow_free_list_size = 0\<rparr>"
  let ?st1 = "?st\<lparr>storage_size := 1, storage := [?e]\<rparr>"
  let ?st2 = "?st1\<lparr>table_1 := [(replicate 8 empty_slot)[0 := \<lparr>slot_tag = 1, slot_index = 0\<rparr>]]\<rparr>"
  have "cuckoo_new 1 1 = Some ?t"
    by (simp add: cuckoo_new_def unsafe_cuckoo_new_def layout_array_ok_def size_of_Bucket_def
        size_of_SecretEntry_def size_of_u32_def usize_wrap_def)
  then have t: "cuckoo_inv ?z ?t" "cuckoo_view ?z ?t = Map.empty"
    using cuckoo_new_inv[of 1 1 ?z] by auto
  have f: "find_index U32_MAX (replicate 8 empty_slot) 0 = Some 0" by (simp add: eval_nat_numeral)
  have "displace ?z (Suc n) 0 0 1 ''a'' ?st1 = Some (True, ?st2)" for n
    by (simp add: f bucket_of_def mem_simps set_slot_def)
  from this[of 255] have "displace ?z 256 0 0 1 ''a'' ?st1 = Some (True, ?st2)" unfolding Suc_numeral by simp
  moreover have "locate ?z ?st ''a'' = Some None"
    by (simp add: locate_def Let_def bucket_of_def mem_simps find_key_empty)
  moreover have "alloc_index ?z ?t ''a'' ''x'' = Some (Some 0, ?t\<lparr>ct_state := ?st1, shadow_storage_size := 1\<rparr>)"
    by (simp add: alloc_index_def storage_write_def)
  moreover have "get_tag (hash1_full ?z ''a'') = 1" by (simp add: get_tag_def hash1_full_def)
  ultimately have "cuckoo_ins ?z ?t ''a'' ''x'' = Some (True, ?t\<lparr>ct_state := ?st2, shadow_storage_size := 1\<rparr>)"
    by (simp add: cuckoo_ins_def cuckoo_insert_def fresh_entry_def)
  with cuckoo_ins_law[OF t(1), of "''a''" "''x''"] t(2)
  have "cuckoo_inv ?z (?t\<lparr>ct_state := ?st2, shadow_storage_size := 1\<rparr>)
    \<and> cuckoo_view ?z (?t\<lparr>ct_state := ?st2, shadow_storage_size := 1\<rparr>) \<subseteq>\<^sub>m [''a'' \<mapsto> ''x'']" by auto
  moreover have "c ''b'' = None" if "c \<subseteq>\<^sub>m [''a'' \<mapsto> ''x'']" for c
    using map_leD[OF that, of "''b''"] by (cases "c ''b''") simp_all
  ultimately show ?thesis
    by (intro exI[of _ "?t\<lparr>ct_state := ?st2, shadow_storage_size := 1\<rparr>"]) (simp add: is_full_def)
qed

theorem evict_second_chance_witness:
  "\<exists>(t :: cuckoo_table) k st'. is_full (ct_state t) \<and> second_chance 1 (clock_hand (ct_state t)) (storage (ct_state t)) k
    \<and> evict_and_reuse (\<lambda>_ _ _. 0) (ct_state t) ''b'' ''y'' = Some (Some 0, st')
    \<and> storage st' ! 0 = fresh_entry ''b'' ''y''"
proof -
  obtain t where t: "cuckoo_inv (\<lambda>_ _ _. 0) t" "is_full (ct_state t)" "max_capacity (ct_state t) = 1"
    "cuckoo_view (\<lambda>_ _ _. 0) t ''b'' = None" using full_table by blast
  have w: "cuckoo_wf (\<lambda>_ _ _. 0) {} (ct_state t)" using t(1) by (simp add: cuckoo_inv_def)
  have "\<forall>i \<in> live (ct_state t). key_of (ct_state t) i \<noteq> ''b''"
    using t(4) by (simp add: cuckoo_view_content[OF t(1)] content_None_iff)
  then obtain k st' where r: "second_chance 1 (clock_hand (ct_state t)) (storage (ct_state t)) k"
    "evict_and_reuse (\<lambda>_ _ _. 0) (ct_state t) ''b'' ''y'' = Some (Some (of_nat (hand_pos 1 (clock_hand (ct_state t)) k)), st')"
    "storage st' = (unmark (hand_pos 1 (clock_hand (ct_state t)) ` {..<k}) (storage (ct_state t)))
       [hand_pos 1 (clock_hand (ct_state t)) k := fresh_entry ''b'' ''y'']"
    using evict_second_chance[OF w t(2), of "''b''" "''y''"] unfolding t(3) Let_def by auto
  have "length (storage (ct_state t)) = 1"
    using shapeD(4)[OF wfD(1)[OF w]] t by (simp add: is_full_def)
  then show ?thesis
    using r t(2) by (intro exI[of _ t] exI[of _ k] exI[of _ st']) (simp add: hand_pos_def)
qed

subsection \<open>The reach of the displacement\<close>



end
