(* ===== verification/Cuckoo_Scan.thy ===== *)
theory Cuckoo_Scan
  imports Cuckoo_Theorems
begin

text \<open>
  The full scan \<open>get_all_entries\<close> of the cuckoo table and its size bounds. The scan visits every
  location once, in the order of \<open>table_locs\<close>; under the invariant the entries it returns are exactly
  the table's answers, each key once.
\<close>

definition bucket_locs :: "bool \<Rightarrow> nat \<Rightarrow> loc list" where
  "bucket_locs w b = map (\<lambda>j. (w, b, j)) [0..<8]"

fun table_locs :: "nat \<Rightarrow> nat \<Rightarrow> loc list" where
  "table_locs 0 i = []"
| "table_locs (Suc n) i = bucket_locs False i @ bucket_locs True i @ table_locs n (Suc i)"

definition entry_at :: "unsafe_cuckoo \<Rightarrow> loc \<Rightarrow> secret_entry" where
  "entry_at st l = storage st ! idx_at st l"

lemma set_table_locs: "set (table_locs n i) = {(w, b, j). i \<le> b \<and> b < i + n \<and> j < 8}"
  by (induction n arbitrary: i) (auto simp: bucket_locs_def)

lemma distinct_table_locs: "distinct (table_locs n i)"
proof (induction n arbitrary: i)
  case (Suc n)
  have "distinct (bucket_locs w b)" for w b by (auto simp: bucket_locs_def distinct_map inj_on_def)
  moreover have "set (bucket_locs w i) \<inter> set (table_locs n (Suc i)) = {}" for w
    unfolding set_table_locs by (auto simp: bucket_locs_def)
  moreover have "set (bucket_locs False i) \<inter> set (bucket_locs True i) = {}" by (auto simp: bucket_locs_def)
  ultimately show ?case using Suc by auto
qed simp

lemma bucket_entries_reads:
  assumes "\<forall>s \<in> set ss. slot_index s \<noteq> U32_MAX \<longrightarrow> unat (slot_index s) < length sto"
  shows "bucket_entries sto ss =
    Some (map (\<lambda>s. sto ! unat (slot_index s)) (filter (\<lambda>s. slot_index s \<noteq> U32_MAX) ss))"
  using assms by (induction ss) (simp_all add: mem_rd_in)

lemma bucket_as_locs:
  assumes "shape st" "b < capacity st"
  shows "tbl st w ! b = map (slot_at st) (bucket_locs w b)"
proof (rule nth_equalityI)
  show "length (tbl st w ! b) = length (map (slot_at st) (bucket_locs w b))"
    using shapeD(3)[OF assms] by (simp add: bucket_locs_def)
  fix j assume "j < length (tbl st w ! b)"
  then have "j < 8" using shapeD(3)[OF assms] by simp
  then show "tbl st w ! b ! j = map (slot_at st) (bucket_locs w b) ! j"
    by (simp add: bucket_locs_def slot_at.simps nth_append)
qed

lemma bucket_entries_spec:
  assumes w: "cuckoo_wf sip F st" and b: "b < capacity st"
  shows "bucket_entries (storage st) (tbl st u ! b) = Some (map (entry_at st) (filter (occupied st) (bucket_locs u b)))"
proof -
  note sh = wfD(1)[OF w]
  have v: "valid_loc st l" if "l \<in> set (bucket_locs u b)" for l
    using that b by (auto simp: bucket_locs_def valid_loc.simps)
  have rd: "unat (slot_index (slot_at st l)) < length (storage st)"
    if "l \<in> set (bucket_locs u b)" "slot_index (slot_at st l) \<noteq> U32_MAX" for l
  proof -
    have "occupied st l" using that v by (simp add: occupied_def)
    from wfD(2)[OF w this] show ?thesis using shapeD(4)[OF sh] by (simp add: slot_ok_def)
  qed
  have f: "filter (\<lambda>l. slot_index (slot_at st l) \<noteq> U32_MAX) (bucket_locs u b) = filter (occupied st) (bucket_locs u b)"
    by (rule filter_cong) (simp_all add: occupied_def v)
  have r: "\<forall>s \<in> set (map (slot_at st) (bucket_locs u b)). slot_index s \<noteq> U32_MAX \<longrightarrow> unat (slot_index s) < length (storage st)"
    using rd by simp
  show ?thesis
    unfolding bucket_as_locs[OF sh b] bucket_entries_reads[OF r]
    by (simp add: filter_map comp_def f entry_at_def idx_at_def)
qed

lemma all_entries_from_spec:
  assumes w: "cuckoo_wf sip F st" and n: "i + n \<le> capacity st"
  shows "all_entries_from n i st = Some (map (entry_at st) (filter (occupied st) (table_locs n i)))"
  using n
proof (induction n arbitrary: i)
  case (Suc n)
  then have i: "i < capacity st" by simp
  have "mem_rd (table_1 st) i = Some (tbl st False ! i)" "mem_rd (table_2 st) i = Some (tbl st True ! i)"
    using i shapeD(2)[OF wfD(1)[OF w], of False] shapeD(2)[OF wfD(1)[OF w], of True]
    by (simp_all add: mem_rd_in tbl_def)
  then show ?case using Suc by (simp add: bucket_entries_spec[OF w i])
qed simp

lemma free_list_size_le:
  assumes "cuckoo_wf sip F st"
  shows "free_list_size st \<le> storage_size st"
  using card_mono[OF _ wfD(8)[OF assms]] distinct_card[OF wfD(7)[OF assms]]
    free_idx_length[OF wfD(1)[OF assms]] by simp

lemma scan_distinct_keys:
  assumes w: "cuckoo_wf sip F st"
  shows "distinct (map (entry_key \<circ> entry_at st) (filter (occupied st) (table_locs n i)))"
proof -
  have "inj_on (key_of st \<circ> idx_at st) {l. occupied st l}"
    using wfD(3)[OF w] inj_on_subset[OF wfD(4)[OF w]]
    by (intro comp_inj_on) (auto simp: live_def)
  then have "inj_on (entry_key \<circ> entry_at st) {l. occupied st l}"
    by (simp add: comp_def key_of_def entry_at_def)
  then have "inj_on (entry_key \<circ> entry_at st) (set (filter (occupied st) (table_locs n i)))"
    by (rule inj_on_subset) auto
  then show ?thesis unfolding distinct_map using distinct_table_locs by simp
qed

lemma scan_set:
  "set (filter (occupied st) (table_locs (capacity st) 0)) = {l. occupied st l}"
  by (auto simp: set_table_locs occupied_def valid_loc.simps)

definition answers :: "secret_entry list \<Rightarrow> string \<Rightarrow> bytes option" where
  "answers es = map_of (map (\<lambda>e. (entry_key e, entry_payload e)) es)"

lemma answers_Some_iff:
  assumes "distinct (map entry_key es)"
  shows "answers es k = Some p \<longleftrightarrow> (\<exists>e \<in> set es. entry_key e = k \<and> entry_payload e = p)"
proof -
  have "distinct (map fst (map (\<lambda>e. (entry_key e, entry_payload e)) es))" using assms by (simp add: comp_def)
  from map_of_eq_Some_iff[OF this] show ?thesis by (auto simp: answers_def)
qed

lemma get_all_entries_spec:
  assumes i: "cuckoo_inv sip t"
  shows "\<exists>es. cuckoo_get_all_entries t = Some es \<and> distinct (map entry_key es) \<and> answers es = cuckoo_view sip t"
proof -
  let ?st = "ct_state t"
  let ?ls = "filter (occupied ?st) (table_locs (capacity ?st) 0)"
  let ?es = "map (entry_at ?st) ?ls"
  have w: "cuckoo_wf sip {} ?st" using i by (simp add: cuckoo_inv_def)
  have d: "distinct (map entry_key ?es)" using scan_distinct_keys[OF w] by simp
  have "answers ?es k = content ?st k" for k
  proof -
    have "answers ?es k = Some p \<longleftrightarrow> content ?st k = Some p" for p
      unfolding answers_Some_iff[OF d] content_Some_iff[OF w] set_map scan_set live_def key_of_def entry_at_def by auto
    then show ?thesis by (cases "content ?st k") (metis not_None_eq, metis)
  qed
  then have "answers ?es = cuckoo_view sip t" using cuckoo_view_content[OF i] by (simp add: fun_eq_iff)
  moreover have "cuckoo_get_all_entries t = Some ?es"
    using free_list_size_le[OF w] all_entries_from_spec[OF w, of 0 "capacity ?st"]
    by (simp add: cuckoo_get_all_entries_def Let_def)
  ultimately show ?thesis using d by blast
qed

text \<open>
  The scan of the whole table never accesses memory outside of it, and returns for every key that a
  lookup would find exactly one entry, with the payload that the lookup would return, and no other.
\<close>

lemma cuckoo_get_all_entries_ok:
  assumes "cuckoo_inv sip t"
  shows "\<exists>es. cuckoo_get_all_entries t = Some es \<and> distinct (map entry_key es) \<and> answers es = cuckoo_view sip t"
  using assms by (rule get_all_entries_spec)

lemma dom_view_live:
  assumes "cuckoo_inv sip t"
  shows "dom (cuckoo_view sip t) = key_of (ct_state t) ` live (ct_state t)"
  unfolding cuckoo_view_content[OF assms] dom_def content_None_iff image_def by blast

lemma card_view_le:
  assumes i: "cuckoo_inv sip t"
  shows "finite (dom (cuckoo_view sip t))"
    and "card (dom (cuckoo_view sip t)) + free_list_size (ct_state t) \<le> storage_size (ct_state t)"
proof -
  let ?st = "ct_state t"
  have w: "cuckoo_wf sip {} ?st" using i by (simp add: cuckoo_inv_def)
  have sub: "live ?st \<union> set (free_idx ?st) \<subseteq> {..<storage_size ?st}"
    using live_lt[OF w] wfD(8)[OF w] by (intro Un_least subsetI) (simp, blast)
  then have fin: "finite (live ?st)" by (meson finite_Un finite_lessThan finite_subset)
  then show "finite (dom (cuckoo_view sip t))" by (simp add: dom_view_live[OF i])
  have "card (live ?st) + free_list_size ?st = card (live ?st \<union> set (free_idx ?st))"
    using wfD(9)[OF w] distinct_card[OF wfD(7)[OF w]] free_idx_length[OF wfD(1)[OF w]] fin
    by (subst card_Un_disjoint) auto
  also have "\<dots> \<le> storage_size ?st" using card_mono[OF _ sub] by simp
  finally show "card (dom (cuckoo_view sip t)) + free_list_size ?st \<le> storage_size ?st"
    using card_image_le[OF fin, of "key_of ?st"] by (simp add: dom_view_live[OF i])
qed

text \<open>
  The number of keys a table can answer never exceeds its capacity, and the shadow counters that
  \<open>get_memory_stats\<close> reads without the lock agree with the state: the entries the table can answer and the
  free list together fit in the storage it reports as used.
\<close>

lemma cuckoo_stats_ok:
  assumes "cuckoo_inv sip t"
  shows "finite (dom (cuckoo_view sip t))
    \<and> card (dom (cuckoo_view sip t)) * size_of_u32 + ms_free_list_size (cuckoo_get_memory_stats t)
        \<le> storage_used (cuckoo_get_memory_stats t) * size_of_u32
    \<and> storage_used (cuckoo_get_memory_stats t) \<le> storage_capacity (cuckoo_get_memory_stats t)
    \<and> storage_capacity (cuckoo_get_memory_stats t) = max_capacity (ct_state t)"
proof -
  have "shape (ct_state t)" "shadows_ok t" using assms wfD(1) by (auto simp: cuckoo_inv_def)
  then show ?thesis using card_view_le[OF assms] shapeD(5)
    by (simp add: cuckoo_get_memory_stats_def Let_def shadows_ok_def size_of_u32_def)
qed

end
