(* ===== verification/Sharded_Cuckoo.thy ===== *)
theory Sharded_Cuckoo
  imports Cuckoo_Scan
begin

text \<open>
  The sharded table of \<^verbatim>\<open>src/engine/sharded_cuckoo_table.rs\<close>: 64 independent cuckoo tables, each behind
  its own lock, with a key routed by the low six bits of its hash. A call locks one shard, so one call
  is one atomic step on the list of shards; indexing the list outside of its range is a panic (\<open>None\<close>).
\<close>

unbundle bit_operations_syntax

record sharded_cuckoo_table =
  shards :: "cuckoo_table list"

definition NUM_SHARDS :: nat where
  "NUM_SHARDS = 64"

fun new_shards :: "nat \<Rightarrow> nat \<Rightarrow> nat \<Rightarrow> cuckoo_table list option" where
  "new_shards 0 b m = Some []"
| "new_shards (Suc n) b m = do {
     t \<leftarrow> cuckoo_new b m;
     ts \<leftarrow> new_shards n b m;
     Some (t # ts)
   }"

definition sharded_new :: "nat \<Rightarrow> sharded_cuckoo_table option" where
  "sharded_new total_capacity =
     (let items_per_shard = total_capacity div NUM_SHARDS;
          buckets = items_per_shard div 8;
          buckets_per_shard = (if buckets < 64 then 64 else buckets)
      in do {
        ts \<leftarrow> new_shards NUM_SHARDS buckets_per_shard (usize_wrap (items_per_shard * 2));
        Some \<lparr>shards = ts\<rparr>
      })"

definition get_shard_index :: "sip_hash \<Rightarrow> string \<Rightarrow> nat" where
  "get_shard_index sip key = unat (sip 0xDEADBEEF64 0xCAFEBABE64 key AND of_nat (NUM_SHARDS - 1))"

text \<open>A call on the shard of a key, with the shard's new state written back.\<close>

definition with_shard :: "sip_hash \<Rightarrow> sharded_cuckoo_table \<Rightarrow> string \<Rightarrow> (cuckoo_table \<Rightarrow> ('r \<times> cuckoo_table) option) \<Rightarrow> ('r \<times> sharded_cuckoo_table) option" where
  "with_shard sip s key f = do {
     shard \<leftarrow> mem_rd (shards s) (get_shard_index sip key);
     (r, shard') \<leftarrow> f shard;
     Some (r, s\<lparr>shards := (shards s)[get_shard_index sip key := shard']\<rparr>)
   }"

definition sharded_insert :: "sip_hash \<Rightarrow> sharded_cuckoo_table \<Rightarrow> string \<Rightarrow> secret_entry \<Rightarrow> (bool \<times> sharded_cuckoo_table) option" where
  "sharded_insert sip s key entry = with_shard sip s key (\<lambda>t. cuckoo_insert sip t key entry)"

definition sharded_lookup :: "sip_hash \<Rightarrow> sharded_cuckoo_table \<Rightarrow> string \<Rightarrow> (secret_entry option \<times> sharded_cuckoo_table) option" where
  "sharded_lookup sip s key = with_shard sip s key (\<lambda>t. cuckoo_lookup sip t key)"

definition sharded_lookup_map :: "sip_hash \<Rightarrow> sharded_cuckoo_table \<Rightarrow> string \<Rightarrow> (secret_entry \<Rightarrow> 'r) \<Rightarrow> ('r option \<times> sharded_cuckoo_table) option" where
  "sharded_lookup_map sip s key f = with_shard sip s key (\<lambda>t. cuckoo_lookup_map sip t key f)"

definition sharded_remove :: "sip_hash \<Rightarrow> sharded_cuckoo_table \<Rightarrow> string \<Rightarrow> (bool \<times> sharded_cuckoo_table) option" where
  "sharded_remove sip s key = with_shard sip s key (\<lambda>t. cuckoo_remove sip t key)"

fun shard_entries :: "cuckoo_table list \<Rightarrow> secret_entry list option" where
  "shard_entries [] = Some []"
| "shard_entries (t # ts) = do {
     es \<leftarrow> cuckoo_get_all_entries t;
     rest \<leftarrow> shard_entries ts;
     Some (es @ rest)
   }"

definition sharded_get_all_entries :: "sharded_cuckoo_table \<Rightarrow> secret_entry list option" where
  "sharded_get_all_entries s = shard_entries (shards s)"

definition add_stats :: "memory_stats \<Rightarrow> memory_stats \<Rightarrow> memory_stats" where
  "add_stats acc stats =
     \<lparr>bucket_count = bucket_count acc + bucket_count stats,
      storage_capacity = storage_capacity acc + storage_capacity stats,
      storage_used = storage_used acc + storage_used stats,
      ms_free_list_size = ms_free_list_size acc + ms_free_list_size stats,
      bucket_memory_bytes = bucket_memory_bytes acc + bucket_memory_bytes stats,
      storage_memory_bytes = storage_memory_bytes acc + storage_memory_bytes stats,
      total_memory_allocated = total_memory_allocated acc + total_memory_allocated stats\<rparr>"

definition zero_stats :: memory_stats where
  "zero_stats = \<lparr>bucket_count = 0, storage_capacity = 0, storage_used = 0, ms_free_list_size = 0,
     bucket_memory_bytes = 0, storage_memory_bytes = 0, total_memory_allocated = 0\<rparr>"

definition sharded_get_memory_stats :: "sharded_cuckoo_table \<Rightarrow> memory_stats" where
  "sharded_get_memory_stats s = foldl (\<lambda>acc shard. add_stats acc (cuckoo_get_memory_stats shard)) zero_stats (shards s)"

definition get_shard_stats :: "sharded_cuckoo_table \<Rightarrow> memory_stats list" where
  "get_shard_stats s = map cuckoo_get_memory_stats (shards s)"

subsection \<open>Routing and the invariant\<close>

definition sharded_view :: "sip_hash \<Rightarrow> sharded_cuckoo_table \<Rightarrow> string \<Rightarrow> bytes option" where
  "sharded_view sip s key = cuckoo_view sip (shards s ! get_shard_index sip key) key"

definition routed :: "sip_hash \<Rightarrow> nat \<Rightarrow> cuckoo_table \<Rightarrow> bool" where
  "routed sip i t \<longleftrightarrow> cuckoo_inv sip t \<and> (\<forall>k \<in> dom (cuckoo_view sip t). get_shard_index sip k = i)"

definition sharded_inv :: "sip_hash \<Rightarrow> sharded_cuckoo_table \<Rightarrow> bool" where
  "sharded_inv sip s \<longleftrightarrow> length (shards s) = NUM_SHARDS \<and> (\<forall>i < NUM_SHARDS. routed sip i (shards s ! i))"

lemma get_shard_index_mod: "get_shard_index sip key = unat (hash1_full sip key) mod NUM_SHARDS"
proof -
  have "(63 :: u64) = mask 6" by (simp add: mask_eq_exp_minus_1)
  then have "get_shard_index sip key = unat (take_bit 6 (hash1_full sip key))"
    by (simp add: get_shard_index_def hash1_full_def NUM_SHARDS_def take_bit_eq_mask)
  then show ?thesis by (simp add: take_bit_eq_mod unat_mod_distrib NUM_SHARDS_def)
qed

lemma get_shard_index_lt: "get_shard_index sip key < NUM_SHARDS"
  by (simp add: get_shard_index_mod NUM_SHARDS_def)

lemma shard_of_key:
  assumes "sharded_inv sip s"
  shows "routed sip (get_shard_index sip key) (shards s ! get_shard_index sip key)"
    and "cuckoo_inv sip (shards s ! get_shard_index sip key)"
  using assms get_shard_index_lt[of sip key] by (simp_all add: sharded_inv_def routed_def)

lemma with_shard_spec:
  assumes i: "sharded_inv sip s" and f: "f (shards s ! get_shard_index sip key) = Some (r, t')"
    and t': "cuckoo_inv sip t'" "dom (cuckoo_view sip t') \<subseteq> insert key (dom (cuckoo_view sip (shards s ! get_shard_index sip key)))"
  shows "\<exists>s'. with_shard sip s key f = Some (r, s') \<and> sharded_inv sip s'
    \<and> sharded_view sip s' = (\<lambda>k. if get_shard_index sip k = get_shard_index sip key then cuckoo_view sip t' k else sharded_view sip s k)"
proof -
  let ?i = "get_shard_index sip key"
  let ?s = "s\<lparr>shards := (shards s)[?i := t']\<rparr>"
  have len: "length (shards s) = NUM_SHARDS" using i by (simp add: sharded_inv_def)
  have "routed sip ?i t'" using shard_of_key(1)[OF i, of key] t' unfolding routed_def by blast
  then have "routed sip j ((shards s)[?i := t'] ! j)" if "j < NUM_SHARDS" for j
    using i that by (cases "j = ?i") (simp_all add: sharded_inv_def)
  then have "sharded_inv sip ?s" using len by (simp add: sharded_inv_def)
  moreover have "with_shard sip s key f = Some (r, ?s)"
    using f get_shard_index_lt len by (simp add: with_shard_def mem_rd_in)
  moreover have "sharded_view sip ?s k = (if get_shard_index sip k = ?i then cuckoo_view sip t' k else sharded_view sip s k)" for k
    using get_shard_index_lt len by (simp add: sharded_view_def nth_list_update)
  ultimately show ?thesis by blast
qed

subsection \<open>Construction\<close>

lemma new_shards_spec:
  assumes "0 < b" "b \<le> 2 ^ 50" "min m (b * 16 * 90 div 100) \<le> 2 ^ 32 - 1"
  shows "\<exists>ts. new_shards n b m = Some ts \<and> length ts = n
    \<and> (\<forall>t \<in> set ts. cuckoo_inv sip t \<and> cuckoo_view sip t = Map.empty \<and> capacity (ct_state t) = b
        \<and> max_capacity (ct_state t) = min m (b * 16 * 90 div 100))"
proof (induction n)
  case (Suc n)
  obtain t where t: "cuckoo_new b m = Some t" "cuckoo_inv sip t" "cuckoo_view sip t = Map.empty"
    "max_capacity (ct_state t) = min m (b * 16 * 90 div 100)" using cuckoo_new_inv[OF assms] by blast
  moreover have "capacity (ct_state t) = b"
    using t(1) by (auto simp: cuckoo_new_def unsafe_cuckoo_new_def Let_def split: if_splits bind_splits)
  ultimately show ?case using Suc by auto
qed simp

lemma sharded_new_spec:
  assumes "total_capacity \<le> 2 ^ 36"
  shows "\<exists>s. sharded_new total_capacity = Some s \<and> sharded_inv sip s \<and> sharded_view sip s = Map.empty
    \<and> (\<forall>t \<in> set (shards s). capacity (ct_state t) = max 64 (total_capacity div 512)
         \<and> max_capacity (ct_state t) \<le> total_capacity div 64 * 2)"
proof -
  let ?items = "total_capacity div 64"
  define b where "b = (if ?items div 8 < 64 then 64 else ?items div 8)"
  have b: "b = max 64 (total_capacity div 512)" by (simp add: b_def div_mult2_eq[symmetric])
  have it: "?items \<le> 2 ^ 30" using div_le_mono[OF assms, of 64] by simp
  have w: "usize_wrap (?items * 2) = ?items * 2" using it by (simp add: usize_wrap_def)
  have m: "min (?items * 2) (b * 16 * 90 div 100) \<le> 2 ^ 32 - 1" using it by simp
  have "0 < b" "b \<le> 2 ^ 50" using it by (auto simp: b_def)
  from new_shards_spec[OF this m, of NUM_SHARDS sip] obtain ts where ts: "new_shards NUM_SHARDS b (?items * 2) = Some ts"
    "length ts = NUM_SHARDS" and p: "\<forall>t \<in> set ts. cuckoo_inv sip t \<and> cuckoo_view sip t = Map.empty
      \<and> capacity (ct_state t) = b \<and> max_capacity (ct_state t) = min (?items * 2) (b * 16 * 90 div 100)" by blast
  have n: "sharded_new total_capacity = Some \<lparr>shards = ts\<rparr>"
    using ts(1) w by (simp add: sharded_new_def Let_def NUM_SHARDS_def flip: b_def)
  have q: "cuckoo_inv sip (ts ! i) \<and> cuckoo_view sip (ts ! i) = Map.empty" if "i < NUM_SHARDS" for i
    using p that ts(2) nth_mem by metis
  have "sharded_inv sip \<lparr>shards = ts\<rparr>" using q ts(2) by (simp add: sharded_inv_def routed_def)
  moreover have "sharded_view sip \<lparr>shards = ts\<rparr> = Map.empty"
    using q get_shard_index_lt by (simp add: sharded_view_def fun_eq_iff)
  ultimately show ?thesis using n p b by (intro exI[of _ "\<lparr>shards = ts\<rparr>"]) simp
qed

subsection \<open>Operations\<close>

lemma sharded_insert_spec:
  assumes i: "sharded_inv sip s"
  shows "\<exists>ok s' L. sharded_insert sip s key e = Some (ok, s') \<and> sharded_inv sip s'
    \<and> sharded_view sip s' = forget L ((sharded_view sip s)(key \<mapsto> entry_payload e))
    \<and> finite L \<and> card L \<le> (if ok then 1 else 2) \<and> (ok \<longrightarrow> key \<notin> L)
    \<and> (\<forall>k \<in> L. get_shard_index sip k = get_shard_index sip key)"
proof -
  let ?i = "get_shard_index sip key" and ?t = "shards s ! get_shard_index sip key"
  note ti = shard_of_key(2)[OF i, of key]
  obtain ok t' L where r: "cuckoo_insert sip ?t key e = Some (ok, t')" "cuckoo_inv sip t'"
    and v: "content (ct_state t') = forget L ((content (ct_state ?t))(key \<mapsto> entry_payload e))"
    and L: "finite L" "card L \<le> (if ok then 1 else 2)" "ok \<longrightarrow> key \<notin> L"
    using cuckoo_insert_spec[OF ti, of key e] unfolding inserted_def by blast
  have v': "cuckoo_view sip t' = forget L ((cuckoo_view sip ?t)(key \<mapsto> entry_payload e))"
    unfolding cuckoo_view_content[OF ti] cuckoo_view_content[OF r(2)] by (rule v)
  have d: "dom (cuckoo_view sip t') \<subseteq> insert key (dom (cuckoo_view sip ?t))"
    by (auto simp: v' forget_def split: if_splits)
  obtain s' where s': "sharded_insert sip s key e = Some (ok, s')" "sharded_inv sip s'"
    "sharded_view sip s' = (\<lambda>k. if get_shard_index sip k = ?i then cuckoo_view sip t' k else sharded_view sip s k)"
    unfolding sharded_insert_def
    using with_shard_spec[OF i, of "\<lambda>t. cuckoo_insert sip t key e", OF r d] by blast
  let ?L = "{k \<in> L. get_shard_index sip k = ?i}"
  have "sharded_view sip s' = forget ?L ((sharded_view sip s)(key \<mapsto> entry_payload e))"
    by (auto simp: fun_eq_iff s'(3) v' forget_def sharded_view_def)
  moreover have "card ?L \<le> card L" by (rule card_mono[OF L(1)]) auto
  ultimately show ?thesis
    using s'(1,2) L by (intro exI[of _ ok] exI[of _ s'] exI[of _ ?L]) auto
qed

lemma sharded_lookup_map_spec:
  assumes i: "sharded_inv sip s"
  shows "\<exists>s'. sharded_lookup_map sip s key f = Some (map_option (\<lambda>p. f (fresh_entry key p)) (sharded_view sip s key), s')
    \<and> sharded_inv sip s' \<and> sharded_view sip s' = sharded_view sip s"
proof -
  let ?t = "shards s ! get_shard_index sip key"
  note ti = shard_of_key(2)[OF i, of key]
  obtain r t' where r: "cuckoo_lookup_map sip ?t key f = Some (r, t')" "cuckoo_inv sip t'"
    "content (ct_state t') = content (ct_state ?t)"
    "case content (ct_state ?t) key of None \<Rightarrow> r = None
     | Some p \<Rightarrow> r = Some (f \<lparr>entry_key = key, entry_payload = p, entry_referenced = True\<rparr>)"
    using cuckoo_lookup_map_spec[OF ti, of key f] by blast
  have v: "cuckoo_view sip t' = cuckoo_view sip ?t"
    unfolding cuckoo_view_content[OF ti] cuckoo_view_content[OF r(2)] by (rule r(3))
  have "r = map_option (\<lambda>p. f (fresh_entry key p)) (sharded_view sip s key)"
    using r(4) by (simp add: sharded_view_def cuckoo_view_content[OF ti] fresh_entry_def split: option.splits)
  moreover obtain s' where "sharded_lookup_map sip s key f = Some (r, s')" "sharded_inv sip s'"
    "sharded_view sip s' = (\<lambda>k. if get_shard_index sip k = get_shard_index sip key then cuckoo_view sip t' k else sharded_view sip s k)"
    unfolding sharded_lookup_map_def
    using with_shard_spec[OF i, of "\<lambda>t. cuckoo_lookup_map sip t key f", OF r(1,2)] v by auto
  ultimately show ?thesis by (simp add: v fun_eq_iff) (simp add: sharded_view_def)
qed

lemma sharded_remove_spec:
  assumes i: "sharded_inv sip s"
  shows "\<exists>s'. sharded_remove sip s key = Some (sharded_view sip s key \<noteq> None, s') \<and> sharded_inv sip s'
    \<and> sharded_view sip s' = (sharded_view sip s)(key := None)"
proof -
  let ?t = "shards s ! get_shard_index sip key"
  obtain t' where r: "cuckoo_remove sip ?t key = Some (cuckoo_view sip ?t key \<noteq> None, t')" "cuckoo_inv sip t'"
    and v: "cuckoo_view sip t' = (cuckoo_view sip ?t)(key := None)"
    using cuckoo_rm_law[OF shard_of_key(2)[OF i, of key], of key] by blast
  obtain s' where "sharded_remove sip s key = Some (cuckoo_view sip ?t key \<noteq> None, s')" "sharded_inv sip s'"
    "sharded_view sip s' = (\<lambda>k. if get_shard_index sip k = get_shard_index sip key then cuckoo_view sip t' k else sharded_view sip s k)"
    unfolding sharded_remove_def
    using with_shard_spec[OF i, of "\<lambda>t. cuckoo_remove sip t key", OF r] v by auto
  then show ?thesis by (auto simp: v fun_eq_iff sharded_view_def)
qed

subsection \<open>The cache contract\<close>

definition sharded_ins :: "sip_hash \<Rightarrow> sharded_cuckoo_table cache_ins" where
  "sharded_ins sip s k p = sharded_insert sip s k (fresh_entry k p)"

definition sharded_lk :: "sip_hash \<Rightarrow> sharded_cuckoo_table cache_lk" where
  "sharded_lk sip s k = sharded_lookup_map sip s k entry_payload"

lemma sharded_ins_law:
  assumes "sharded_inv sip s"
  shows "\<exists>ok s'. sharded_ins sip s k p = Some (ok, s') \<and> sharded_inv sip s'
    \<and> sharded_view sip s' \<subseteq>\<^sub>m (sharded_view sip s)(k \<mapsto> p) \<and> (ok \<longrightarrow> sharded_view sip s' k = Some p)"
proof -
  obtain ok s' L where r: "sharded_ins sip s k p = Some (ok, s')" "sharded_inv sip s'" "ok \<longrightarrow> k \<notin> L"
    and v: "sharded_view sip s' = forget L ((sharded_view sip s)(k \<mapsto> p))"
    using sharded_insert_spec[OF assms, of k "fresh_entry k p"] by (auto simp: sharded_ins_def fresh_entry_def)
  have "sharded_view sip s' \<subseteq>\<^sub>m (sharded_view sip s)(k \<mapsto> p)" unfolding v by (rule forget_map_le)
  moreover have "ok \<longrightarrow> sharded_view sip s' k = Some p" using r(3) by (simp add: v forget_def)
  ultimately show ?thesis using r(1,2) by blast
qed

lemma sharded_lk_law:
  assumes "sharded_inv sip s"
  shows "\<exists>s'. sharded_lk sip s k = Some (sharded_view sip s k, s') \<and> sharded_inv sip s'
    \<and> sharded_view sip s' = sharded_view sip s"
  using sharded_lookup_map_spec[OF assms, of k entry_payload]
  by (simp add: sharded_lk_def fresh_entry_def option.map_ident)

interpretation st: lossy_cache "sharded_inv sip" "sharded_view sip" "sharded_ins sip" "sharded_lk sip" "sharded_remove sip"
  for sip
  by unfold_locales (rule sharded_ins_law sharded_lk_law sharded_remove_spec, assumption)+

text \<open>
  C15: After any sequence of insertions, lookups and removals on a new sharded table, no call has panicked or left
  its memory, and every lookup answered what a plain map would have answered, or nothing.
\<close>

theorem sharded_history:
  assumes "total_capacity \<le> 2 ^ 36" "sharded_new total_capacity = Some s"
  shows "\<exists>rs s'. cache_run (sharded_ins sip) (sharded_lk sip) (sharded_remove sip) s ops = Some (rs, s')
    \<and> sharded_inv sip s' \<and> list_all2 hit_or_miss rs (map_run Map.empty ops)"
proof -
  have "sharded_inv sip s" "sharded_view sip s \<subseteq>\<^sub>m Map.empty"
    using sharded_new_spec[OF assms(1), of sip] assms(2) by auto
  then show ?thesis by (rule st.run_hit_or_miss)
qed

theorem sharded_history_witness:
  "\<exists>s rs s'. sharded_new 1024 = Some s
    \<and> cache_run (sharded_ins (\<lambda>_ _ _. 0)) (sharded_lk (\<lambda>_ _ _. 0)) (sharded_remove (\<lambda>_ _ _. 0)) s
        [Cache_Insert ''k'' ''v'', Cache_Remove ''k'', Cache_Lookup ''k''] = Some (rs, s')
    \<and> list_all2 hit_or_miss rs [(''k'', None)]"
proof -
  obtain s where s: "sharded_new 1024 = Some s" using sharded_new_spec[of 1024] by auto
  show ?thesis
    using sharded_history[of 1024 s "\<lambda>_ _ _. 0" "[Cache_Insert ''k'' ''v'', Cache_Remove ''k'', Cache_Lookup ''k'']"] s
    by auto
qed

subsection \<open>The scan of all shards\<close>

lemma dom_answers: "dom (answers es) = entry_key ` set es"
  by (simp add: answers_def dom_map_of_conv_image_fst image_image)

lemma answers_append: "answers (xs @ ys) = answers ys ++ answers xs"
  by (simp add: answers_def)

definition view_from :: "sip_hash \<Rightarrow> nat \<Rightarrow> cuckoo_table list \<Rightarrow> string \<Rightarrow> bytes option" where
  "view_from sip n ts k =
     (let i = get_shard_index sip k in if n \<le> i \<and> i < n + length ts then cuckoo_view sip (ts ! (i - n)) k else None)"

lemma view_from_Cons:
  assumes "routed sip n t"
  shows "view_from sip n (t # ts) = view_from sip (Suc n) ts ++ cuckoo_view sip t"
proof
  fix k
  show "view_from sip n (t # ts) k = (view_from sip (Suc n) ts ++ cuckoo_view sip t) k"
  proof (cases "get_shard_index sip k = n")
    case True
    then show ?thesis by (simp add: view_from_def map_add_def split: option.splits)
  next
    case False
    then have "cuckoo_view sip t k = None" using assms by (auto simp: routed_def dom_def)
    then show ?thesis using False
      by (cases "n \<le> get_shard_index sip k") (auto simp: view_from_def map_add_def Let_def nth_Cons')
  qed
qed

lemma shard_entries_spec:
  assumes "\<forall>j < length ts. routed sip (n + j) (ts ! j)"
  shows "\<exists>es. shard_entries ts = Some es \<and> distinct (map entry_key es) \<and> answers es = view_from sip n ts"
  using assms
proof (induction ts arbitrary: n)
  case Nil
  then show ?case by (auto simp: answers_def view_from_def Let_def fun_eq_iff)
next
  case (Cons t ts)
  have t: "routed sip n t" using Cons.prems by auto
  then obtain es where es: "cuckoo_get_all_entries t = Some es" "distinct (map entry_key es)" "answers es = cuckoo_view sip t"
    using get_all_entries_spec[of sip t] unfolding routed_def by blast
  have "\<forall>j < length ts. routed sip (Suc n + j) (ts ! j)" using Cons.prems by auto
  from Cons.IH[OF this] obtain es' where es': "shard_entries ts = Some es'" "distinct (map entry_key es')"
    "answers es' = view_from sip (Suc n) ts" by blast
  have "get_shard_index sip k = n" if "k \<in> entry_key ` set es" for k
    using that t es(3) unfolding dom_answers[symmetric] routed_def by simp
  moreover have "get_shard_index sip k \<noteq> n" if "k \<in> entry_key ` set es'" for k
    using that es'(3) unfolding dom_answers[symmetric] by (auto simp: view_from_def Let_def split: if_splits)
  ultimately have "entry_key ` set es \<inter> entry_key ` set es' = {}" by blast
  then have "distinct (map entry_key (es @ es'))" using es(2) es'(2) by simp
  then show ?case
    using es es' by (simp add: view_from_Cons[OF t] answers_append)
qed

text \<open>
  The scan of all shards returns exactly one entry for every key that a lookup would find, with the payload the
  lookup would return, and no other entry: no key is held by two shards.
\<close>

lemma sharded_get_all_entries_ok:
  assumes "sharded_inv sip s"
  shows "\<exists>es. sharded_get_all_entries s = Some es \<and> distinct (map entry_key es) \<and> answers es = sharded_view sip s"
proof -
  have "view_from sip 0 (shards s) = sharded_view sip s"
    using assms get_shard_index_lt by (simp add: fun_eq_iff view_from_def sharded_view_def sharded_inv_def)
  then show ?thesis
    using shard_entries_spec[of "shards s" sip 0] assms by (simp add: sharded_get_all_entries_def sharded_inv_def)
qed

subsection \<open>Routing and the first hash\<close>

text \<open>
  C37: The shard of a key and its first bucket come from the same hash: when the number of buckets of a shard is a
  multiple of 64, all keys of a shard together use at most one in 64 of the buckets of its \<open>table_1\<close>.
\<close>

theorem shard_buckets_skewed:
  assumes "64 dvd cap" "0 < cap"
  shows "card ((\<lambda>key. unat (hash1_full sip key) mod cap) ` {key. get_shard_index sip key = i}) \<le> cap div 64"
proof -
  let ?B = "(\<lambda>key. unat (hash1_full sip key) mod cap) ` {key. get_shard_index sip key = i}"
  have "?B \<subseteq> (\<lambda>q. 64 * q + i) ` {..<cap div 64}"
  proof
    fix b assume "b \<in> ?B"
    then obtain key where b: "b = unat (hash1_full sip key) mod cap" and k: "unat (hash1_full sip key) mod 64 = i"
      by (auto simp: get_shard_index_mod NUM_SHARDS_def)
    have "b mod 64 = i" using k assms(1) by (simp add: b mod_mod_cancel)
    then have "b = 64 * (b div 64) + i" using mult_div_mod_eq[of 64 b] by simp
    moreover have "b div 64 < cap div 64"
      using assms b by (metis dvd_div_mult_self less_mult_imp_div_less mod_less_divisor)
    ultimately show "b \<in> (\<lambda>q. 64 * q + i) ` {..<cap div 64}" by blast
  qed
  from card_mono[OF _ this] show ?thesis
    using card_image_le[of "{..<cap div 64}" "\<lambda>q. 64 * q + i"] by simp
qed

theorem shard_buckets_skewed_witness:
  "card ((\<lambda>key. unat (hash1_full (\<lambda>_ _ _. 0) key) mod 512) ` {key. get_shard_index (\<lambda>_ _ _. 0) key = 0}) \<le> 8"
  using shard_buckets_skewed[of 512 "\<lambda>_ _ _. 0" 0] by simp

end
