(* ===== verification/BTree_Index.thy ===== *)
theory BTree_Index
  imports Kallisto_Prelude
begin

text \<open>
  The B-tree of paths of \<^verbatim>\<open>src/engine/btree_index.rs\<close> and the manager of
  \<^verbatim>\<open>src/engine/tls_btree_manager.rs\<close> that guards one such tree by a lock. A result \<open>None\<close> is a panic:
  an index out of the range of a vector, \<open>remove\<close> or \<open>insert\<close> behind its end, \<open>unwrap\<close> on an empty one.
  Strings are compared as Rust compares them, byte by byte.
\<close>

subsection \<open>Data\<close>

datatype node = Node (is_leaf_node: bool) (path_keys: "string list") (child_nodes: "node list")

record btree_index =
  root_node :: node
  min_degree :: nat

definition node_new :: "bool \<Rightarrow> node" where
  "node_new is_leaf = Node is_leaf [] []"

definition btree_new :: "nat \<Rightarrow> btree_index" where
  "btree_new degree = \<lparr>root_node = node_new True, min_degree = degree\<rparr>"

text \<open>\<open>2 * min_degree - 1\<close>, at 64 bits.\<close>

definition max_keys :: "nat \<Rightarrow> nat" where
  "max_keys d = usize_wrap (2 * d + (2 ^ 64 - 1))"

text \<open>\<^verbatim>\<open>Vec::remove\<close> and \<^verbatim>\<open>Vec::insert\<close>.\<close>

definition vec_remove :: "'a list \<Rightarrow> nat \<Rightarrow> ('a \<times> 'a list) option" where
  "vec_remove xs i = (if i < length xs then Some (xs ! i, take i xs @ drop (Suc i) xs) else None)"

definition vec_insert :: "'a list \<Rightarrow> nat \<Rightarrow> 'a \<Rightarrow> 'a list option" where
  "vec_insert xs i x = (if i \<le> length xs then Some (take i xs @ x # drop i xs) else None)"

subsection \<open>Search\<close>

text \<open>The loop that skips the keys smaller than the path, from \<open>index\<close> 0.\<close>

fun scan_up :: "string \<Rightarrow> string list \<Rightarrow> nat" where
  "scan_up key [] = 0"
| "scan_up key (k # ks) = (if key > k then Suc (scan_up key ks) else 0)"

fun height :: "node \<Rightarrow> nat" where
  "height (Node l ks cs) = Suc (foldr max (map height cs) 0)"

lemma le_foldr_max: "c \<in> set cs \<Longrightarrow> f c \<le> foldr max (map f cs) (0 :: nat)"
  by (induction cs) auto

lemma foldr_max_le: "(\<And>c. c \<in> set cs \<Longrightarrow> f c \<le> n) \<Longrightarrow> foldr max (map f cs) (0 :: nat) \<le> n"
  by (induction cs) auto

lemma height_child: "c \<in> set cs \<Longrightarrow> height c < height (Node l ks cs)"
  using le_foldr_max[of c cs height] by simp

lemma height_subset:
  assumes "set cs' \<subseteq> set cs"
  shows "height (Node l' ks' cs') \<le> height (Node l ks cs)"
  using foldr_max_le[of cs' height "foldr max (map height cs) 0"] le_foldr_max[of _ cs height] assms by auto

declare Option.bind_cong [fundef_cong]

function contains_path_recursive :: "node \<Rightarrow> string \<Rightarrow> bool option" where
  "contains_path_recursive (Node leaf ks cs) key =
     (let index = scan_up key ks in
      if index < length ks \<and> ks ! index = key then Some True
      else if leaf then Some False
      else do {
        c \<leftarrow> mem_rd cs index;
        contains_path_recursive c key
      })"
  by pat_completeness auto
termination
  by (relation "measure (height \<circ> fst)") (auto simp del: height.simps simp: mem_rd_Some_iff intro: height_child)

definition validate_path :: "btree_index \<Rightarrow> string \<Rightarrow> bool option" where
  "validate_path t key = contains_path_recursive (root_node t) key"

subsection \<open>Enumeration\<close>

function collect_paths_recursive :: "node \<Rightarrow> string list option"
  and collect_children :: "nat \<Rightarrow> nat \<Rightarrow> node \<Rightarrow> string list option" where
  "collect_paths_recursive (Node leaf ks cs) =
     (if leaf then Some ks
      else do {
        paths \<leftarrow> collect_children (length ks) 0 (Node leaf ks cs);
        c \<leftarrow> (if cs = [] then None else Some (last cs));
        rest \<leftarrow> collect_paths_recursive c;
        Some (paths @ rest)
      })"
| "collect_children 0 i n = Some []"
| "collect_children (Suc m) i (Node leaf ks cs) = do {
     c \<leftarrow> mem_rd cs i;
     paths \<leftarrow> collect_paths_recursive c;
     k \<leftarrow> mem_rd ks i;
     rest \<leftarrow> collect_children m (Suc i) (Node leaf ks cs);
     Some (paths @ k # rest)
   }"
  by pat_completeness auto
termination
  by (relation "inv_image (less_than <*lex*> less_than)
        (\<lambda>x. case x of Inl n \<Rightarrow> (height n, Suc (length (path_keys n))) | Inr (m, i, n) \<Rightarrow> (height n, m))")
     (auto simp del: height.simps simp: mem_rd_Some_iff intro: height_child split: if_splits)

definition btree_get_all_paths :: "btree_index \<Rightarrow> string list option" where
  "btree_get_all_paths t = collect_paths_recursive (root_node t)"

subsection \<open>Insertion\<close>

text \<open>The loop that moves \<open>n\<close> elements at position \<open>d\<close> to the new sibling.\<close>

fun move_out :: "nat \<Rightarrow> nat \<Rightarrow> 'a list \<Rightarrow> 'a list \<Rightarrow> ('a list \<times> 'a list) option" where
  "move_out 0 d xs ys = Some (xs, ys)"
| "move_out (Suc n) d xs ys = do {
     (x, xs') \<leftarrow> vec_remove xs d;
     move_out n d xs' (ys @ [x])
   }"

definition split_child_node :: "nat \<Rightarrow> node \<Rightarrow> nat \<Rightarrow> node option" where
  "split_child_node d parent_node child_index = do {
     child \<leftarrow> mem_rd (child_nodes parent_node) child_index;
     (ks, sib_ks) \<leftarrow> move_out (d - 1) d (path_keys child) [];
     (cs, sib_cs) \<leftarrow> (if is_leaf_node child then Some (child_nodes child, [])
                      else move_out d d (child_nodes child) []);
     (middle_key, ks') \<leftarrow> vec_remove ks (d - 1);
     children \<leftarrow> vec_insert ((child_nodes parent_node)[child_index := Node (is_leaf_node child) ks' cs])
                   (child_index + 1) (Node (is_leaf_node child) sib_ks sib_cs);
     keys \<leftarrow> vec_insert (path_keys parent_node) child_index middle_key;
     Some (Node (is_leaf_node parent_node) keys children)
   }"

text \<open>
  The two loops that run down from the last key, with the source's \<open>index + 1\<close> as the counter: the one of
  a leaf moves the larger keys up by one and writes the new one, the other only looks for the position.
\<close>

fun shift_insert :: "string \<Rightarrow> string list \<Rightarrow> nat \<Rightarrow> string list option" where
  "shift_insert key ks 0 = mem_wr ks 0 key"
| "shift_insert key ks (Suc i) = do {
     k \<leftarrow> mem_rd ks i;
     (if key < k then do {
        ks' \<leftarrow> mem_wr ks (Suc i) k;
        shift_insert key ks' i
      }
      else mem_wr ks (Suc i) key)
   }"

fun scan_down :: "string \<Rightarrow> string list \<Rightarrow> nat \<Rightarrow> nat option" where
  "scan_down key ks 0 = Some 0"
| "scan_down key ks (Suc i) = do {
     k \<leftarrow> mem_rd ks i;
     (if key < k then scan_down key ks i else Some (Suc i))
   }"

text \<open>The child to descend into, after splitting it when it is full.\<close>

definition descend :: "nat \<Rightarrow> node \<Rightarrow> string \<Rightarrow> (node \<times> nat) option" where
  "descend d current_node key = do {
     u_index \<leftarrow> scan_down key (path_keys current_node) (length (path_keys current_node));
     child \<leftarrow> mem_rd (child_nodes current_node) u_index;
     (if length (path_keys child) = max_keys d then do {
        current' \<leftarrow> split_child_node d current_node u_index;
        k \<leftarrow> mem_rd (path_keys current') u_index;
        Some (current', if key > k then u_index + 1 else u_index)
      }
      else Some (current_node, u_index))
   }"

lemma vec_remove_set: "vec_remove xs i = Some (x, xs') \<Longrightarrow> x \<in> set xs \<and> set xs' \<subseteq> set xs"
  by (auto simp: vec_remove_def split: if_splits dest: in_set_takeD in_set_dropD)

lemma move_out_set: "move_out n d xs ys = Some (xs', ys') \<Longrightarrow> set xs' \<subseteq> set xs \<and> set ys' \<subseteq> set ys \<union> set xs"
proof (induction n arbitrary: xs ys)
  case (Suc n)
  then obtain x zs where z: "vec_remove xs d = Some (x, zs)" "move_out n d zs (ys @ [x]) = Some (xs', ys')"
    by (auto split: bind_splits)
  from Suc.IH[OF z(2)] vec_remove_set[OF z(1)] show ?case by auto
qed simp

lemma vec_insert_set: "vec_insert xs i x = Some ys \<Longrightarrow> set ys \<subseteq> insert x (set xs)"
  by (auto simp: vec_insert_def split: if_splits dest: in_set_takeD in_set_dropD)

lemma split_child_height:
  assumes "split_child_node d n i = Some n'" "c \<in> set (child_nodes n')"
  shows "height c < height n"
proof -
  obtain l ks cs where n: "n = Node l ks cs" by (cases n)
  obtain cl cks ccs where ch: "mem_rd cs i = Some (Node cl cks ccs)"
    using assms(1) n by (auto simp: split_child_node_def split: bind_splits) (metis node.exhaust)
  then have mem: "Node cl cks ccs \<in> set cs" by (metis mem_rd_Some_iff nth_mem)
  obtain ks1 ks2 cs1 cs2 where mv: "(if cl then Some (ccs, []) else move_out d d ccs []) = Some (cs1, cs2)"
    and ins: "vec_insert (cs[i := Node cl ks1 cs1]) (i + 1) (Node cl ks2 cs2) = Some (child_nodes n')"
  proof -
    from assms(1) n ch have "\<exists>ks1 ks2 cs1 cs2. (if cl then Some (ccs, []) else move_out d d ccs []) = Some (cs1, cs2)
      \<and> vec_insert (cs[i := Node cl ks1 cs1]) (Suc i) (Node cl ks2 cs2) = Some (child_nodes n')"
      unfolding split_child_node_def by (cases cl; clarsimp simp: Option.bind_eq_Some_conv; blast)
    then show ?thesis using that by auto
  qed
  have sub: "set cs1 \<subseteq> set ccs" "set cs2 \<subseteq> set ccs" using mv move_out_set[of d d ccs "[]" cs1 cs2] by (simp_all split: if_splits)
  have "c \<in> insert (Node cl ks2 cs2) (insert (Node cl ks1 cs1) (set cs))"
    using vec_insert_set[OF ins] set_update_subset_insert[of cs i "Node cl ks1 cs1"] assms(2) by auto
  moreover have "height (Node cl ks' cs') < height n" if "set cs' \<subseteq> set ccs" for ks' cs'
    using height_subset[OF that] height_child[OF mem] n by (meson le_less_trans)
  ultimately show ?thesis using sub height_child[of c cs] n by auto
qed

lemma descend_height:
  assumes "descend d n key = Some (n', i)" "mem_rd (child_nodes n') i = Some c"
  shows "height c < height n"
proof -
  have c: "c \<in> set (child_nodes n')" using assms(2) by (auto simp: mem_rd_Some_iff)
  consider "n' = n" | u where "split_child_node d n u = Some n'"
    using assms(1) by (auto simp: descend_def split: bind_splits if_splits)
  then show ?thesis
  proof cases
    case 1
    then show ?thesis using c by (cases n) (auto simp del: height.simps intro: height_child)
  next
    case 2
    from split_child_height[OF this c] show ?thesis .
  qed
qed

function insert_into_non_full_node :: "nat \<Rightarrow> node \<Rightarrow> string \<Rightarrow> node option" where
  "insert_into_non_full_node d current_node key =
     (if is_leaf_node current_node then do {
        ks \<leftarrow> shift_insert key (path_keys current_node @ [[]]) (length (path_keys current_node));
        Some (Node True ks (child_nodes current_node))
      }
      else do {
        (current', index) \<leftarrow> descend d current_node key;
        c \<leftarrow> mem_rd (child_nodes current') index;
        c' \<leftarrow> insert_into_non_full_node d c key;
        Some (Node (is_leaf_node current') (path_keys current') ((child_nodes current')[index := c']))
      })"
  by pat_completeness auto
termination
  by (relation "measure (\<lambda>(d, n, k). height n)") (auto simp del: height.simps intro: descend_height)

declare insert_into_non_full_node.simps [simp del]

definition insert_path :: "btree_index \<Rightarrow> string \<Rightarrow> (bool \<times> btree_index) option" where
  "insert_path t key = do {
     found \<leftarrow> validate_path t key;
     (if found then Some (True, t)
      else if length (path_keys (root_node t)) = max_keys (min_degree t) then do {
        new_root \<leftarrow> split_child_node (min_degree t) (Node False [] [root_node t]) 0;
        root \<leftarrow> insert_into_non_full_node (min_degree t) new_root key;
        Some (True, t\<lparr>root_node := root\<rparr>)
      }
      else do {
        root \<leftarrow> insert_into_non_full_node (min_degree t) (root_node t) key;
        Some (True, t\<lparr>root_node := root\<rparr>)
      })
   }"

subsection \<open>The manager\<close>

record tls_btree_manager =
  master_btree :: btree_index

definition tls_btree_new :: "nat \<Rightarrow> tls_btree_manager" where
  "tls_btree_new degree = \<lparr>master_btree = btree_new degree\<rparr>"

definition tls_get_all_paths :: "tls_btree_manager \<Rightarrow> string list option" where
  "tls_get_all_paths m = btree_get_all_paths (master_btree m)"

definition insert_path_if_absent :: "tls_btree_manager \<Rightarrow> string \<Rightarrow> (bool \<times> tls_btree_manager) option" where
  "insert_path_if_absent m key = do {
     found \<leftarrow> validate_path (master_btree m) key;
     (if found then Some (False, m)
      else do {
        (_, t) \<leftarrow> insert_path (master_btree m) key;
        Some (True, m\<lparr>master_btree := t\<rparr>)
      })
   }"

end
