(* ===== verification/BTree_Correct.thy ===== *)
theory BTree_Correct
  imports BTree_Index
begin

text \<open>
  The B-tree is a sorted list: \<open>inorder\<close> is its abstraction, \<open>wf_node d h n\<close> says that \<open>n\<close> has height \<open>h\<close>
  everywhere and respects the bounds on the number of keys. Searching is membership, inserting is
  \<open>insort\<close>, splitting changes nothing, and no operation panics.
\<close>

subsection \<open>Abstraction and invariant\<close>

fun interleave :: "'a list list \<Rightarrow> 'a list \<Rightarrow> 'a list" where
  "interleave [] ks = []"
| "interleave (x # xs) [] = x"
| "interleave (x # xs) (k # ks) = x @ k # interleave xs ks"

fun inorder :: "node \<Rightarrow> string list" where
  "inorder (Node leaf ks cs) = (if leaf then ks else interleave (map inorder cs) ks)"

fun wf_node :: "nat \<Rightarrow> nat \<Rightarrow> node \<Rightarrow> bool" where
  "wf_node d 0 (Node leaf ks cs) \<longleftrightarrow> leaf \<and> cs = [] \<and> length ks \<le> 2 * d - 1"
| "wf_node d (Suc h) (Node leaf ks cs) \<longleftrightarrow>
     \<not> leaf \<and> length cs = Suc (length ks) \<and> length ks \<le> 2 * d - 1
     \<and> (\<forall>c \<in> set cs. wf_node d h c \<and> d - 1 \<le> length (path_keys c))"

definition degree_ok :: "nat \<Rightarrow> bool" where
  "degree_ok d \<longleftrightarrow> 2 \<le> d \<and> 2 * d < 2 ^ 64"

definition btree_height :: "btree_index \<Rightarrow> nat \<Rightarrow> bool" where
  "btree_height t h \<longleftrightarrow> wf_node (min_degree t) h (root_node t) \<and> (0 < h \<longrightarrow> path_keys (root_node t) \<noteq> [])"

definition btree_inv :: "btree_index \<Rightarrow> bool" where
  "btree_inv t \<longleftrightarrow> degree_ok (min_degree t) \<and> (\<exists>h. btree_height t h) \<and> sorted_wrt (<) (inorder (root_node t))"

lemma max_keys_eq: "degree_ok d \<Longrightarrow> max_keys d = 2 * d - 1"
proof -
  assume d: "degree_ok d"
  then have e: "2 * d + (2 ^ 64 - 1) = 2 ^ 64 + (2 * d - 1)" by (simp add: degree_ok_def)
  have "2 * d - 1 < 2 ^ 64" using d unfolding degree_ok_def by linarith
  then show ?thesis unfolding max_keys_def usize_wrap_def e mod_add_self1 by (rule mod_less)
qed

subsection \<open>Interleaved lists\<close>

definition front :: "'a list list \<Rightarrow> 'a list \<Rightarrow> 'a list" where
  "front xs ks = concat (map2 (\<lambda>x k. x @ [k]) xs ks)"

lemma interleave_append:
  "length xs = length ks \<Longrightarrow> interleave (xs @ y # ys) (ks @ ks') = front xs ks @ interleave (y # ys) ks'"
  by (induction xs ks rule: list_induct2) (simp_all add: front_def)

lemma interleave_mid:
  "length xs = Suc (length ks) \<Longrightarrow> interleave (xs @ ys) (ks @ m # ks') = interleave xs ks @ m # interleave ys ks'"
proof (induction ks arbitrary: xs)
  case Nil
  then obtain x where "xs = [x]" by (cases xs) auto
  then show ?case by simp
next
  case (Cons k ks)
  then obtain x xs' where x: "xs = x # xs'" by (cases xs) auto
  have "interleave (xs' @ ys) (ks @ m # ks') = interleave xs' ks @ m # interleave ys ks'"
    by (rule Cons.IH) (use Cons.prems x in simp)
  then show ?case by (simp add: x)
qed

lemma interleave_head: "interleave ((a @ m # b) # xs) ks = a @ m # interleave (b # xs) ks"
  by (cases ks) simp_all

definition left_part :: "nat \<Rightarrow> string list \<Rightarrow> node list \<Rightarrow> string list" where
  "left_part i ks cs = front (map inorder (take i cs)) (take i ks)"

definition right_part :: "nat \<Rightarrow> string list \<Rightarrow> node list \<Rightarrow> string list" where
  "right_part i ks cs = (if i < length ks then ks ! i # interleave (map inorder (drop (Suc i) cs)) (drop (Suc i) ks) else [])"

lemma interleave_right: "i \<le> length ks \<Longrightarrow> interleave (x # map inorder (drop (Suc i) cs)) (drop i ks) = x @ right_part i ks cs"
  by (cases "i < length ks") (simp_all add: right_part_def flip: Cons_nth_drop_Suc)

lemma inorder_at:
  assumes "length cs = Suc (length ks)" "i \<le> length ks"
  shows "inorder (Node False ks cs) = left_part i ks cs @ inorder (cs ! i) @ right_part i ks cs"
proof -
  have "map inorder cs = map inorder (take i cs) @ inorder (cs ! i) # map inorder (drop (Suc i) cs)"
    using assms by (metis id_take_nth_drop le_imp_less_Suc list.simps(9) map_append)
  moreover have "interleave (map inorder (take i cs) @ inorder (cs ! i) # map inorder (drop (Suc i) cs)) (take i ks @ drop i ks)
      = left_part i ks cs @ inorder (cs ! i) @ right_part i ks cs"
    by (subst interleave_append) (use assms in \<open>simp_all add: left_part_def interleave_right\<close>)
  ultimately show ?thesis by simp
qed

lemma parts_update [simp]:
  "left_part i ks (cs[i := c]) = left_part i ks cs" "right_part i ks (cs[i := c]) = right_part i ks cs"
  by (simp_all add: left_part_def right_part_def)

lemma left_part_last:
  assumes "i \<le> length ks" "i \<le> length cs" "0 < i"
  shows "\<exists>L. left_part i ks cs = L @ [ks ! (i - 1)]"
proof -
  obtain j where j: "i = Suc j" using assms(3) by (cases i) auto
  have "take i ks = take j ks @ [ks ! j]" "take i cs = take j cs @ [cs ! j]"
    using assms by (simp_all add: j take_Suc_conv_app_nth)
  then show ?thesis using assms by (simp add: left_part_def front_def j)
qed

lemma left_part_0 [simp]: "left_part 0 ks cs = []"
  by (simp add: left_part_def front_def)

lemma left_part_less:
  assumes s: "sorted_wrt (<) (left_part i ks cs @ ys)" and i: "i \<le> length ks" "i \<le> length cs"
    and k: "0 < i \<Longrightarrow> ks ! (i - 1) < (key :: string)"
  shows "\<forall>x \<in> set (left_part i ks cs). x < key"
proof (cases "i = 0")
  case False
  then obtain L where L: "left_part i ks cs = L @ [ks ! (i - 1)]" using left_part_last[of i ks cs] i by blast
  have "\<forall>x \<in> set L. x < ks ! (i - 1)" using s by (simp add: L sorted_wrt_append)
  then show ?thesis using k False by (fastforce simp: L)
qed simp

lemma right_part_greater:
  assumes s: "sorted_wrt (<) (ys @ right_part i ks cs)" and k: "i < length ks \<Longrightarrow> (key :: string) < ks ! i"
  shows "\<forall>x \<in> set (right_part i ks cs). key < x"
proof (cases "i < length ks")
  case True
  then obtain R where R: "right_part i ks cs = ks ! i # R" by (simp add: right_part_def)
  have "\<forall>x \<in> set R. ks ! i < x" using s by (simp add: R sorted_wrt_append)
  then show ?thesis using k True by (fastforce simp: R)
qed (simp add: right_part_def)

subsection \<open>Search and enumeration\<close>

lemma scan_up_spec:
  "scan_up key ks \<le> length ks \<and> (0 < scan_up key ks \<longrightarrow> ks ! (scan_up key ks - 1) < key)
   \<and> (scan_up key ks < length ks \<longrightarrow> key \<le> ks ! scan_up key ks)"
  by (induction ks) (auto simp: nth_Cons')

lemma sorted_leaf_scan:
  assumes "sorted_wrt (<) ks"
  shows "key \<in> set ks \<longleftrightarrow> scan_up key ks < length ks \<and> ks ! scan_up key ks = key"
  using assms by (induction ks) force+

lemma wf_nodeE:
  assumes "wf_node d (Suc h) n"
  obtains ks cs where "n = Node False ks cs" "length cs = Suc (length ks)" "length ks \<le> 2 * d - 1"
    "\<And>c. c \<in> set cs \<Longrightarrow> wf_node d h c" "\<And>c. c \<in> set cs \<Longrightarrow> d - 1 \<le> length (path_keys c)"
  using assms by (cases n) auto

lemma wf_leafE:
  assumes "wf_node d 0 n"
  obtains ks where "n = Node True ks []" "length ks \<le> 2 * d - 1"
  using assms by (cases n) auto

lemma contains_path_spec:
  assumes "wf_node d h n" "sorted_wrt (<) (inorder n)"
  shows "contains_path_recursive n key = Some (key \<in> set (inorder n))"
  using assms
proof (induction h arbitrary: n)
  case 0
  then obtain ks where "n = Node True ks []" by (auto elim: wf_leafE)
  then show ?case using sorted_leaf_scan[of ks key] 0 by (simp add: Let_def)
next
  case (Suc h)
  obtain ks cs where n: "n = Node False ks cs" and len: "length cs = Suc (length ks)"
    and c: "\<And>c. c \<in> set cs \<Longrightarrow> wf_node d h c" using Suc.prems(1) by (elim wf_nodeE) blast
  define i where "i = scan_up key ks"
  have i: "i \<le> length ks" "0 < i \<longrightarrow> ks ! (i - 1) < key" "i < length ks \<longrightarrow> key \<le> ks ! i"
    using scan_up_spec[of key ks] by (simp_all add: i_def)
  have io: "inorder n = left_part i ks cs @ inorder (cs ! i) @ right_part i ks cs"
    unfolding n by (rule inorder_at[OF len i(1)])
  note s = Suc.prems(2)[unfolded io]
  show ?case
  proof (cases "i < length ks \<and> ks ! i = key")
    case True
    then have "key \<in> set (inorder n)" by (simp add: io right_part_def)
    then show ?thesis using True by (simp add: n Let_def flip: i_def del: inorder.simps)
  next
    case False
    have l: "key \<notin> set (left_part i ks cs)" using left_part_less[OF s i(1), of key] i len by auto
    have r: "key \<notin> set (right_part i ks cs)"
      using right_part_greater[of "left_part i ks cs @ inorder (cs ! i)" i ks cs key] s i(3) False by fastforce
    have "contains_path_recursive (cs ! i) key = Some (key \<in> set (inorder (cs ! i)))"
      by (rule Suc.IH) (use c len i(1) s in \<open>auto simp: sorted_wrt_append\<close>)
    then show ?thesis
      using False l r len i(1) io by (auto simp: n Let_def mem_rd_in simp flip: i_def simp del: inorder.simps)
  qed
qed

lemma collect_children_spec:
  assumes "\<And>c. c \<in> set cs \<Longrightarrow> collect_paths_recursive c = Some (inorder c)" "length cs = Suc (length ks)"
    and "i + m \<le> length ks"
  shows "collect_children m i (Node l ks cs) = Some (front (map inorder (take m (drop i cs))) (take m (drop i ks)))"
  using assms(3)
proof (induction m arbitrary: i)
  case (Suc m)
  then have i: "i < length ks" "i < length cs" using assms(2) by simp_all
  have "take (Suc m) (drop i ks) = ks ! i # take m (drop (Suc i) ks)"
    "take (Suc m) (drop i cs) = cs ! i # take m (drop (Suc i) cs)"
    using i by (simp_all flip: Cons_nth_drop_Suc)
  then show ?case using Suc i assms(1)[OF nth_mem] by (simp add: mem_rd_in front_def)
qed (simp add: front_def)

lemma collect_paths_spec:
  assumes "wf_node d h n"
  shows "collect_paths_recursive n = Some (inorder n)"
  using assms
proof (induction h arbitrary: n)
  case 0
  then show ?case by (auto elim!: wf_leafE)
next
  case (Suc h)
  obtain ks cs where n: "n = Node False ks cs" and len: "length cs = Suc (length ks)"
    and c: "\<And>c. c \<in> set cs \<Longrightarrow> wf_node d h c" using Suc.prems by (elim wf_nodeE) blast
  have "cs \<noteq> []" using len by auto
  then have "cs \<noteq> []" "last cs = cs ! length ks" "last cs \<in> set cs" using len by (simp_all add: last_conv_nth)
  then show ?case
    using inorder_at[OF len order_refl] collect_children_spec[OF Suc.IH[OF c] len, of 0 "length ks" False] Suc.IH[OF c, of "last cs"]
    by (simp add: n left_part_def right_part_def del: inorder.simps)
qed

subsection \<open>Splitting a full child\<close>

lemma move_out_spec:
  "n + d \<le> length xs \<Longrightarrow> move_out n d xs ys = Some (take d xs @ drop (d + n) xs, ys @ take n (drop d xs))"
proof (induction n arbitrary: xs ys)
  case (Suc n)
  then have d: "d < length xs" by simp
  let ?xs = "take d xs @ drop (Suc d) xs"
  have "move_out n d ?xs (ys @ [xs ! d]) = Some (take d ?xs @ drop (d + n) ?xs, (ys @ [xs ! d]) @ take n (drop d ?xs))"
    by (rule Suc.IH) (use Suc.prems in simp)
  moreover have "take d ?xs = take d xs" "drop (d + n) ?xs = drop (d + Suc n) xs" "drop d ?xs = drop (Suc d) xs"
    using d by (simp_all add: min_def add.commute)
  moreover have "xs ! d # take n (drop (Suc d) xs) = take (Suc n) (drop d xs)"
    using d by (simp flip: Cons_nth_drop_Suc)
  ultimately show ?case using d by (simp add: vec_remove_def)
qed simp

text \<open>The two halves of a full node.\<close>

definition lower_half :: "nat \<Rightarrow> node \<Rightarrow> node" where
  "lower_half d c = Node (is_leaf_node c) (take (d - 1) (path_keys c)) (if is_leaf_node c then child_nodes c else take d (child_nodes c))"

definition upper_half :: "nat \<Rightarrow> node \<Rightarrow> node" where
  "upper_half d c = Node (is_leaf_node c) (drop d (path_keys c)) (if is_leaf_node c then [] else drop d (child_nodes c))"

definition split_parent :: "nat \<Rightarrow> node \<Rightarrow> nat \<Rightarrow> node" where
  "split_parent d n i =
     (let c = child_nodes n ! i in
      Node (is_leaf_node n) (take i (path_keys n) @ path_keys c ! (d - 1) # drop i (path_keys n))
        (take i (child_nodes n) @ lower_half d c # upper_half d c # drop (Suc i) (child_nodes n)))"

lemma split_child_node_spec:
  assumes d: "1 \<le> d" and i: "i < length (child_nodes n)" "i \<le> length (path_keys n)"
    and full: "length (path_keys (child_nodes n ! i)) = 2 * d - 1"
    and cs: "\<not> is_leaf_node (child_nodes n ! i) \<Longrightarrow> length (child_nodes (child_nodes n ! i)) = 2 * d"
  shows "split_child_node d n i = Some (split_parent d n i)"
proof -
  let ?c = "child_nodes n ! i"
  have ks: "move_out (d - 1) d (path_keys ?c) [] = Some (take d (path_keys ?c), drop d (path_keys ?c))"
  proof -
    have "d + (d - 1) = length (path_keys ?c)" using d full by simp
    then show ?thesis using move_out_spec[of "d - 1" d "path_keys ?c" "[]"] by simp
  qed
  have ch: "(if is_leaf_node ?c then Some (child_nodes ?c, []) else move_out d d (child_nodes ?c) [])
    = Some (child_nodes (lower_half d ?c), child_nodes (upper_half d ?c))"
    using move_out_spec[of d d "child_nodes ?c" "[]"] cs by (simp add: lower_half_def upper_half_def)
  have mid: "vec_remove (take d (path_keys ?c)) (d - 1) = Some (path_keys ?c ! (d - 1), take (d - 1) (path_keys ?c))"
    using d full by (simp add: vec_remove_def)
  have upd: "take (Suc i) ((child_nodes n)[i := x]) = take i (child_nodes n) @ [x]" for x
    using i by (simp add: take_Suc_conv_app_nth)
  show ?thesis
    unfolding split_child_node_def
    using i mem_rd_in[OF i(1)] by (simp add: ks ch mid vec_insert_def upd split_parent_def Let_def del: One_nat_def)
      (simp add: lower_half_def upper_half_def upd)
qed

lemma split_keys:
  assumes "1 \<le> d" "length ks = 2 * d - 1"
  shows "ks = take (d - 1) ks @ ks ! (d - 1) # drop d ks"
  using id_take_nth_drop[of "d - 1" ks] assms by simp

lemma inorder_halves:
  assumes d: "1 \<le> d" and full: "length (path_keys c) = 2 * d - 1" and wf: "wf_node d h c"
  shows "inorder c = inorder (lower_half d c) @ path_keys c ! (d - 1) # inorder (upper_half d c)"
proof -
  obtain l ks cs where c: "c = Node l ks cs" by (cases c)
  have ks: "ks = take (d - 1) ks @ ks ! (d - 1) # drop d ks" using split_keys[OF d, of ks] full c by simp
  show ?thesis
  proof (cases l)
    case True
    then show ?thesis using ks by (simp add: c lower_half_def upper_half_def)
  next
    case False
    then have len: "length cs = 2 * d" using wf full d by (cases h) (auto simp: c)
    have "interleave (map inorder (take d cs) @ map inorder (drop d cs)) (take (d - 1) ks @ ks ! (d - 1) # drop d ks) =
      interleave (map inorder (take d cs)) (take (d - 1) ks) @ ks ! (d - 1) # interleave (map inorder (drop d cs)) (drop d ks)"
      by (rule interleave_mid) (use len full c d in simp)
    then show ?thesis using False ks
      by (simp add: c lower_half_def upper_half_def flip: map_append)
  qed
qed

lemma wf_halves:
  assumes d: "1 \<le> d" and full: "length (path_keys c) = 2 * d - 1" and wf: "wf_node d h c"
  shows "wf_node d h (lower_half d c)" "wf_node d h (upper_half d c)"
    "length (path_keys (lower_half d c)) = d - 1" "length (path_keys (upper_half d c)) = d - 1"
proof -
  show "length (path_keys (lower_half d c)) = d - 1" "length (path_keys (upper_half d c)) = d - 1"
    using d full by (simp_all add: lower_half_def upper_half_def)
  show "wf_node d h (lower_half d c)" "wf_node d h (upper_half d c)"
    using wf full d by (cases c; cases h; auto simp: lower_half_def upper_half_def dest: in_set_takeD in_set_dropD)+
qed

lemma inorder_split_parent:
  assumes d: "1 \<le> d" and n: "n = Node False ks cs" and len: "length cs = Suc (length ks)" and i: "i \<le> length ks"
    and full: "length (path_keys (cs ! i)) = 2 * d - 1" and wf: "wf_node d h (cs ! i)"
  shows "inorder (split_parent d n i) = inorder n"
proof -
  let ?c = "cs ! i"
  have "inorder (split_parent d n i) =
    interleave (map inorder (take i cs) @ inorder (lower_half d ?c) # inorder (upper_half d ?c) # map inorder (drop (Suc i) cs))
      (take i ks @ path_keys ?c ! (d - 1) # drop i ks)"
    by (simp add: split_parent_def Let_def n)
  also have "\<dots> = left_part i ks cs @ inorder (lower_half d ?c) @ path_keys ?c ! (d - 1) #
      interleave (inorder (upper_half d ?c) # map inorder (drop (Suc i) cs)) (drop i ks)"
    by (subst interleave_append) (use len i in \<open>simp_all add: left_part_def\<close>)
  also have "\<dots> = left_part i ks cs @ interleave (inorder ?c # map inorder (drop (Suc i) cs)) (drop i ks)"
    unfolding inorder_halves[OF d full wf] interleave_head by simp
  also have "\<dots> = inorder n" unfolding n inorder_at[OF len i] interleave_right[OF i] ..
  finally show ?thesis .
qed

lemma wf_split_parent:
  assumes d: "1 \<le> d" and wf: "wf_node d (Suc h) (Node False ks cs)" and i: "i \<le> length ks"
    and room: "length ks < 2 * d - 1" and full: "length (path_keys (cs ! i)) = 2 * d - 1"
  shows "wf_node d (Suc h) (split_parent d (Node False ks cs) i)"
proof -
  have c: "wf_node d h (cs ! i)" and len: "length cs = Suc (length ks)" using wf i by auto
  note h = wf_halves[OF d full c]
  show ?thesis
    using wf room len i h by (auto simp: split_parent_def Let_def dest: in_set_takeD in_set_dropD)
qed

subsection \<open>Insertion\<close>

lemma insort_left: "\<forall>x \<in> set L. x < (key :: string) \<Longrightarrow> insort key (L @ xs) = L @ insort key xs"
  by (induction L) auto

lemma insort_right: "\<forall>x \<in> set R. (key :: string) < x \<Longrightarrow> insort key (xs @ R) = insort key xs @ R"
  by (induction xs) (cases R, auto)

lemma shift_insert_spec:
  assumes "sorted_wrt (<) ks" "key \<notin> set ks"
  shows "shift_insert key (ks @ e # zs) (length ks) = Some (insort key ks @ zs)"
  using assms
proof (induction ks arbitrary: e zs rule: rev_induct)
  case Nil
  then show ?case by (simp add: mem_wr_in)
next
  case (snoc k ks)
  have lt: "\<forall>x \<in> set ks. x < k" and s: "sorted_wrt (<) ks" using snoc.prems by (simp_all add: sorted_wrt_append)
  show ?case
  proof (cases "key < k")
    case True
    have "shift_insert key (ks @ k # k # zs) (length ks) = Some (insort key ks @ k # zs)"
      using snoc.IH[of k "k # zs"] snoc.prems s by simp
    then show ?thesis using True insort_right[of "[k]" key ks]
      by (simp add: mem_rd_in mem_wr_in nth_append list_update_append)
  next
    case False
    then have "k < key" using snoc.prems(2) by auto
    then have "\<forall>x \<in> set (ks @ [k]). x < key" using lt by auto
    then have "insort key (ks @ [k]) = ks @ [k, key]" using insort_left[of "ks @ [k]" key "[]"] by simp
    then show ?thesis using False by (simp add: mem_rd_in mem_wr_in nth_append list_update_append)
  qed
qed

lemma scan_down_spec:
  assumes "n \<le> length ks"
  shows "\<exists>i. scan_down key ks n = Some i \<and> i \<le> n \<and> (0 < i \<longrightarrow> ks ! (i - 1) \<le> key) \<and> (i < n \<longrightarrow> key < ks ! i)"
  using assms
proof (induction n)
  case (Suc n)
  then obtain i where i: "scan_down key ks n = Some i" "i \<le> n" "0 < i \<longrightarrow> ks ! (i - 1) \<le> key" "i < n \<longrightarrow> key < ks ! i" by auto
  show ?case
  proof (cases "key < ks ! n")
    case True
    then have "scan_down key ks (Suc n) = Some i" using i Suc.prems by (simp add: mem_rd_in)
    moreover have "key < ks ! i" using i True by (cases "i = n") simp_all
    ultimately show ?thesis using i by (intro exI[of _ i]) simp
  next
    case False
    then show ?thesis using Suc.prems by (simp add: mem_rd_in)
  qed
qed simp

text \<open>The child that the descent picks: it has room, and the path belongs between its neighbours.\<close>

definition target :: "nat \<Rightarrow> string \<Rightarrow> node \<Rightarrow> nat \<Rightarrow> bool" where
  "target d key n i \<longleftrightarrow>
     i \<le> length (path_keys n) \<and> length (path_keys (child_nodes n ! i)) < 2 * d - 1
     \<and> (\<forall>x \<in> set (left_part i (path_keys n) (child_nodes n)). x < key)
     \<and> (\<forall>x \<in> set (right_part i (path_keys n) (child_nodes n)). key < x)"

lemma targetI:
  assumes len: "length cs = Suc (length ks)" and s: "sorted_wrt (<) (inorder (Node False ks cs))" and i: "i \<le> length ks"
    and room: "length (path_keys (cs ! i)) < 2 * d - 1"
    and l: "0 < i \<Longrightarrow> ks ! (i - 1) < key" and r: "i < length ks \<Longrightarrow> key < ks ! i"
  shows "target d key (Node False ks cs) i"
proof -
  note s' = s[unfolded inorder_at[OF len i]]
  have "\<forall>x \<in> set (left_part i ks cs). x < key"
    by (rule left_part_less[OF s']) (use i len l in simp_all)
  moreover have "\<forall>x \<in> set (right_part i ks cs). key < x"
    by (rule right_part_greater[of "left_part i ks cs @ inorder (cs ! i)"]) (use s' r in simp_all)
  ultimately show ?thesis using i room by (simp add: target_def)
qed

lemma set_keys_inorder:
  assumes "wf_node d (Suc h) n" "k \<in> set (path_keys n)"
  shows "k \<in> set (inorder n)"
proof -
  obtain ks cs where n: "n = Node False ks cs" "length cs = Suc (length ks)"
    using assms(1) by (elim wf_nodeE) blast
  then obtain i where "i < length ks" "k = ks ! i" using assms(2) by (auto simp: in_set_conv_nth)
  then show ?thesis using inorder_at[OF n(2), of i] by (simp add: n(1) right_part_def del: inorder.simps)
qed

text \<open>After a full child was split the key goes below or above the key that moved up, to a half with room.\<close>

lemma target_split:
  assumes d1: "1 \<le> d" and n: "n = Node False ks cs" "length cs = Suc (length ks)" "u \<le> length ks"
    and full: "length (path_keys (cs ! u)) = 2 * d - 1" and c: "wf_node d h (cs ! u)"
    and wf': "wf_node d (Suc h) (split_parent d n u)" and s: "sorted_wrt (<) (inorder (split_parent d n u))"
    and new: "key \<notin> set (inorder (split_parent d n u))"
    and u: "0 < u \<Longrightarrow> ks ! (u - 1) < key" "u < length ks \<Longrightarrow> key < ks ! u"
  shows "target d key (split_parent d n u) (if key > path_keys (cs ! u) ! (d - 1) then u + 1 else u)"
proof -
  let ?m = "path_keys (cs ! u) ! (d - 1)"
  obtain ks' cs' where n': "split_parent d n u = Node False ks' cs'" and len': "length cs' = Suc (length ks')"
    and ks': "ks' = take u ks @ ?m # drop u ks" and cs': "cs' = take u cs @ lower_half d (cs ! u) # upper_half d (cs ! u) # drop (Suc u) cs"
    using n by (simp add: split_parent_def Let_def)
  have m: "?m \<noteq> key" using set_keys_inorder[OF wf', of ?m] new n' ks' by auto
  have at: "ks' ! u = ?m" "u < length ks'" "cs' ! u = lower_half d (cs ! u)" "cs' ! Suc u = upper_half d (cs ! u)"
    "\<And>j. j < u \<Longrightarrow> ks' ! j = ks ! j" "u < length ks \<Longrightarrow> ks' ! Suc u = ks ! u" "length ks' = Suc (length ks)"
    using n by (simp_all add: ks' cs' nth_append min_def)
  let ?i = "if key > ?m then u + 1 else u"
  have small: "d - 1 < 2 * d - 1" using d1 by simp
  show ?thesis unfolding n'
  proof (intro targetI[OF len'])
    show "sorted_wrt (<) (inorder (Node False ks' cs'))" using s n' by simp
    show "length (path_keys (cs' ! ?i)) < 2 * d - 1" using wf_halves(3,4)[OF d1 full c] small by (simp add: at)
    show "ks' ! (?i - 1) < key" if "0 < ?i" using that u(1) m at by (cases "key > ?m") simp_all
    show "key < ks' ! ?i" if "?i < length ks'" using that m u(2) at by (cases "key > ?m") auto
  qed (use at n(3) in simp)
qed

lemma descend_spec:
  assumes d: "degree_ok d" and wf: "wf_node d (Suc h) n" and s: "sorted_wrt (<) (inorder n)"
    and room: "length (path_keys n) < 2 * d - 1" and new: "key \<notin> set (inorder n)"
  shows "\<exists>n' i. descend d n key = Some (n', i) \<and> wf_node d (Suc h) n' \<and> inorder n' = inorder n
    \<and> length (path_keys n) \<le> length (path_keys n') \<and> target d key n' i"
proof -
  obtain ks cs where n: "n = Node False ks cs" and len: "length cs = Suc (length ks)"
    and c: "\<And>c. c \<in> set cs \<Longrightarrow> wf_node d h c" using wf by (elim wf_nodeE) blast
  have d1: "1 \<le> d" using d by (simp add: degree_ok_def)
  have neq: "k \<noteq> key" if "k \<in> set ks" for k using set_keys_inorder[OF wf, of k] that new n by auto
  obtain u where u: "scan_down key ks (length ks) = Some u" "u \<le> length ks"
    "0 < u \<longrightarrow> ks ! (u - 1) \<le> key" "u < length ks \<longrightarrow> key < ks ! u" using scan_down_spec[of "length ks" ks key] by auto
  have l: "ks ! (u - 1) < key" if "0 < u" using u(2,3) that neq[of "ks ! (u - 1)"] by simp
  have ch: "mem_rd cs u = Some (cs ! u)" "wf_node d h (cs ! u)" using u(2) len c by (simp_all add: mem_rd_in)
  have le: "length (path_keys (cs ! u)) \<le> 2 * d - 1" using ch(2) by (cases "cs ! u"; cases h) auto
  show ?thesis
  proof (cases "length (path_keys (cs ! u)) = 2 * d - 1")
    case False
    then have "target d key n u"
      unfolding n by (intro targetI[OF len]) (use s n u l le in auto)
    moreover have "descend d n key = Some (n, u)"
      using False u(1) ch(1) by (simp add: descend_def n max_keys_eq[OF d])
    ultimately show ?thesis using wf by blast
  next
    case True
    let ?n = "split_parent d n u" and ?m = "path_keys (cs ! u) ! (d - 1)"
    have two: "\<not> is_leaf_node (cs ! u) \<Longrightarrow> length (child_nodes (cs ! u)) = 2 * d"
      using ch(2) True d1 by (cases "cs ! u"; cases h) auto
    have sp: "split_child_node d n u = Some ?n"
      by (rule split_child_node_spec[OF d1]) (use n u(2) len True two in auto)
    have wf': "wf_node d (Suc h) ?n"
      unfolding n by (rule wf_split_parent[OF d1 _ u(2) _ True]) (use wf room n in simp_all)
    have io: "inorder ?n = inorder n" by (rule inorder_split_parent[OF d1 n len u(2) True ch(2)])
    let ?i = "if key > ?m then u + 1 else u"
    have "target d key ?n ?i"
      by (rule target_split[OF d1 n len u(2) True ch(2) wf']) (use s new io l u(4) in simp_all)
    moreover obtain ks' cs' where n': "?n = Node False ks' cs'" "ks' = take u ks @ ?m # drop u ks" by (simp add: split_parent_def n Let_def)
    moreover have "descend d n key = Some (?n, ?i)"
      using u(1,2) ch(1) True sp n' by (simp add: descend_def max_keys_eq[OF d] n mem_rd_in nth_append min_def)
    ultimately show ?thesis using wf' io n u(2) by auto
  qed
qed

lemma inorder_set_child:
  assumes "wf_node d (Suc h) n" "i \<le> length (path_keys n)"
  shows "inorder (Node False (path_keys n) ((child_nodes n)[i := c])) =
    left_part i (path_keys n) (child_nodes n) @ inorder c @ right_part i (path_keys n) (child_nodes n)"
proof -
  obtain ks cs where n: "n = Node False ks cs" "length cs = Suc (length ks)" using assms(1) by (elim wf_nodeE) blast
  then show ?thesis
    using inorder_at[of "cs[i := c]" ks i] assms(2) by (simp del: inorder.simps)
qed

lemma insert_into_non_full_spec:
  assumes "degree_ok d" "wf_node d h n" "sorted_wrt (<) (inorder n)" "length (path_keys n) < 2 * d - 1" "key \<notin> set (inorder n)"
  shows "\<exists>n'. insert_into_non_full_node d n key = Some n' \<and> wf_node d h n' \<and> inorder n' = insort key (inorder n)
    \<and> length (path_keys n) \<le> length (path_keys n')"
  using assms
proof (induction h arbitrary: n)
  case 0
  then obtain ks where n: "n = Node True ks []" by (auto elim: wf_leafE)
  then have "shift_insert key (ks @ [[]]) (length ks) = Some (insort key ks)"
    using shift_insert_spec[of ks key "[]" "[]"] 0 by simp
  then show ?case using 0 n by (simp add: insert_into_non_full_node.simps[of d "Node True ks []"])
next
  case (Suc h)
  obtain n1 i where ds: "descend d n key = Some (n1, i)" and wf: "wf_node d (Suc h) n1" and io: "inorder n1 = inorder n"
    and len: "length (path_keys n) \<le> length (path_keys n1)" and tg: "target d key n1 i"
    using descend_spec[OF Suc.prems] by blast
  obtain ks cs where n1: "n1 = Node False ks cs" and lc: "length cs = Suc (length ks)" and lk: "length ks \<le> 2 * d - 1"
    and c: "\<And>c. c \<in> set cs \<Longrightarrow> wf_node d h c" "\<And>c. c \<in> set cs \<Longrightarrow> d - 1 \<le> length (path_keys c)"
    using wf by (elim wf_nodeE) blast
  have i: "i \<le> length ks" "i < length cs" using tg lc by (simp_all add: target_def n1)
  have at: "inorder n1 = left_part i ks cs @ inorder (cs ! i) @ right_part i ks cs"
    unfolding n1 by (rule inorder_at[OF lc i(1)])
  have s: "sorted_wrt (<) (inorder (cs ! i))" and new: "key \<notin> set (inorder (cs ! i))"
    using Suc.prems(3,5) unfolding io[symmetric] at by (simp_all add: sorted_wrt_append)
  obtain c' where c': "insert_into_non_full_node d (cs ! i) key = Some c'" "wf_node d h c'"
    "inorder c' = insort key (inorder (cs ! i))" "length (path_keys (cs ! i)) \<le> length (path_keys c')"
    using Suc.IH[OF Suc.prems(1) c(1)[OF nth_mem[OF i(2)]] s _ new] tg by (auto simp: target_def n1)
  let ?n = "Node False ks (cs[i := c'])"
  have "wf_node d (Suc h) ?n"
    using lc lk c c'(2,4) order_trans[OF c(2)[OF nth_mem[OF i(2)]] c'(4)] set_update_subset_insert[of cs i c'] by auto
  moreover have "inorder ?n = insort key (inorder n)"
    using inorder_set_child[OF wf, of i c'] i(1) tg
    unfolding io[symmetric] at by (simp add: n1 c'(3) target_def insort_left insort_right del: inorder.simps)
  moreover have "insert_into_non_full_node d n key = Some ?n"
  proof -
    have "\<not> is_leaf_node n" using Suc.prems(2) by (cases n) simp
    then show ?thesis using ds i(2) c'(1) by (simp add: insert_into_non_full_node.simps[of d n] n1 mem_rd_in)
  qed
  ultimately show ?case using len n1 by auto
qed

lemma new_root_spec:
  assumes d: "degree_ok d" and wf: "wf_node d h r" and full: "length (path_keys r) = 2 * d - 1"
  shows "\<exists>n. split_child_node d (Node False [] [r]) 0 = Some n \<and> wf_node d (Suc h) n \<and> inorder n = inorder r
    \<and> length (path_keys n) = 1"
proof -
  let ?p = "Node False [] [r]"
  have d1: "1 \<le> d" using d by (simp add: degree_ok_def)
  have "split_child_node d ?p 0 = Some (split_parent d ?p 0)"
    by (rule split_child_node_spec[OF d1]) (use full wf d1 in \<open>cases r; cases h; auto\<close>)+
  moreover have "wf_node d (Suc h) (split_parent d ?p 0)"
    by (rule wf_split_parent[OF d1]) (use wf full d in \<open>auto simp: degree_ok_def\<close>)
  moreover have "inorder (split_parent d ?p 0) = inorder r"
    using inorder_split_parent[OF d1 refl, of "[r]" "[]" 0 h] wf full by simp
  ultimately show ?thesis by (simp add: split_parent_def Let_def)
qed

lemma insert_path_new:
  assumes i: "btree_inv t" and new: "key \<notin> set (inorder (root_node t))"
  shows "\<exists>t'. insert_path t key = Some (True, t') \<and> btree_inv t' \<and> inorder (root_node t') = insort key (inorder (root_node t))"
proof -
  let ?d = "min_degree t" and ?r = "root_node t"
  obtain h where d: "degree_ok ?d" and wf: "wf_node ?d h ?r" and ne: "0 < h \<longrightarrow> path_keys ?r \<noteq> []" and s: "sorted_wrt (<) (inorder ?r)"
    using i by (auto simp: btree_inv_def btree_height_def)
  have v: "validate_path t key = Some False" using contains_path_spec[OF wf s] new by (simp add: validate_path_def)
  have le: "length (path_keys ?r) \<le> 2 * ?d - 1" using wf by (cases ?r; cases h) auto
  have so: "sorted_wrt (<) (insort key (inorder ?r))"
    using s new by (simp add: strict_sorted_iff sorted_insort distinct_insort)
  obtain n h' where n: "(if length (path_keys ?r) = max_keys ?d then split_child_node ?d (Node False [] [?r]) 0 else Some ?r) = Some n"
    "wf_node ?d h' n" "inorder n = inorder ?r" "length (path_keys n) < 2 * ?d - 1" "0 < h' \<longrightarrow> path_keys n \<noteq> []"
  proof (cases "length (path_keys ?r) = 2 * ?d - 1")
    case True
    obtain n where "split_child_node ?d (Node False [] [?r]) 0 = Some n" "wf_node ?d (Suc h) n" "inorder n = inorder ?r" "length (path_keys n) = 1"
      using new_root_spec[OF d wf True] by blast
    moreover have "1 < 2 * ?d - 1" using d unfolding degree_ok_def by linarith
    ultimately show ?thesis using that[of n "Suc h"] True max_keys_eq[OF d] by fastforce
  next
    case False
    then show ?thesis using that[of ?r h] wf le max_keys_eq[OF d] ne by simp
  qed
  obtain n' where n': "insert_into_non_full_node ?d n key = Some n'" "wf_node ?d h' n'" "inorder n' = insort key (inorder ?r)"
    "length (path_keys n) \<le> length (path_keys n')"
    using insert_into_non_full_spec[OF d n(2) _ n(4)] n(3) s new by auto
  let ?t = "t\<lparr>root_node := n'\<rparr>"
  have "btree_height ?t h'" using n'(2,4) n(5) by (auto simp: btree_height_def)
  then have "btree_inv ?t" using d so n'(3) by (auto simp: btree_inv_def)
  moreover have "insert_path t key = Some (True, ?t)"
    using n(1) n'(1) v by (auto simp: insert_path_def split: if_splits)
  ultimately show ?thesis using n'(3) by auto
qed

end
