(* ===== verification/Index_Interface.thy ===== *)
theory Index_Interface
  imports Kallisto_Prelude
begin

text \<open>
  The contract of an index of paths: a set of strings that grows, enumerated in order. \<open>path_index\<close> is
  what the storage engine relies on, \<open>searchable_index\<close> adds the membership test that the lock-guarded
  manager relies on. \<open>BTree_Theorems\<close> interprets both on the B-tree and the first on the manager.
\<close>

fun add_all :: "('t \<Rightarrow> string \<Rightarrow> (bool \<times> 't) option) \<Rightarrow> 't \<Rightarrow> string list \<Rightarrow> 't option" where
  "add_all add t [] = Some t"
| "add_all add t (k # ks) = do {
     (_, t') \<leftarrow> add t k;
     add_all add t' ks
   }"

locale path_index =
  fixes inv :: "'t \<Rightarrow> bool"
    and paths :: "'t \<Rightarrow> string set"
    and add :: "'t \<Rightarrow> string \<Rightarrow> (bool \<times> 't) option"
    and enum :: "'t \<Rightarrow> string list option"
  assumes add_law: "inv t \<Longrightarrow> \<exists>r t'. add t k = Some (r, t') \<and> inv t' \<and> paths t' = insert k (paths t)"
    and enum_law: "inv t \<Longrightarrow> \<exists>ks. enum t = Some ks \<and> sorted_wrt (<) ks \<and> set ks = paths t"
begin

lemma enum_sorted: "inv t \<Longrightarrow> finite (paths t) \<and> enum t = Some (sorted_list_of_set (paths t))"
proof -
  assume "inv t"
  from enum_law[OF this] obtain ks where ks: "enum t = Some ks" "sorted_wrt (<) ks" "set ks = paths t" by blast
  then have "sorted_list_of_set (paths t) = ks" using sorted_list_of_set.idem_if_sorted_distinct[of ks]
    by (simp add: strict_sorted_iff)
  then show ?thesis using ks by (metis List.finite_set)
qed

lemma add_all_law:
  assumes "inv t"
  shows "\<exists>t'. add_all add t ks = Some t' \<and> inv t' \<and> paths t' = paths t \<union> set ks"
  using assms
proof (induction ks arbitrary: t)
  case (Cons k ks)
  obtain r t1 where "add t k = Some (r, t1)" "inv t1" "paths t1 = insert k (paths t)" using add_law[OF Cons.prems] by blast
  then show ?case using Cons.IH[of t1] by auto
qed simp

lemma add_all_enum:
  assumes "inv t" "paths t = {}"
  shows "\<exists>t'. add_all add t ks = Some t' \<and> inv t' \<and> enum t' = Some (sorted_list_of_set (set ks))"
  using add_all_law[OF assms(1), of ks] enum_sorted assms(2) by fastforce

end

locale searchable_index = path_index +
  fixes member :: "'t \<Rightarrow> string \<Rightarrow> bool option"
  assumes member_law: "inv t \<Longrightarrow> member t k = Some (k \<in> paths t)"
begin

lemma add_if_absent:
  assumes "inv t"
  shows "\<exists>t'. (do { found \<leftarrow> member t k; if found then Some (False, t) else do { (_, t') \<leftarrow> add t k; Some (True, t') } })
      = Some (k \<notin> paths t, t') \<and> inv t' \<and> paths t' = insert k (paths t)"
  using add_law[OF assms, of k] member_law[OF assms, of k] assms by (cases "k \<in> paths t") auto

end

end
