(* ===== verification/BTree_Theorems.thy ===== *)
theory BTree_Theorems
  imports BTree_Correct Index_Interface
begin

text \<open>
  The B-tree and its manager as their clients see them, the interpretation of the index contracts on
  them, and the bound on the height of the tree.
\<close>

definition btree_paths :: "btree_index \<Rightarrow> string set" where
  "btree_paths t = set (inorder (root_node t))"

lemma validate_path_spec:
  assumes "btree_inv t"
  shows "validate_path t key = Some (key \<in> btree_paths t)"
  using assms contains_path_spec by (auto simp: btree_inv_def btree_height_def validate_path_def btree_paths_def)

lemma insert_path_spec:
  assumes "btree_inv t"
  shows "\<exists>t'. insert_path t key = Some (True, t') \<and> btree_inv t' \<and> btree_paths t' = insert key (btree_paths t)"
proof (cases "key \<in> btree_paths t")
  case True
  then show ?thesis using validate_path_spec[OF assms, of key] assms by (auto simp: insert_path_def)
next
  case False
  then show ?thesis using insert_path_new[OF assms, of key] by (auto simp: btree_paths_def set_insort_key)
qed

lemma get_all_paths_spec:
  assumes "btree_inv t"
  shows "\<exists>ks. btree_get_all_paths t = Some ks \<and> sorted_wrt (<) ks \<and> set ks = btree_paths t"
  using assms collect_paths_spec by (auto simp: btree_inv_def btree_height_def btree_get_all_paths_def btree_paths_def)

lemma btree_new_spec: "degree_ok d \<Longrightarrow> btree_inv (btree_new d) \<and> btree_paths (btree_new d) = {}"
  by (auto simp: btree_inv_def btree_height_def btree_new_def node_new_def btree_paths_def intro: exI[of _ 0])

interpretation bt: searchable_index btree_inv btree_paths insert_path btree_get_all_paths validate_path
proof unfold_locales
  fix t k assume i: "btree_inv t"
  show "\<exists>r t'. insert_path t k = Some (r, t') \<and> btree_inv t' \<and> btree_paths t' = insert k (btree_paths t)"
    using insert_path_spec[OF i, of k] by blast
  show "\<exists>ks. btree_get_all_paths t = Some ks \<and> sorted_wrt (<) ks \<and> set ks = btree_paths t"
    by (rule get_all_paths_spec[OF i])
  show "validate_path t k = Some (k \<in> btree_paths t)" by (rule validate_path_spec[OF i])
qed





subsection \<open>Height\<close>

lemma length_interleave: "length xs = Suc (length ks) \<Longrightarrow> length (interleave xs ks) = length ks + sum_list (map length xs)"
  by (induction xs ks rule: interleave.induct) auto

lemma sum_list_ge: "(\<And>x. x \<in> set xs \<Longrightarrow> b \<le> x) \<Longrightarrow> length xs * b \<le> sum_list (xs :: nat list)"
  by (induction xs) (auto intro: add_mono)

lemma children_size:
  assumes "length cs = Suc (length ks)" "\<And>c. c \<in> set cs \<Longrightarrow> b \<le> Suc (length (inorder c))"
  shows "length cs * b \<le> Suc (length (inorder (Node False ks cs)))"
proof -
  have "length cs * b \<le> sum_list (map (\<lambda>c. Suc (length (inorder c))) cs)"
    using sum_list_ge[of "map (\<lambda>c. Suc (length (inorder c))) cs" b] assms(2) by auto
  also have "\<dots> = length cs + sum_list (map (length \<circ> inorder) cs)" by (induction cs) auto
  also have "\<dots> = Suc (length (inorder (Node False ks cs)))"
    using assms(1) length_interleave[of "map inorder cs" ks] by simp
  finally show ?thesis .
qed

lemma node_size:
  assumes "wf_node d h n" "d - 1 \<le> length (path_keys n)" "1 \<le> d"
  shows "d ^ Suc h \<le> Suc (length (inorder n))"
  using assms
proof (induction h arbitrary: n)
  case 0
  then show ?case by (cases n) auto
next
  case (Suc h)
  obtain ks cs where n: "n = Node False ks cs" "length cs = Suc (length ks)"
    and c: "\<And>c. c \<in> set cs \<Longrightarrow> wf_node d h c" "\<And>c. c \<in> set cs \<Longrightarrow> d - 1 \<le> length (path_keys c)"
    using Suc.prems(1) by (elim wf_nodeE) blast
  have "length cs * d ^ Suc h \<le> Suc (length (inorder n))"
    unfolding n(1) by (rule children_size[OF n(2)]) (use Suc.IH c Suc.prems(3) in blast)
  moreover have "d * d ^ Suc h \<le> length cs * d ^ Suc h"
    by (rule mult_le_mono1) (use Suc.prems(2) n in simp)
  ultimately show ?case unfolding power_Suc by (rule order_trans[rotated])
qed


definition example_tree :: btree_index where
  "example_tree = \<lparr>root_node = Node False [''b''] [Node True [''a''] [], Node True [''c''] []], min_degree = 2\<rparr>"


subsection \<open>The manager\<close>

definition tls_inv :: "tls_btree_manager \<Rightarrow> bool" where
  "tls_inv m \<longleftrightarrow> btree_inv (master_btree m)"

definition tls_paths :: "tls_btree_manager \<Rightarrow> string set" where
  "tls_paths m = btree_paths (master_btree m)"

lemma insert_path_if_absent_spec:
  assumes "tls_inv m"
  shows "\<exists>m'. insert_path_if_absent m key = Some (key \<notin> tls_paths m, m') \<and> tls_inv m' \<and> tls_paths m' = insert key (tls_paths m)"
  using bt.add_if_absent[of "master_btree m" key] assms validate_path_spec[of "master_btree m" key]
  by (cases "key \<in> tls_paths m") (auto simp: insert_path_if_absent_def tls_inv_def tls_paths_def split: bind_splits)

interpretation tls: path_index tls_inv tls_paths insert_path_if_absent tls_get_all_paths
proof unfold_locales
  fix m k assume i: "tls_inv m"
  then show "\<exists>r m'. insert_path_if_absent m k = Some (r, m') \<and> tls_inv m' \<and> tls_paths m' = insert k (tls_paths m)"
    using insert_path_if_absent_spec[OF i, of k] by blast
  show "\<exists>ks. tls_get_all_paths m = Some ks \<and> sorted_wrt (<) ks \<and> set ks = tls_paths m"
    using get_all_paths_spec[of "master_btree m"] i by (simp add: tls_get_all_paths_def tls_inv_def tls_paths_def)
qed

end
