(* ===== verification/Queue_Interface.thy ===== *)
theory Queue_Interface
  imports Kallisto_Prelude
begin

text \<open>
  The contract of a bounded first-in first-out queue, for a caller that has it to itself: an insertion
  succeeds exactly when there is room, a removal returns the oldest element. \<open>drain\<close> is the loop
  \<^verbatim>\<open>while let Ok(op) = queue.dequeue()\<close> of the engine's worker.
\<close>

datatype queue_error = Full | Empty

type_synonym ('q, 'a) queue_enq = "'q \<Rightarrow> 'a \<Rightarrow> ((queue_error + unit) \<times> 'q) option"
type_synonym ('q, 'a) queue_deq = "'q \<Rightarrow> ((queue_error + 'a) \<times> 'q) option"

partial_function (option) drain :: "('q, 'a) queue_deq \<Rightarrow> 'q \<Rightarrow> 'a list \<Rightarrow> ('a list \<times> 'q) option" where
  "drain deq q acc = do {
     (r, q') \<leftarrow> deq q;
     (case r of
        Inl _ \<Rightarrow> Some (acc, q')
      | Inr x \<Rightarrow> drain deq q' (acc @ [x]))
   }"

text \<open>A sequence of calls with their answers, on a queue and on a list of at most \<open>n\<close> elements.\<close>

datatype 'a queue_op = Enq 'a | Deq

datatype 'a queue_ans = Enqueued | Dequeued 'a | Refused queue_error

fun queue_run :: "('q, 'a) queue_enq \<Rightarrow> ('q, 'a) queue_deq \<Rightarrow> 'q \<Rightarrow> 'a queue_op list \<Rightarrow> ('a queue_ans list \<times> 'q) option" where
  "queue_run enq deq q [] = Some ([], q)"
| "queue_run enq deq q (Enq v # ops) = do {
     (r, q') \<leftarrow> enq q v;
     (rs, q'') \<leftarrow> queue_run enq deq q' ops;
     Some ((case r of Inl e \<Rightarrow> Refused e | Inr _ \<Rightarrow> Enqueued) # rs, q'')
   }"
| "queue_run enq deq q (Deq # ops) = do {
     (r, q') \<leftarrow> deq q;
     (rs, q'') \<leftarrow> queue_run enq deq q' ops;
     Some ((case r of Inl e \<Rightarrow> Refused e | Inr v \<Rightarrow> Dequeued v) # rs, q'')
   }"

fun list_run :: "nat \<Rightarrow> 'a list \<Rightarrow> 'a queue_op list \<Rightarrow> 'a queue_ans list \<times> 'a list" where
  "list_run n xs [] = ([], xs)"
| "list_run n xs (Enq v # ops) =
     (if length xs < n then apfst ((#) Enqueued) (list_run n (xs @ [v]) ops)
      else apfst ((#) (Refused Full)) (list_run n xs ops))"
| "list_run n [] (Deq # ops) = apfst ((#) (Refused Empty)) (list_run n [] ops)"
| "list_run n (x # xs) (Deq # ops) = apfst ((#) (Dequeued x)) (list_run n xs ops)"

locale bounded_queue =
  fixes inv :: "'q \<Rightarrow> bool"
    and items :: "'q \<Rightarrow> 'a list"
    and cap :: "'q \<Rightarrow> nat"
    and enq :: "('q, 'a) queue_enq"
    and deq :: "('q, 'a) queue_deq"
  assumes enq_law: "inv q \<Longrightarrow> \<exists>q'. inv q' \<and> cap q' = cap q
      \<and> (if length (items q) < cap q then enq q v = Some (Inr (), q') \<and> items q' = items q @ [v]
         else enq q v = Some (Inl Full, q') \<and> items q' = items q)"
    and deq_law: "inv q \<Longrightarrow> \<exists>q'. inv q' \<and> cap q' = cap q
      \<and> (case items q of
           [] \<Rightarrow> deq q = Some (Inl Empty, q') \<and> items q' = []
         | x # xs \<Rightarrow> deq q = Some (Inr x, q') \<and> items q' = xs)"
begin

lemma drain_law:
  assumes "inv q"
  shows "\<exists>q'. drain deq q acc = Some (acc @ items q, q') \<and> inv q' \<and> items q' = [] \<and> cap q' = cap q"
  using assms
proof (induction "items q" arbitrary: q acc)
  case Nil
  then obtain q' where "inv q'" "deq q = Some (Inl Empty, q')" "items q' = []" "cap q' = cap q" using deq_law[OF Nil.prems] by auto
  then show ?case using Nil by (simp add: drain.simps)
next
  case (Cons x xs)
  obtain q' where q': "inv q'" "deq q = Some (Inr x, q')" "items q' = xs" "cap q' = cap q"
    using deq_law[OF Cons.prems] unfolding Cons.hyps(2)[symmetric] by auto
  show ?case using Cons.hyps(1)[OF q'(3)[symmetric] q'(1), of "acc @ [x]"] q' Cons.hyps(2)
    by (subst drain.simps) auto
qed

lemma run_refines:
  assumes "inv q"
  shows "\<exists>q'. queue_run enq deq q ops = Some (fst (list_run (cap q) (items q) ops), q')
    \<and> inv q' \<and> cap q' = cap q \<and> items q' = snd (list_run (cap q) (items q) ops)"
  using assms
proof (induction ops arbitrary: q)
  case (Cons op ops)
  have step: ?case
    if "inv q1" "cap q1 = cap q" and "queue_run enq deq q (op # ops) = do { (rs, q2) \<leftarrow> queue_run enq deq q1 ops; Some (a # rs, q2) }"
      and "list_run (cap q) (items q) (op # ops) = apfst ((#) a) (list_run (cap q) (items q1) ops)" for q1 a
    using Cons.IH[OF that(1)] that(2-4) by fastforce
  show ?case
  proof (cases op)
    case (Enq v)
    show ?thesis
    proof (cases "length (items q) < cap q")
      case True
      then obtain q1 where "inv q1" "cap q1 = cap q" "enq q v = Some (Inr (), q1)" "items q1 = items q @ [v]"
        using enq_law[OF Cons.prems, of v] by auto
      then show ?thesis using True Enq by (intro step[of q1 Enqueued]) simp_all
    next
      case False
      then obtain q1 where "inv q1" "cap q1 = cap q" "enq q v = Some (Inl Full, q1)" "items q1 = items q"
        using enq_law[OF Cons.prems, of v] by auto
      then show ?thesis using False Enq by (intro step[of q1 "Refused Full"]) simp_all
    qed
  next
    case Deq
    show ?thesis
    proof (cases "items q")
      case Nil
      then obtain q1 where "inv q1" "cap q1 = cap q" "deq q = Some (Inl Empty, q1)" "items q1 = []"
        using deq_law[OF Cons.prems] by auto
      then show ?thesis using Nil Deq by (intro step[of q1 "Refused Empty"]) simp_all
    next
      case (Cons x xs)
      then obtain q1 where "inv q1" "cap q1 = cap q" "deq q = Some (Inr x, q1)" "items q1 = xs"
        using deq_law[OF \<open>inv q\<close>] by auto
      then show ?thesis using Cons Deq by (intro step[of q1 "Dequeued x"]) simp_all
    qed
  qed
qed simp

end

end
