(* ===== verification/Lock_Free_Queue.thy ===== *)
theory Lock_Free_Queue
  imports Queue_Interface
begin

text \<open>
  The bounded multi-producer multi-consumer queue of \<^verbatim>\<open>src/engine/lock_free_queue.rs\<close>, at the grain of its
  atomic accesses: one step of a thread is one load, one compare-exchange, one store or one access of the
  cell's data. Loads and stores are interleaved, and each sees the latest value (the acquire and release
  orderings of \<open>sequence\<close> publish the data; weaker executions of the relaxed loads of the two positions,
  which only make a thread retry, are not modelled). A result \<open>None\<close> of a step is an index out of bounds or a
  read of data that was never written.
\<close>

unbundle bit_operations_syntax

record 'a cell =
  sequence :: u64
  data :: "'a option"

record 'a lfq =
  buffer :: "'a cell list"
  enqueue_pos :: u64
  dequeue_pos :: u64

text \<open>
  \<^verbatim>\<open>assert!(capacity.is_power_of_two())\<close> makes any other capacity a panic, and so does
  \<^verbatim>\<open>Vec::with_capacity\<close> when the nodes, of \<open>node_size\<close> bytes each, are larger than \<^verbatim>\<open>isize::MAX\<close> bytes.
\<close>

fun is_power_of_two :: "nat \<Rightarrow> bool" where
  "is_power_of_two n = (if n = 0 then False else if n = 1 then True else even n \<and> is_power_of_two (n div 2))"

declare is_power_of_two.simps [simp del]

definition lfq_new :: "nat \<Rightarrow> nat \<Rightarrow> 'a lfq option" where
  "lfq_new node_size capacity =
     (if is_power_of_two capacity \<and> capacity * node_size \<le> 2 ^ 63 - 1
      then Some \<lparr>buffer = map (\<lambda>i. \<lparr>sequence = of_nat i, data = None\<rparr>) [0..<capacity],
                 enqueue_pos = 0, dequeue_pos = 0\<rparr>
      else None)"

text \<open>
  Where a thread is in a call: before the first load of the position (\<open>Start\<close>), before the load of the
  cell's sequence (\<open>Load\<close>), before the compare-exchange (\<open>Cas\<close>), before the access of the data (\<open>Write\<close>,
  \<open>Read\<close>), before the store of the sequence (\<open>Store\<close>).
\<close>

datatype 'a pc =
    Idle
  | E_Start 'a | E_Load u64 'a | E_Cas u64 'a | E_Write u64 'a | E_Store u64
  | D_Start | D_Load u64 | D_Cas u64 | D_Read u64 | D_Store u64 'a

text \<open>What a step shows to an observer: the claim of a position, the read of a value, the return of a call.\<close>

datatype 'a event = Tau | Claim_Enq 'a | Claim_Deq u64 | Got u64 'a | Ret_Enq "queue_error option" | Ret_Deq "queue_error + 'a"

definition cell_of :: "'a lfq \<Rightarrow> u64 \<Rightarrow> nat" where
  "cell_of q pos = unat (pos AND of_nat (length (buffer q) - 1))"

text \<open>\<open>(seq as isize) - (pos as isize)\<close>, which wraps.\<close>

definition dif :: "u64 \<Rightarrow> u64 \<Rightarrow> int" where
  "dif seq pos = sint (seq - pos)"

fun pc_step :: "bool \<Rightarrow> 'a lfq \<Rightarrow> 'a pc \<Rightarrow> ('a lfq \<times> 'a pc \<times> 'a event) option" where
  "pc_step weak q Idle = Some (q, Idle, Tau)"
| "pc_step weak q (E_Start v) = Some (q, E_Load (enqueue_pos q) v, Tau)"
| "pc_step weak q (E_Load pos v) = do {
     cell \<leftarrow> mem_rd (buffer q) (cell_of q pos);
     (if dif (sequence cell) pos = 0 then Some (q, E_Cas pos v, Tau)
      else if dif (sequence cell) pos < 0 then Some (q, Idle, Ret_Enq (Some Full))
      else Some (q, E_Start v, Tau))
   }"
| "pc_step weak q (E_Cas pos v) =
     (if enqueue_pos q = pos \<and> \<not> weak
      then Some (q\<lparr>enqueue_pos := pos + 1\<rparr>, E_Write pos v, Claim_Enq v)
      else Some (q, E_Load pos v, Tau))"
| "pc_step weak q (E_Write pos v) = do {
     cell \<leftarrow> mem_rd (buffer q) (cell_of q pos);
     buf \<leftarrow> mem_wr (buffer q) (cell_of q pos) (cell\<lparr>data := Some v\<rparr>);
     Some (q\<lparr>buffer := buf\<rparr>, E_Store pos, Tau)
   }"
| "pc_step weak q (E_Store pos) = do {
     cell \<leftarrow> mem_rd (buffer q) (cell_of q pos);
     buf \<leftarrow> mem_wr (buffer q) (cell_of q pos) (cell\<lparr>sequence := pos + 1\<rparr>);
     Some (q\<lparr>buffer := buf\<rparr>, Idle, Ret_Enq None)
   }"
| "pc_step weak q D_Start = Some (q, D_Load (dequeue_pos q), Tau)"
| "pc_step weak q (D_Load pos) = do {
     cell \<leftarrow> mem_rd (buffer q) (cell_of q pos);
     (if dif (sequence cell) (pos + 1) = 0 then Some (q, D_Cas pos, Tau)
      else if dif (sequence cell) (pos + 1) < 0 then Some (q, Idle, Ret_Deq (Inl Empty))
      else Some (q, D_Start, Tau))
   }"
| "pc_step weak q (D_Cas pos) =
     (if dequeue_pos q = pos \<and> \<not> weak
      then Some (q\<lparr>dequeue_pos := pos + 1\<rparr>, D_Read pos, Claim_Deq pos)
      else Some (q, D_Load pos, Tau))"
| "pc_step weak q (D_Read pos) = do {
     cell \<leftarrow> mem_rd (buffer q) (cell_of q pos);
     v \<leftarrow> data cell;
     Some (q, D_Store pos v, Got pos v)
   }"
| "pc_step weak q (D_Store pos v) = do {
     cell \<leftarrow> mem_rd (buffer q) (cell_of q pos);
     buf \<leftarrow> mem_wr (buffer q) (cell_of q pos) (cell\<lparr>sequence := pos + of_nat (length (buffer q))\<rparr>);
     Some (q\<lparr>buffer := buf\<rparr>, Idle, Ret_Deq (Inr v))
   }"

text \<open>
  A call that runs alone, with no spurious failure of the compare-exchange: it steps until it returns. The
  loop need not end, so \<open>None\<close> is a panic or a call that never returns.
\<close>

partial_function (option) solo :: "'a lfq \<Rightarrow> 'a pc \<Rightarrow> ('a event \<times> 'a lfq) option" where
  "solo q p = do {
     (q', p', e) \<leftarrow> pc_step False q p;
     (case e of
        Ret_Enq r \<Rightarrow> Some (e, q')
      | Ret_Deq r \<Rightarrow> Some (e, q')
      | _ \<Rightarrow> solo q' p')
   }"

definition lfq_enqueue :: "'a lfq \<Rightarrow> 'a \<Rightarrow> ((queue_error + unit) \<times> 'a lfq) option" where
  "lfq_enqueue q v = do {
     (e, q') \<leftarrow> solo q (E_Start v);
     (case e of
        Ret_Enq None \<Rightarrow> Some (Inr (), q')
      | Ret_Enq (Some err) \<Rightarrow> Some (Inl err, q')
      | _ \<Rightarrow> None)
   }"

definition lfq_dequeue :: "'a lfq \<Rightarrow> ((queue_error + 'a) \<times> 'a lfq) option" where
  "lfq_dequeue q = do {
     (e, q') \<leftarrow> solo q D_Start;
     (case e of
        Ret_Deq r \<Rightarrow> Some (r, q')
      | _ \<Rightarrow> None)
   }"

text \<open>Dropping the queue takes out what is left.\<close>

partial_function (option) lfq_drop :: "'a lfq \<Rightarrow> 'a lfq option" where
  "lfq_drop q = do {
     (r, q') \<leftarrow> lfq_dequeue q;
     (case r of Inl _ \<Rightarrow> Some q' | Inr _ \<Rightarrow> lfq_drop q')
   }"

text \<open>
  Any number of threads: a thread that is idle may start a call, any other may take its next step; \<open>weak\<close>
  makes a compare-exchange fail although the value matches.
\<close>

type_synonym 'a system = "'a lfq \<times> (nat \<Rightarrow> 'a pc)"

inductive lfq_step :: "'a system \<Rightarrow> 'a event \<Rightarrow> 'a system \<Rightarrow> bool" where
  begin_enqueue: "ths t = Idle \<Longrightarrow> lfq_step (q, ths) Tau (q, ths(t := E_Start v))"
| begin_dequeue: "ths t = Idle \<Longrightarrow> lfq_step (q, ths) Tau (q, ths(t := D_Start))"
| thread_step: "ths t \<noteq> Idle \<Longrightarrow> pc_step weak q (ths t) = Some (q', p, e) \<Longrightarrow> lfq_step (q, ths) e (q', ths(t := p))"

inductive lfq_run :: "'a system \<Rightarrow> 'a event list \<Rightarrow> 'a system \<Rightarrow> bool" for s where
  run_nil: "lfq_run s [] s"
| run_snoc: "lfq_run s es s' \<Longrightarrow> lfq_step s' e s'' \<Longrightarrow> lfq_run s (es @ [e]) s''"

inductive_cases lfq_stepE: "lfq_step (q, ths) e s'"

end
