(* ===== verification/LFQ_Sequential.thy ===== *)
theory LFQ_Sequential
  imports Lock_Free_Queue
begin

text \<open>
  The queue used by one caller at a time: it is a bounded first-in first-out queue, for any number of calls,
  also when its 64-bit positions wrap around. \<open>queue_ok q xs\<close> relates the ring buffer to its contents.
\<close>

unbundle bit_operations_syntax

definition ring_size :: "'a lfq \<Rightarrow> bool" where
  "ring_size q \<longleftrightarrow> (\<exists>k. length (buffer q) = 2 ^ k \<and> 1 \<le> k \<and> k \<le> 62)"

definition ring_cell :: "'a lfq \<Rightarrow> nat \<Rightarrow> 'a cell" where
  "ring_cell q i = buffer q ! cell_of q (dequeue_pos q + of_nat i)"

definition queue_ok :: "'a lfq \<Rightarrow> 'a list \<Rightarrow> bool" where
  "queue_ok q xs \<longleftrightarrow>
     ring_size q \<and> length xs \<le> length (buffer q)
     \<and> enqueue_pos q = dequeue_pos q + of_nat (length xs)
     \<and> (\<forall>i < length (buffer q).
          if i < length xs
          then sequence (ring_cell q i) = dequeue_pos q + of_nat i + 1 \<and> data (ring_cell q i) = Some (xs ! i)
          else sequence (ring_cell q i) = dequeue_pos q + of_nat i)"

definition lfq_items :: "'a lfq \<Rightarrow> 'a list" where
  "lfq_items q = map (\<lambda>i. the (data (ring_cell q i))) [0..<unat (enqueue_pos q - dequeue_pos q)]"

definition lfq_inv :: "'a lfq \<Rightarrow> bool" where
  "lfq_inv q \<longleftrightarrow> queue_ok q (lfq_items q)"

definition lfq_cap :: "'a lfq \<Rightarrow> nat" where
  "lfq_cap q = length (buffer q)"

subsection \<open>Positions and cells\<close>

lemma ring_size_bounds:
  assumes "ring_size q"
  shows "2 \<le> length (buffer q)" "length (buffer q) \<le> 2 ^ 62"
proof -
  obtain k where k: "length (buffer q) = 2 ^ k" "1 \<le> k" "k \<le> 62" using assms by (auto simp: ring_size_def)
  show "2 \<le> length (buffer q)" using power_increasing[OF k(2), of "2 :: nat"] k(1) by simp
  show "length (buffer q) \<le> 2 ^ 62" unfolding k(1) by (rule power_increasing[OF k(3)]) simp
qed

lemma mask_word: "k < 64 \<Longrightarrow> (of_nat (2 ^ k - 1) :: u64) = mask k"
  by (simp add: mask_eq_exp_minus_1 of_nat_diff)

lemma cell_of_mod:
  assumes "ring_size q"
  shows "cell_of q pos = unat pos mod length (buffer q)"
proof -
  obtain k where k: "length (buffer q) = 2 ^ k" "k \<le> 62" using assms by (auto simp: ring_size_def)
  have "cell_of q pos = unat (take_bit k pos)"
    using k mask_word[of k] unfolding cell_of_def k(1) take_bit_eq_mask by simp
  also have "\<dots> = unat pos mod 2 ^ k" by (simp only: unsigned_take_bit_eq) (simp only: take_bit_eq_mod)
  finally show ?thesis using k by simp
qed

lemma cell_of_lt: "ring_size q \<Longrightarrow> cell_of q pos < length (buffer q)"
  by (simp only: cell_of_mod) (rule mod_less_divisor, use ring_size_bounds(1)[of q] in linarith)

lemma cell_of_add:
  assumes "ring_size q"
  shows "cell_of q (pos + of_nat i) = (unat pos + i) mod length (buffer q)"
proof -
  obtain k where k: "length (buffer q) = 2 ^ k" "k \<le> 62" using assms by (auto simp: ring_size_def)
  have dvd: "(2 :: nat) ^ k dvd 2 ^ 64" by (rule le_imp_power_dvd) (use k(2) in simp)
  have "unat (pos + of_nat i) = (unat pos + i) mod 2 ^ 64"
    by (simp add: unat_word_ariths unsigned_of_nat take_bit_eq_mod mod_simps)
  then show ?thesis unfolding cell_of_mod[OF assms] k(1) using mod_mod_cancel[OF dvd] by simp
qed

lemma add_mod_inj:
  assumes "(a + i) mod n = (a + j) mod n" "i < n" "j < (n :: nat)"
  shows "i = j"
proof -
  have "(int a + int i) mod int n = (int a + int j) mod int n"
    using assms(1) by (metis of_nat_add of_nat_mod)
  then have "int n dvd (int a + int i) - (int a + int j)" by (rule mod_eq_dvd_iff[THEN iffD1])
  then have "int n dvd int i - int j" by simp
  moreover have "\<bar>int i - int j\<bar> < int n" using assms by linarith
  ultimately show ?thesis using dvd_imp_le_int[of "int i - int j" "int n"] by auto
qed

lemma ring_cell_inj:
  assumes "ring_size q" "i < length (buffer q)" "j < length (buffer q)"
  shows "cell_of q (pos + of_nat i) = cell_of q (pos + of_nat j) \<longleftrightarrow> i = j"
  unfolding cell_of_add[OF assms(1)] using add_mod_inj[OF _ assms(2,3)] by blast

lemma cell_of_lap:
  assumes "ring_size q"
  shows "cell_of q (pos + of_nat (length (buffer q))) = cell_of q pos"
  using cell_of_add[OF assms, of pos "length (buffer q)"] cell_of_mod[OF assms, of pos] by simp

lemma cell_of_frame [simp]:
  "cell_of (q\<lparr>enqueue_pos := e\<rparr>) = cell_of q" "cell_of (q\<lparr>dequeue_pos := d\<rparr>) = cell_of q"
  "length b = length (buffer q) \<Longrightarrow> cell_of (q\<lparr>buffer := b\<rparr>) = cell_of q"
  by (simp_all add: cell_of_def fun_eq_iff)

lemma ring_size_frame [simp]:
  "ring_size (q\<lparr>enqueue_pos := e\<rparr>) = ring_size q" "ring_size (q\<lparr>dequeue_pos := d\<rparr>) = ring_size q"
  "length b = length (buffer q) \<Longrightarrow> ring_size (q\<lparr>buffer := b\<rparr>) = ring_size q"
  by (simp_all add: ring_size_def)

lemma dif_self [simp]: "dif x x = 0"
  by (simp add: dif_def)

lemma dif_behind:
  assumes "0 < n" "n \<le> 2 ^ 62"
  shows "dif pos (pos + of_nat n) < 0"
proof -
  have "pos - (pos + of_nat n) = (word_of_int (- int n) :: u64)" by simp
  moreover have "sint (word_of_int (- int n) :: u64) = - int n"
    unfolding signed_of_int using signed_take_bit_int_eq_self[of "LENGTH(64) - Suc 0" "- int n"] assms by simp
  ultimately show ?thesis using assms by (simp add: dif_def)
qed

subsection \<open>One call\<close>

lemma queue_ok_items:
  assumes "queue_ok q xs"
  shows "lfq_items q = xs"
proof -
  have len: "length xs \<le> 2 ^ 62" using assms ring_size_bounds(2)[of q] by (auto simp: queue_ok_def)
  have "unat (of_nat (length xs) :: u64) = length xs"
    using len by (simp add: unsigned_of_nat take_bit_nat_eq_self)
  then have "unat (enqueue_pos q - dequeue_pos q) = length xs" using assms by (simp add: queue_ok_def)
  moreover have "the (data (ring_cell q i)) = xs ! i" if "i < length xs" for i
    using assms that by (simp add: queue_ok_def)
  ultimately show ?thesis unfolding lfq_items_def by (intro nth_equalityI) simp_all
qed

lemma ring_cell_0: "ring_cell q 0 = buffer q ! cell_of q (dequeue_pos q)"
  by (simp add: ring_cell_def)

lemma queue_okD:
  assumes "queue_ok q xs"
  shows "ring_size q" "length xs \<le> length (buffer q)" "enqueue_pos q = dequeue_pos q + of_nat (length xs)" "0 < length (buffer q)"
    and "i < length (buffer q) \<Longrightarrow> i < length xs \<Longrightarrow>
      sequence (ring_cell q i) = dequeue_pos q + of_nat i + 1 \<and> data (ring_cell q i) = Some (xs ! i)"
    and "i < length (buffer q) \<Longrightarrow> \<not> i < length xs \<Longrightarrow> sequence (ring_cell q i) = dequeue_pos q + of_nat i"
  using assms ring_size_bounds(1)[of q] unfolding queue_ok_def by auto

lemma queue_okI:
  assumes "ring_size q" "length xs \<le> length (buffer q)" "enqueue_pos q = dequeue_pos q + of_nat (length xs)"
    and "\<And>i. i < length (buffer q) \<Longrightarrow> if i < length xs
      then sequence (ring_cell q i) = dequeue_pos q + of_nat i + 1 \<and> data (ring_cell q i) = Some (xs ! i)
      else sequence (ring_cell q i) = dequeue_pos q + of_nat i"
  shows "queue_ok q xs"
  using assms unfolding queue_ok_def by blast

lemma queue_ok_inv: "queue_ok q xs \<Longrightarrow> lfq_inv q \<and> lfq_items q = xs"
  by (simp add: lfq_inv_def queue_ok_items)

lemmas solo_unfold = solo.simps[of _ "E_Start _"] solo.simps[of _ "E_Load _ _"] solo.simps[of _ "E_Cas _ _"]
  solo.simps[of _ "E_Write _ _"] solo.simps[of _ "E_Store _"] solo.simps[of _ D_Start] solo.simps[of _ "D_Load _"]
  solo.simps[of _ "D_Cas _"] solo.simps[of _ "D_Read _"] solo.simps[of _ "D_Store _ _"]

lemma enqueue_room:
  assumes ok: "queue_ok q xs" and room: "length xs < length (buffer q)"
  shows "\<exists>q'. lfq_enqueue q v = Some (Inr (), q') \<and> queue_ok q' (xs @ [v]) \<and> length (buffer q') = length (buffer q)"
proof -
  let ?e = "enqueue_pos q" and ?d = "dequeue_pos q"
  let ?c = "cell_of q ?e" and ?cell = "(buffer q ! cell_of q (enqueue_pos q))\<lparr>data := Some v, sequence := enqueue_pos q + 1\<rparr>"
  let ?q = "q\<lparr>enqueue_pos := ?e + 1, buffer := (buffer q)[?c := ?cell]\<rparr>"
  have rs: "ring_size q" and e: "?e = ?d + of_nat (length xs)" using ok by (simp_all add: queue_ok_def)
  have c: "?c < length (buffer q)" by (rule cell_of_lt[OF rs])
  have seq: "sequence (buffer q ! ?c) = ?e" using queue_okD(6)[OF ok room] by (simp add: ring_cell_def e)
  have "lfq_enqueue q v = Some (Inr (), ?q)"
    using c seq by (simp add: lfq_enqueue_def solo_unfold mem_simps)
  moreover have "queue_ok ?q (xs @ [v])"
  proof -
    have at: "ring_cell ?q i = (if i = length xs then ?cell else ring_cell q i)" if "i < length (buffer q)" for i
      using ring_cell_inj[OF rs room that, of ?d] c e by (auto simp: ring_cell_def nth_list_update)
    have "if i < length (xs @ [v])
        then sequence (ring_cell ?q i) = ?d + of_nat i + 1 \<and> data (ring_cell ?q i) = Some ((xs @ [v]) ! i)
        else sequence (ring_cell ?q i) = ?d + of_nat i" if i: "i < length (buffer q)" for i
      using at[OF i] queue_okD(5,6)[OF ok i] e
      by (cases i "length xs" rule: linorder_cases) (simp_all add: nth_append)
    note cells = this
    show ?thesis
    proof (rule queue_okI)
      show "enqueue_pos ?q = dequeue_pos ?q + of_nat (length (xs @ [v]))" using e by (simp add: add_ac)
    qed (use rs room cells in simp_all)
  qed
  ultimately show ?thesis by (intro exI[of _ ?q]) simp
qed

lemma enqueue_full:
  assumes ok: "queue_ok q xs" and full: "length xs = length (buffer q)"
  shows "lfq_enqueue q v = Some (Inl Full, q)"
proof -
  have rs: "ring_size q" and e: "enqueue_pos q = dequeue_pos q + of_nat (length (buffer q))"
    using ok full by (simp_all add: queue_ok_def)
  note b = ring_size_bounds[OF rs]
  have c: "cell_of q (enqueue_pos q) = cell_of q (dequeue_pos q)" unfolding e by (rule cell_of_lap[OF rs])
  have seq: "sequence (buffer q ! cell_of q (dequeue_pos q)) = dequeue_pos q + 1"
    using queue_okD(5)[OF ok queue_okD(4)[OF ok]] queue_okD(4)[OF ok] full by (simp add: ring_cell_0)
  have n: "enqueue_pos q = (dequeue_pos q + 1) + of_nat (length (buffer q) - 1)" using b(1) e by (simp add: of_nat_diff)
  have "dif (dequeue_pos q + 1) (enqueue_pos q) < 0" unfolding n by (rule dif_behind) (use b in simp_all)
  then show ?thesis
    using cell_of_lt[OF rs] seq c by (simp add: lfq_enqueue_def solo_unfold mem_simps)
qed

text \<open>The cells seen from the next position: the one taken out comes last, marked for the next lap.\<close>

lemma ring_cell_dequeued:
  assumes rs: "ring_size q" and ne: "0 < length (buffer q)" and j: "j < length (buffer q)"
  defines "d \<equiv> dequeue_pos q" and "cell' \<equiv> (buffer q ! cell_of q (dequeue_pos q))\<lparr>sequence := dequeue_pos q + of_nat (length (buffer q))\<rparr>"
  defines "q' \<equiv> q\<lparr>dequeue_pos := d + 1, buffer := (buffer q)[cell_of q d := cell']\<rparr>"
  shows "ring_cell q' j = (if Suc j = length (buffer q) then cell' else ring_cell q (Suc j))"
proof -
  have c: "cell_of q d < length (buffer q)" by (rule cell_of_lt[OF rs])
  have e: "d + 1 + of_nat j = d + of_nat (Suc j)" by simp
  have at: "ring_cell q' j = (buffer q)[cell_of q d := cell'] ! cell_of q (d + of_nat (Suc j))"
    unfolding ring_cell_def q'_def by (simp add: e)
  show ?thesis
  proof (cases "Suc j = length (buffer q)")
    case True
    then have "cell_of q (d + of_nat (Suc j)) = cell_of q d" using cell_of_lap[OF rs, of d] by simp
    then show ?thesis using True c at by simp
  next
    case False
    then have "cell_of q (d + of_nat (Suc j)) \<noteq> cell_of q d" using ring_cell_inj[OF rs, of "Suc j" 0 d] j ne by simp
    then show ?thesis using False at by (simp add: ring_cell_def d_def)
  qed
qed

lemma dequeue_some:
  assumes ok: "queue_ok q (x # xs)"
  shows "\<exists>q'. lfq_dequeue q = Some (Inr x, q') \<and> queue_ok q' xs \<and> length (buffer q') = length (buffer q)"
proof -
  let ?d = "dequeue_pos q" and ?n = "length (buffer q)"
  let ?c = "cell_of q ?d"
  let ?cell = "(buffer q ! ?c)\<lparr>sequence := ?d + of_nat ?n\<rparr>"
  let ?q = "q\<lparr>dequeue_pos := ?d + 1, buffer := (buffer q)[?c := ?cell]\<rparr>"
  have rs: "ring_size q" and len: "Suc (length xs) \<le> ?n" using ok by (simp_all add: queue_ok_def)
  note b = ring_size_bounds[OF rs]
  have c: "?c < ?n" by (rule cell_of_lt[OF rs])
  have h: "\<forall>i < ?n. if i < Suc (length xs) then sequence (ring_cell q i) = ?d + of_nat i + 1 \<and> data (ring_cell q i) = Some ((x # xs) ! i)
      else sequence (ring_cell q i) = ?d + of_nat i" using ok by (simp add: queue_ok_def)
  have hd: "sequence (buffer q ! ?c) = ?d + 1" "data (buffer q ! ?c) = Some x"
    using queue_okD(5)[OF ok queue_okD(4)[OF ok]] by (simp_all add: ring_cell_0)
  have "lfq_dequeue q = Some (Inr x, ?q)"
    using c hd by (simp add: lfq_dequeue_def solo_unfold mem_simps)
  moreover have "queue_ok ?q xs"
  proof -
    have at: "ring_cell ?q j = (if Suc j = ?n then ?cell else ring_cell q (Suc j))" if j: "j < ?n" for j
      by (rule ring_cell_dequeued[OF rs queue_okD(4)[OF ok] j])
    have "if j < length xs then sequence (ring_cell ?q j) = ?d + 1 + of_nat j + 1 \<and> data (ring_cell ?q j) = Some (xs ! j)
        else sequence (ring_cell ?q j) = ?d + 1 + of_nat j" if j: "j < ?n" for j
    proof (cases "Suc j = ?n")
      case True
      then have "\<not> j < length xs" using len by simp
      moreover have "?d + of_nat ?n = ?d + 1 + of_nat j" unfolding True[symmetric] by simp
      ultimately show ?thesis using True at[OF j] by simp
    next
      case False
      then have "Suc j < ?n" using j by simp
      then show ?thesis using h[rule_format, of "Suc j"] at[OF j] False by (simp add: add_ac split: if_splits)
    qed
    then show ?thesis by (intro queue_okI) (use rs len queue_okD(3)[OF ok] in simp_all)
  qed
  ultimately show ?thesis by (intro exI[of _ ?q]) simp
qed

lemma dequeue_none:
  assumes ok: "queue_ok q []"
  shows "lfq_dequeue q = Some (Inl Empty, q)"
proof -
  have rs: "ring_size q" using ok by (simp add: queue_ok_def)
  have "sequence (buffer q ! cell_of q (dequeue_pos q)) = dequeue_pos q"
    using queue_okD(6)[OF ok queue_okD(4)[OF ok]] by (simp add: ring_cell_0)
  then show ?thesis
    using cell_of_lt[OF rs] dif_behind[of 1 "dequeue_pos q"] by (simp add: lfq_dequeue_def solo_unfold mem_simps)
qed

subsection \<open>The queue contract\<close>

lemma is_power_of_two_exp: "is_power_of_two n \<Longrightarrow> \<exists>k. n = 2 ^ k"
proof (induction n rule: is_power_of_two.induct)
  case (1 n)
  show ?case
  proof (cases "n = 1")
    case True
    then show ?thesis by (intro exI[of _ 0]) simp
  next
    case False
    then have "n \<noteq> 0" "even n" "is_power_of_two (n div 2)" using 1(2) by (simp_all add: is_power_of_two.simps[of n] split: if_splits)
    with 1(1) False obtain k where "n div 2 = 2 ^ k" by blast
    then have "n = 2 ^ Suc k" using \<open>even n\<close> by fastforce
    then show ?thesis by blast
  qed
qed

lemma lfq_new_spec:
  assumes new: "lfq_new node_size capacity = Some q" and sz: "64 \<le> node_size" and two: "2 \<le> capacity"
  shows "queue_ok q [] \<and> length (buffer q) = capacity"
proof -
  have q: "q = \<lparr>buffer = map (\<lambda>i. \<lparr>sequence = of_nat i, data = None\<rparr>) [0..<capacity], enqueue_pos = 0, dequeue_pos = 0\<rparr>"
    and p: "is_power_of_two capacity" and b: "capacity * node_size \<le> 2 ^ 63 - 1"
    using new by (auto simp: lfq_new_def split: if_splits)
  obtain k where k: "capacity = 2 ^ k" using is_power_of_two_exp[OF p] by blast
  have "capacity * 64 \<le> 2 ^ 63 - 1" using b mult_le_mono2[OF sz, of capacity] by linarith
  then have "capacity < 2 ^ 62" by simp
  then have "k < 62" unfolding k by (simp only: power_strict_increasing_iff)
  moreover have "1 \<le> k" using two k by (cases k) simp_all
  ultimately have rs: "ring_size q" using k by (auto simp: ring_size_def q)
  have "sequence (ring_cell q i) = of_nat i" if "i < capacity" for i
  proof -
    have "cell_of q (of_nat i) = i" using cell_of_add[OF rs, of 0 i] that by (simp add: q)
    then show ?thesis using that by (simp add: ring_cell_def q)
  qed
  then show ?thesis using rs by (simp add: queue_ok_def) (simp add: q)
qed

interpretation lfq: bounded_queue lfq_inv lfq_items lfq_cap lfq_enqueue lfq_dequeue
proof unfold_locales
  fix q :: "'a lfq" and v
  assume "lfq_inv q"
  then have ok: "queue_ok q (lfq_items q)" by (simp add: lfq_inv_def)
  show "\<exists>q'. lfq_inv q' \<and> lfq_cap q' = lfq_cap q
      \<and> (if length (lfq_items q) < lfq_cap q then lfq_enqueue q v = Some (Inr (), q') \<and> lfq_items q' = lfq_items q @ [v]
         else lfq_enqueue q v = Some (Inl Full, q') \<and> lfq_items q' = lfq_items q)"
  proof (cases "length (lfq_items q) < lfq_cap q")
    case True
    then show ?thesis using enqueue_room[OF ok, of v] queue_ok_inv by (fastforce simp: lfq_cap_def)
  next
    case False
    then have "length (lfq_items q) = length (buffer q)" using queue_okD(2)[OF ok] by (simp add: lfq_cap_def)
    then show ?thesis using enqueue_full[OF ok] False ok by (auto simp: lfq_inv_def)
  qed
  show "\<exists>q'. lfq_inv q' \<and> lfq_cap q' = lfq_cap q
      \<and> (case lfq_items q of
           [] \<Rightarrow> lfq_dequeue q = Some (Inl Empty, q') \<and> lfq_items q' = []
         | x # xs \<Rightarrow> lfq_dequeue q = Some (Inr x, q') \<and> lfq_items q' = xs)"
  proof (cases "lfq_items q")
    case Nil
    then show ?thesis using dequeue_none[of q] ok by (auto simp: lfq_inv_def)
  next
    case (Cons x xs)
    then show ?thesis using dequeue_some[of q x xs] ok queue_ok_inv by (fastforce simp: lfq_cap_def)
  qed
qed

text \<open>
  C12: A queue of capacity at least two, used by one caller at a time, answers every sequence of calls, of any
  length, exactly as a first-in first-out list of at most \<open>capacity\<close> elements does: no call panics or loops
  forever, an insertion is refused only when the queue is full, and the wrap-around of the 64-bit positions does
  not show.
\<close>

theorem lfq_refines_fifo:
  fixes ops :: "'a queue_op list"
  assumes "lfq_new node_size capacity = Some (q :: 'a lfq)" "64 \<le> node_size" "2 \<le> capacity"
  shows "\<exists>q'. queue_run lfq_enqueue lfq_dequeue q ops = Some (fst (list_run capacity [] ops), q') \<and> lfq_inv q'"
proof -
  have "lfq_inv q" "lfq_items q = []" "lfq_cap q = capacity"
    using lfq_new_spec[OF assms] queue_ok_inv[of q "[]"] by (simp_all add: lfq_cap_def)
  then show ?thesis using lfq.run_refines[of q ops] by auto
qed

theorem lfq_refines_fifo_witness:
  "\<exists>(q :: nat lfq) q'. lfq_new 64 2 = Some q
    \<and> queue_run lfq_enqueue lfq_dequeue q [Enq 7, Enq 8, Enq 9, Deq, Deq, Deq]
        = Some ([Enqueued, Enqueued, Refused Full, Dequeued 7, Dequeued 8, Refused Empty], q')"
proof -
  obtain q :: "nat lfq" where q: "lfq_new 64 2 = Some q" by (simp add: lfq_new_def is_power_of_two.simps)
  show ?thesis using lfq_refines_fifo[OF q, of "[Enq 7, Enq 8, Enq 9, Deq, Deq, Deq]"] q by auto
qed

text \<open>
  Dropping a queue returns: the loop takes out every element that is left and ends with an empty queue.
\<close>

lemma lfq_drop_returns:
  assumes "lfq_inv q"
  shows "\<exists>q'. lfq_drop q = Some q' \<and> lfq_inv q' \<and> lfq_items q' = []"
  using assms
proof (induction "lfq_items q" arbitrary: q)
  case Nil
  then obtain q' where "lfq_dequeue q = Some (Inl Empty, q')" "lfq_inv q'" "lfq_items q' = []"
    using lfq.deq_law[OF Nil.prems] unfolding Nil.hyps[symmetric] by auto
  then show ?case by (simp add: lfq_drop.simps)
next
  case (Cons x xs)
  obtain q' where q': "lfq_dequeue q = Some (Inr x, q')" "lfq_inv q'" "lfq_items q' = xs"
    using lfq.deq_law[OF Cons.prems] unfolding Cons.hyps(2)[symmetric] by auto
  show ?case using Cons.hyps(1)[OF q'(3)[symmetric] q'(2)] q'(1) by (subst lfq_drop.simps) simp
qed

subsection \<open>Capacity one\<close>

lemma solo_stuck:
  assumes "solo q p = Some y" "dif (sequence (buffer q ! cell_of q (dequeue_pos q))) (dequeue_pos q + 1) > 0"
    "cell_of q (dequeue_pos q) < length (buffer q)"
  shows "p \<noteq> D_Start \<and> p \<noteq> D_Load (dequeue_pos q)"
  using assms
proof (induction rule: solo.raw_induct[rotated 1, consumes 1])
  case (1 f q p y)
  show ?case
  proof (rule conjI; rule notI)
    assume "p = D_Start"
    then have "f q (D_Load (dequeue_pos q)) = Some y" using 1 by simp
    then show False using 1(1)[OF _ 1(3,4)] by blast
  next
    assume "p = D_Load (dequeue_pos q)"
    then have "f q D_Start = Some y" using 1(2-) by (simp add: mem_simps)
    then show False using 1(1)[OF _ 1(3,4)] by blast
  qed
qed

text \<open>
  C39: The constructor accepts capacity one, but a queue of capacity one does not work: it accepts a second
  element although it has room for one, overwriting the first, and after that \<open>dequeue\<close> never returns.
\<close>

theorem lfq_capacity_one_broken:
  "\<exists>q q1 q2. lfq_new node_size 1 = Some q \<and> lfq_enqueue q a = Some (Inr (), q1)
    \<and> lfq_enqueue q1 b = Some (Inr (), q2) \<and> lfq_dequeue q2 = None"
  if "node_size < 2 ^ 63" for a b :: 'a
proof -
  let ?q = "\<lambda>s x n. \<lparr>buffer = [\<lparr>sequence = s, data = x\<rparr>], enqueue_pos = n, dequeue_pos = 0\<rparr> :: 'a lfq"
  have new: "lfq_new node_size 1 = Some (?q 0 None 0)" using that by (simp add: lfq_new_def is_power_of_two.simps)
  have c: "cell_of (?q s x n) pos = 0" for s x n pos by (simp add: cell_of_def)
  have e1: "lfq_enqueue (?q 0 None 0) a = Some (Inr (), ?q 1 (Some a) 1)"
    by (simp add: lfq_enqueue_def solo_unfold mem_simps c)
  have e2: "lfq_enqueue (?q 1 (Some a) 1) b = Some (Inr (), ?q 2 (Some b) 2)"
    by (simp add: lfq_enqueue_def solo_unfold mem_simps c)
  have "solo (?q 2 (Some b) 2) D_Start = None"
  proof (rule ccontr)
    assume "solo (?q 2 (Some b) 2) D_Start \<noteq> None"
    then obtain y where "solo (?q 2 (Some b) 2) D_Start = Some y" by blast
    from solo_stuck[OF this] show False by (simp add: c dif_def)
  qed
  then have "lfq_dequeue (?q 2 (Some b) 2) = None" by (simp add: lfq_dequeue_def)
  with new e1 e2 show ?thesis by blast
qed

theorem lfq_capacity_one_broken_witness:
  "\<exists>q q1 q2. lfq_new 64 1 = Some (q :: nat lfq) \<and> lfq_enqueue q 7 = Some (Inr (), q1)
    \<and> lfq_enqueue q1 8 = Some (Inr (), q2) \<and> lfq_dequeue q2 = None"
  using lfq_capacity_one_broken[of 64 7 8] by simp

end
