(* ===== verification/LFQ_Concurrent.thy ===== *)
theory LFQ_Concurrent
  imports LFQ_Sequential
begin

text \<open>
  The queue under any interleaving of any number of threads. The proof works on a view of the ring with
  unbounded counters: \<open>vS\<close> and \<open>vX\<close> are the sequence number and the data of a cell, \<open>vE\<close> and \<open>vD\<close> the two
  positions, \<open>vlog\<close> the values in the order in which their producers won the compare-exchange. It covers all
  executions in which the positions stay below \<open>2 ^ 63\<close>.
\<close>

subsection \<open>The view and its invariant\<close>

record 'a ring =
  vn :: nat
  vS :: "nat \<Rightarrow> nat"
  vX :: "nat \<Rightarrow> 'a option"
  vE :: nat
  vD :: nat
  vlog :: "'a list"

definition ring_inv :: "'a ring \<Rightarrow> bool" where
  "ring_inv r \<longleftrightarrow>
     2 \<le> vn r \<and> vD r \<le> vE r \<and> vE r \<le> vD r + vn r \<and> length (vlog r) = vE r
     \<and> (\<forall>p. vD r \<le> p \<and> p < vE r \<longrightarrow>
          vS r (p mod vn r) = p \<or> vS r (p mod vn r) = Suc p \<and> vX r (p mod vn r) = Some (vlog r ! p))
     \<and> (\<forall>p. vE r \<le> p \<and> p < vD r + vn r \<longrightarrow>
          vS r (p mod vn r) = p \<or> vn r \<le> p \<and> vS r (p mod vn r) = Suc (p - vn r))"

definition writing :: "'a ring \<Rightarrow> nat \<Rightarrow> bool" where
  "writing r p \<longleftrightarrow> vD r \<le> p \<and> p < vE r \<and> vS r (p mod vn r) = p"

definition reading :: "'a ring \<Rightarrow> nat \<Rightarrow> bool" where
  "reading r p \<longleftrightarrow> p < vD r \<and> vE r \<le> p + vn r \<and> vS r (p mod vn r) = Suc p \<and> vX r (p mod vn r) = Some (vlog r ! p)"

fun pc_ok :: "'a ring \<Rightarrow> 'a pc \<Rightarrow> bool" where
  "pc_ok r Idle \<longleftrightarrow> True"
| "pc_ok r (E_Start v) \<longleftrightarrow> True"
| "pc_ok r (E_Load pos v) \<longleftrightarrow> unat pos \<le> vE r"
| "pc_ok r (E_Cas pos v) \<longleftrightarrow> unat pos \<le> vE r \<and> (unat pos = vE r \<longrightarrow> vS r (vE r mod vn r) = vE r)"
| "pc_ok r (E_Write pos v) \<longleftrightarrow> writing r (unat pos) \<and> vlog r ! unat pos = v"
| "pc_ok r (E_Store pos) \<longleftrightarrow> writing r (unat pos) \<and> vX r (unat pos mod vn r) = Some (vlog r ! unat pos)"
| "pc_ok r D_Start \<longleftrightarrow> True"
| "pc_ok r (D_Load pos) \<longleftrightarrow> unat pos \<le> vD r"
| "pc_ok r (D_Cas pos) \<longleftrightarrow> unat pos \<le> vD r \<and> (unat pos = vD r \<longrightarrow> vS r (vD r mod vn r) = Suc (vD r))"
| "pc_ok r (D_Read pos) \<longleftrightarrow> reading r (unat pos)"
| "pc_ok r (D_Store pos v) \<longleftrightarrow> reading r (unat pos) \<and> v = vlog r ! unat pos"

fun enq_at :: "'a pc \<Rightarrow> nat option" where
  "enq_at (E_Write pos v) = Some (unat pos)"
| "enq_at (E_Store pos) = Some (unat pos)"
| "enq_at _ = None"

fun deq_at :: "'a pc \<Rightarrow> nat option" where
  "deq_at (D_Read pos) = Some (unat pos)"
| "deq_at (D_Store pos v) = Some (unat pos)"
| "deq_at _ = None"

definition at_most_one :: "('a pc \<Rightarrow> nat option) \<Rightarrow> (nat \<Rightarrow> 'a pc) \<Rightarrow> bool" where
  "at_most_one f ths \<longleftrightarrow> (\<forall>t t' p. f (ths t) = Some p \<longrightarrow> f (ths t') = Some p \<longrightarrow> t = t')"

definition exclusive :: "(nat \<Rightarrow> 'a pc) \<Rightarrow> bool" where
  "exclusive ths \<longleftrightarrow> at_most_one enq_at ths \<and> at_most_one deq_at ths"

subsection \<open>Laps\<close>

lemma lap_unique:
  assumes "p mod n = p' mod n" "p < p' + n" "p' < p + (n :: nat)"
  shows "p = p'"
proof (cases "p \<le> p'")
  case True
  then have "n dvd p' - p" using mod_eq_dvd_iff_nat[of p p' n] assms(1) by simp
  moreover have "p' - p < n" using assms(3) True by simp
  ultimately have "p' - p = 0" using dvd_imp_le by fastforce
  then show ?thesis using True by simp
next
  case False
  then have "n dvd p - p'" using mod_eq_dvd_iff_nat[of p' p n] assms(1) by simp
  moreover have "p - p' < n" using assms(2) False by simp
  ultimately have "p - p' = 0" using dvd_imp_le by fastforce
  then show ?thesis using False by simp
qed

lemma Suc_mod_neq: "2 \<le> n \<Longrightarrow> Suc p mod n \<noteq> p mod n"
  using lap_unique[of "Suc p" n p] by auto

lemma ring_invD:
  assumes "ring_inv r"
  shows "2 \<le> vn r" "vD r \<le> vE r" "vE r \<le> vD r + vn r" "length (vlog r) = vE r"
    and "vD r \<le> p \<Longrightarrow> p < vE r \<Longrightarrow>
      vS r (p mod vn r) = p \<or> vS r (p mod vn r) = Suc p \<and> vX r (p mod vn r) = Some (vlog r ! p)"
    and "vE r \<le> p \<Longrightarrow> p < vD r + vn r \<Longrightarrow> vS r (p mod vn r) = p \<or> vn r \<le> p \<and> vS r (p mod vn r) = Suc (p - vn r)"
  using assms unfolding ring_inv_def by blast+

lemma ring_invI:
  assumes "2 \<le> vn r" "vD r \<le> vE r" "vE r \<le> vD r + vn r" "length (vlog r) = vE r"
    and "\<And>p. vD r \<le> p \<Longrightarrow> p < vE r \<Longrightarrow>
      vS r (p mod vn r) = p \<or> vS r (p mod vn r) = Suc p \<and> vX r (p mod vn r) = Some (vlog r ! p)"
    and "\<And>p. vE r \<le> p \<Longrightarrow> p < vD r + vn r \<Longrightarrow> vS r (p mod vn r) = p \<or> vn r \<le> p \<and> vS r (p mod vn r) = Suc (p - vn r)"
  shows "ring_inv r"
  using assms unfolding ring_inv_def by blast

text \<open>A free cell at the producers' position is one lap ahead of the consumers at most.\<close>

lemma enq_room:
  assumes r: "ring_inv r" and s: "vS r (vE r mod vn r) = vE r"
  shows "vE r < vD r + vn r"
proof (rule ccontr)
  assume "\<not> ?thesis"
  then have e: "vE r = vD r + vn r" using ring_invD(3)[OF r] by simp
  then have "vE r mod vn r = vD r mod vn r" by simp
  then have "vS r (vD r mod vn r) = vD r \<or> vS r (vD r mod vn r) = Suc (vD r)"
    using ring_invD(5)[OF r, of "vD r"] ring_invD(1)[OF r] e by auto
  then show False using s e ring_invD(1)[OF r] \<open>vE r mod vn r = vD r mod vn r\<close> by auto
qed

lemma deq_nonempty:
  assumes r: "ring_inv r" and s: "vS r (vD r mod vn r) = Suc (vD r)"
  shows "vD r < vE r" and "vX r (vD r mod vn r) = Some (vlog r ! vD r)"
proof -
  show lt: "vD r < vE r"
  proof (rule ccontr)
    assume "\<not> ?thesis"
    then have "vE r = vD r" using ring_invD(2)[OF r] by simp
    then show False using ring_invD(6)[OF r, of "vD r"] ring_invD(1)[OF r] s by auto
  qed
  show "vX r (vD r mod vn r) = Some (vlog r ! vD r)" using ring_invD(5)[OF r order_refl lt] s by auto
qed

subsection \<open>The five changes of the ring\<close>

definition claim_enq :: "'a \<Rightarrow> 'a ring \<Rightarrow> 'a ring" where
  "claim_enq v r = r\<lparr>vE := Suc (vE r), vlog := vlog r @ [v]\<rparr>"

definition write_cell :: "nat \<Rightarrow> 'a \<Rightarrow> 'a ring \<Rightarrow> 'a ring" where
  "write_cell p v r = r\<lparr>vX := (vX r)(p mod vn r := Some v)\<rparr>"

definition publish :: "nat \<Rightarrow> 'a ring \<Rightarrow> 'a ring" where
  "publish p r = r\<lparr>vS := (vS r)(p mod vn r := Suc p)\<rparr>"

definition claim_deq :: "'a ring \<Rightarrow> 'a ring" where
  "claim_deq r = r\<lparr>vD := Suc (vD r)\<rparr>"

definition release_cell :: "nat \<Rightarrow> 'a ring \<Rightarrow> 'a ring" where
  "release_cell p r = r\<lparr>vS := (vS r)(p mod vn r := p + vn r)\<rparr>"

lemmas ring_changes = claim_enq_def write_cell_def publish_def claim_deq_def release_cell_def

lemma claim_enq_inv:
  assumes r: "ring_inv r" and s: "vS r (vE r mod vn r) = vE r"
  shows "ring_inv (claim_enq v r)" "writing (claim_enq v r) (vE r)" "vlog (claim_enq v r) ! vE r = v"
proof -
  note d = ring_invD[OF r] and room = enq_room[OF r s]
  have "vS r (p mod vn r) = p \<or> vS r (p mod vn r) = Suc p \<and> vX r (p mod vn r) = Some ((vlog r @ [v]) ! p)"
    if "vD r \<le> p" "p < Suc (vE r)" for p
    using that d(5)[of p] s d(4) by (cases "p = vE r") (simp_all add: nth_append)
  moreover have "vS r (p mod vn r) = p \<or> vn r \<le> p \<and> vS r (p mod vn r) = Suc (p - vn r)"
    if "Suc (vE r) \<le> p" "p < vD r + vn r" for p using that d(6)[of p] by simp
  ultimately show "ring_inv (claim_enq v r)"
    using d(1-4) room unfolding ring_inv_def by (simp add: claim_enq_def)
  show "writing (claim_enq v r) (vE r)" "vlog (claim_enq v r) ! vE r = v"
    using d s by (simp_all add: writing_def claim_enq_def nth_append)
qed

lemma claim_enq_others:
  assumes r: "ring_inv r" and s: "vS r (vE r mod vn r) = vE r" and ok: "pc_ok r pc"
  shows "pc_ok (claim_enq v r) pc" "enq_at pc \<noteq> Some (vE r)"
proof -
  note d = ring_invD[OF r]
  have w: "writing (claim_enq v r) p \<and> vlog (claim_enq v r) ! p = vlog r ! p" if "writing r p" for p
    using that d(4) by (simp add: writing_def claim_enq_def nth_append)
  have rd: "reading (claim_enq v r) p \<and> vlog (claim_enq v r) ! p = vlog r ! p" if p: "reading r p" for p
  proof -
    have "vE r \<noteq> p + vn r"
    proof
      assume e: "vE r = p + vn r"
      then have "vE r mod vn r = p mod vn r" by simp
      then show False using p s d(1) e by (simp add: reading_def)
    qed
    then show ?thesis using p d(2,4) by (simp add: reading_def claim_enq_def nth_append)
  qed
  show "pc_ok (claim_enq v r) pc"
    using ok w rd by (cases pc) (auto simp: claim_enq_def)
  show "enq_at pc \<noteq> Some (vE r)" using ok by (cases pc) (auto simp: writing_def)
qed

lemma write_cell_inv:
  assumes r: "ring_inv r" and p: "writing r p"
  shows "ring_inv (write_cell p v r)" "writing (write_cell p v r) p"
proof -
  note d = ring_invD[OF r]
  have "q = p" if "vD r \<le> q" "q < vE r" "q mod vn r = p mod vn r" for q
    by (rule lap_unique[OF that(3)]) (use that p d(3) in \<open>auto simp: writing_def\<close>)
  then show "ring_inv (write_cell p v r)"
    using r p unfolding ring_inv_def writing_def by (auto simp: write_cell_def)
  show "writing (write_cell p v r) p" using p by (simp add: writing_def write_cell_def)
qed

lemma same_cell_writing:
  assumes "ring_inv r" "writing r p" "writing r q" "q mod vn r = p mod vn r"
  shows "q = p"
  by (rule lap_unique[OF assms(4)]) (use assms(1-3) ring_invD(3)[OF assms(1)] in \<open>auto simp: writing_def\<close>)

lemma other_cell_reading:
  assumes "writing r p" "reading r q"
  shows "q mod vn r \<noteq> p mod vn r"
  using lap_unique[of q "vn r" p] assms by (auto simp: writing_def reading_def)

lemma write_cell_others:
  assumes r: "ring_inv r" and p: "writing r p" and ok: "pc_ok r pc" and ne: "enq_at pc \<noteq> Some p"
  shows "pc_ok (write_cell p v r) pc"
proof -
  have "writing (write_cell p v r) q = writing r q" for q by (simp add: writing_def write_cell_def)
  moreover have "reading (write_cell p v r) q" if "reading r q" for q
    using that other_cell_reading[OF p that] by (simp add: reading_def write_cell_def)
  ultimately show ?thesis
    using ok ne same_cell_writing[OF r p] by (cases pc) (auto simp: write_cell_def)
qed

lemma publish_inv:
  assumes r: "ring_inv r" and p: "writing r p" and x: "vX r (p mod vn r) = Some (vlog r ! p)"
  shows "ring_inv (publish p r)"
proof -
  note d = ring_invD[OF r]
  have u: "q mod vn r \<noteq> p mod vn r" if "vD r \<le> q" "q < vD r + vn r" "q \<noteq> p" for q
    using lap_unique[of q "vn r" p] that p d(3) by (auto simp: writing_def)
  have lt: "p < vE r" using p by (simp add: writing_def)
  show ?thesis
  proof (rule ring_invI)
    fix q assume "vD (publish p r) \<le> q" "q < vE (publish p r)"
    then show "vS (publish p r) (q mod vn (publish p r)) = q \<or> vS (publish p r) (q mod vn (publish p r)) = Suc q
        \<and> vX (publish p r) (q mod vn (publish p r)) = Some (vlog (publish p r) ! q)"
      using d(3) d(5)[of q] u[of q] x by (cases "q = p") (simp_all add: publish_def)
  next
    fix q assume "vE (publish p r) \<le> q" "q < vD (publish p r) + vn (publish p r)"
    then show "vS (publish p r) (q mod vn (publish p r)) = q \<or> vn (publish p r) \<le> q
        \<and> vS (publish p r) (q mod vn (publish p r)) = Suc (q - vn (publish p r))"
      using d(2) d(6)[of q] u[of q] lt by (cases "q = p") (simp_all add: publish_def)
  qed (use d in \<open>simp_all add: publish_def\<close>)
qed

lemma publish_others:
  assumes r: "ring_inv r" and p: "writing r p" and ok: "pc_ok r pc" and ne: "enq_at pc \<noteq> Some p"
  shows "pc_ok (publish p r) pc"
proof -
  note d = ring_invD[OF r]
  have w: "writing (publish p r) q" if "writing r q" "q \<noteq> p" for q
    using that same_cell_writing[OF r p that(1)] by (auto simp: writing_def publish_def)
  have rd: "reading (publish p r) q" if "reading r q" for q
    using that other_cell_reading[OF p that] by (simp add: reading_def publish_def)
  have e: "vS (publish p r) (vE r mod vn r) = vE r" if "vS r (vE r mod vn r) = vE r"
    using that p by (auto simp: publish_def writing_def)
  have c: "vS (publish p r) (vD r mod vn r) = Suc (vD r)" if s: "vS r (vD r mod vn r) = Suc (vD r)"
  proof -
    have "vD r mod vn r \<noteq> p mod vn r"
    proof
      assume m: "vD r mod vn r = p mod vn r"
      have "vD r = p" by (rule lap_unique[OF m]) (use p d(3) ring_invD(1)[OF r] in \<open>auto simp: writing_def\<close>)
      then show False using s p by (simp add: writing_def)
    qed
    then show ?thesis using s by (simp add: publish_def)
  qed
  show ?thesis using ok ne w rd e c by (cases pc) (auto simp: publish_def)
qed

lemma claim_deq_inv:
  assumes r: "ring_inv r" and s: "vS r (vD r mod vn r) = Suc (vD r)"
  shows "ring_inv (claim_deq r)" "reading (claim_deq r) (vD r)"
proof -
  note d = ring_invD[OF r] and ne = deq_nonempty[OF r s]
  show "reading (claim_deq r) (vD r)" using d(3) s ne by (simp add: reading_def claim_deq_def)
  show "ring_inv (claim_deq r)"
    using r s ne(1) unfolding ring_inv_def by (auto simp: claim_deq_def less_Suc_eq)
qed

lemma claim_deq_others:
  assumes r: "ring_inv r" and s: "vS r (vD r mod vn r) = Suc (vD r)" and ok: "pc_ok r pc"
  shows "pc_ok (claim_deq r) pc" "deq_at pc \<noteq> Some (vD r)"
proof -
  have w: "writing (claim_deq r) p" if "writing r p" for p
    using that s by (cases "p = vD r") (auto simp: writing_def claim_deq_def)
  have rd: "reading (claim_deq r) p" if "reading r p" for p
    using that by (auto simp: reading_def claim_deq_def)
  show "pc_ok (claim_deq r) pc" using ok w rd by (cases pc) (auto simp: claim_deq_def)
  show "deq_at pc \<noteq> Some (vD r)" using ok by (cases pc) (auto simp: reading_def)
qed

lemma release_inv:
  assumes r: "ring_inv r" and p: "reading r p"
  shows "ring_inv (release_cell p r)"
proof -
  note d = ring_invD[OF r]
  have pe: "vE r \<le> p + vn r" "p < vD r" using p by (simp_all add: reading_def)
  have u: "q mod vn r \<noteq> p mod vn r" if "vD r \<le> q" "q < vD r + vn r" "q \<noteq> p + vn r" for q
    using lap_unique[of q "vn r" "p + vn r"] that pe d(2,3) by auto
  show ?thesis
  proof (rule ring_invI)
    fix q assume "vD (release_cell p r) \<le> q" "q < vE (release_cell p r)"
    then show "vS (release_cell p r) (q mod vn (release_cell p r)) = q \<or> vS (release_cell p r) (q mod vn (release_cell p r)) = Suc q
        \<and> vX (release_cell p r) (q mod vn (release_cell p r)) = Some (vlog (release_cell p r) ! q)"
      using d(3) d(5)[of q] u[of q] pe by (simp add: release_cell_def)
  next
    fix q assume "vE (release_cell p r) \<le> q" "q < vD (release_cell p r) + vn (release_cell p r)"
    then show "vS (release_cell p r) (q mod vn (release_cell p r)) = q \<or> vn (release_cell p r) \<le> q
        \<and> vS (release_cell p r) (q mod vn (release_cell p r)) = Suc (q - vn (release_cell p r))"
      using d(2) d(6)[of q] u[of q] by (cases "q = p + vn r") (simp_all add: release_cell_def)
  qed (use d in \<open>simp_all add: release_cell_def\<close>)
qed

lemma release_others:
  assumes r: "ring_inv r" and p: "reading r p" and ok: "pc_ok r pc" and ne: "deq_at pc \<noteq> Some p"
  shows "pc_ok (release_cell p r) pc"
proof -
  note d = ring_invD[OF r]
  have w: "writing (release_cell p r) q" if "writing r q" for q
    using that other_cell_reading[OF that p] by (simp add: writing_def release_cell_def)
  have rd: "reading (release_cell p r) q" if q: "reading r q" "q \<noteq> p" for q
  proof -
    have "q mod vn r \<noteq> p mod vn r" using q p by (auto simp: reading_def)
    then show ?thesis using q by (simp add: reading_def release_cell_def)
  qed
  have e: "vS (release_cell p r) (vE r mod vn r) = vE r" if "vS r (vE r mod vn r) = vE r"
    using that p Suc_mod_neq[OF d(1), of p] by (auto simp: release_cell_def reading_def)
  have c: "vS (release_cell p r) (vD r mod vn r) = Suc (vD r)" if "vS r (vD r mod vn r) = Suc (vD r)"
    using that p Suc_mod_neq[OF d(1), of p] by (auto simp: release_cell_def reading_def)
  show ?thesis using ok ne w rd e c by (cases pc) (auto simp: release_cell_def)
qed

subsection \<open>Threads\<close>

definition threads_ok :: "'a ring \<Rightarrow> (nat \<Rightarrow> 'a pc) \<Rightarrow> bool" where
  "threads_ok r ths \<longleftrightarrow> (\<forall>t. pc_ok r (ths t)) \<and> exclusive ths"

lemma at_most_one_update:
  assumes "at_most_one f ths" "\<And>x t'. f p = Some x \<Longrightarrow> t' \<noteq> t \<Longrightarrow> f (ths t') \<noteq> Some x"
  shows "at_most_one f (ths(t := p))"
  unfolding at_most_one_def
proof (intro allI impI)
  fix a b x
  assume ab: "f ((ths(t := p)) a) = Some x" "f ((ths(t := p)) b) = Some x"
  show "a = b"
  proof (cases "a = t \<or> b = t")
    case True
    then show ?thesis using ab assms(2)[of x] by (auto split: if_splits)
  next
    case False
    then show ?thesis using ab assms(1) by (simp add: at_most_one_def)
  qed
qed

lemma exclusive_update:
  assumes "exclusive ths"
    and "\<And>x t'. enq_at p = Some x \<Longrightarrow> t' \<noteq> t \<Longrightarrow> enq_at (ths t') \<noteq> Some x"
    and "\<And>x t'. deq_at p = Some x \<Longrightarrow> t' \<noteq> t \<Longrightarrow> deq_at (ths t') \<noteq> Some x"
  shows "exclusive (ths(t := p))"
  using assms(1) at_most_one_update[of enq_at ths p t, OF _ assms(2)] at_most_one_update[of deq_at ths p t, OF _ assms(3)]
  by (simp add: exclusive_def)

lemma exclusive_other:
  assumes "exclusive ths" "t' \<noteq> t"
  shows "enq_at (ths t) = Some x \<Longrightarrow> enq_at (ths t') \<noteq> Some x" "deq_at (ths t) = Some x \<Longrightarrow> deq_at (ths t') \<noteq> Some x"
  using assms unfolding exclusive_def at_most_one_def by blast+

text \<open>A step that claims nothing new.\<close>

lemma threads_ok_step:
  assumes ok: "threads_ok r ths" and p: "pc_ok r' p"
    and at: "enq_at p = None \<or> enq_at p = enq_at (ths t)" "deq_at p = None \<or> deq_at p = deq_at (ths t)"
    and others: "\<And>t'. t' \<noteq> t \<Longrightarrow> pc_ok r' (ths t')"
  shows "threads_ok r' (ths(t := p))"
proof -
  have ex: "exclusive ths" using ok by (simp add: threads_ok_def)
  have "exclusive (ths(t := p))"
  proof (rule exclusive_update[OF ex])
    show "enq_at (ths t') \<noteq> Some x" if "enq_at p = Some x" "t' \<noteq> t" for x t'
      using exclusive_other(1)[OF ex that(2), of x] at(1) that(1) by simp
    show "deq_at (ths t') \<noteq> Some x" if "deq_at p = Some x" "t' \<noteq> t" for x t'
      using exclusive_other(2)[OF ex that(2), of x] at(2) that(1) by simp
  qed
  then show ?thesis using p others by (simp add: threads_ok_def)
qed

lemma threads_okD: "threads_ok r ths \<Longrightarrow> pc_ok r (ths t)" "threads_ok r ths \<Longrightarrow> exclusive ths"
  by (simp_all add: threads_ok_def)

subsection \<open>The view of the words\<close>

definition view_of :: "'a lfq \<Rightarrow> 'a list \<Rightarrow> 'a ring" where
  "view_of q log = \<lparr>vn = length (buffer q), vS = (\<lambda>i. unat (sequence (buffer q ! i))), vX = (\<lambda>i. data (buffer q ! i)),
     vE = unat (enqueue_pos q), vD = unat (dequeue_pos q), vlog = log\<rparr>"

definition conc_inv :: "'a system \<Rightarrow> 'a list \<Rightarrow> bool" where
  "conc_inv s log \<longleftrightarrow> ring_size (fst s) \<and> ring_inv (view_of (fst s) log) \<and> threads_ok (view_of (fst s) log) (snd s)"

lemma view_of_simps [simp]:
  "vn (view_of q log) = length (buffer q)" "vE (view_of q log) = unat (enqueue_pos q)"
  "vD (view_of q log) = unat (dequeue_pos q)" "vlog (view_of q log) = log"
  "vS (view_of q log) i = unat (sequence (buffer q ! i))" "vX (view_of q log) i = data (buffer q ! i)"
  by (simp_all add: view_of_def)

lemma unat_add_small: "unat (pos :: u64) + k < 2 ^ 64 \<Longrightarrow> unat (pos + of_nat k) = unat pos + k"
  by (simp add: unat_word_ariths unsigned_of_nat take_bit_nat_eq_self)

lemma unat_Suc_small: "Suc (unat (pos :: u64)) < 2 ^ 64 \<Longrightarrow> unat (pos + 1) = Suc (unat pos)"
  using unat_add_small[of pos 1] by simp

lemma dif_0_iff: "dif seq pos = 0 \<longleftrightarrow> seq = pos"
  unfolding dif_def by (metis right_minus_eq signed_0 signed_word_eqI)

lemma view_claim_enq:
  assumes "Suc (unat (enqueue_pos q)) < 2 ^ 64"
  shows "view_of (q\<lparr>enqueue_pos := enqueue_pos q + 1\<rparr>) (log @ [v]) = claim_enq v (view_of q log)"
  using unat_Suc_small[OF assms] by (simp add: view_of_def claim_enq_def)

lemma view_claim_deq:
  assumes "Suc (unat (dequeue_pos q)) < 2 ^ 64"
  shows "view_of (q\<lparr>dequeue_pos := dequeue_pos q + 1\<rparr>) log = claim_deq (view_of q log)"
  using unat_Suc_small[OF assms] by (simp add: view_of_def claim_deq_def)

lemma view_write_cell:
  assumes "ring_size q"
  shows "view_of (q\<lparr>buffer := (buffer q)[cell_of q pos := (buffer q ! cell_of q pos)\<lparr>data := Some v\<rparr>]\<rparr>) log
    = write_cell (unat pos) v (view_of q log)"
  using cell_of_lt[OF assms, of pos] by (auto simp: view_of_def write_cell_def fun_eq_iff nth_list_update cell_of_mod[OF assms])

lemma view_publish:
  assumes "ring_size q" "Suc (unat pos) < 2 ^ 64"
  shows "view_of (q\<lparr>buffer := (buffer q)[cell_of q pos := (buffer q ! cell_of q pos)\<lparr>sequence := pos + 1\<rparr>]\<rparr>) log
    = publish (unat pos) (view_of q log)"
  using cell_of_lt[OF assms(1), of pos] unat_Suc_small[OF assms(2)]
  by (auto simp: view_of_def publish_def fun_eq_iff nth_list_update cell_of_mod[OF assms(1)])

lemma view_release:
  assumes "ring_size q" "unat pos + length (buffer q) < 2 ^ 64"
  shows "view_of (q\<lparr>buffer := (buffer q)[cell_of q pos := (buffer q ! cell_of q pos)\<lparr>sequence := pos + of_nat (length (buffer q))\<rparr>]\<rparr>) log
    = release_cell (unat pos) (view_of q log)"
  using cell_of_lt[OF assms(1), of pos] unat_add_small[OF assms(2)]
  by (auto simp: view_of_def release_cell_def fun_eq_iff nth_list_update cell_of_mod[OF assms(1)])

subsection \<open>Every step keeps the invariant\<close>

fun enq_values :: "'a event list \<Rightarrow> 'a list" where
  "enq_values [] = []"
| "enq_values (Claim_Enq v # es) = v # enq_values es"
| "enq_values (_ # es) = enq_values es"

fun deq_positions :: "'a event list \<Rightarrow> u64 list" where
  "deq_positions [] = []"
| "deq_positions (Claim_Deq p # es) = p # deq_positions es"
| "deq_positions (_ # es) = deq_positions es"

fun got_values :: "'a event list \<Rightarrow> (u64 \<times> 'a) list" where
  "got_values [] = []"
| "got_values (Got p v # es) = (p, v) # got_values es"
| "got_values (_ # es) = got_values es"

lemma events_append [simp]:
  "enq_values (es @ es') = enq_values es @ enq_values es'"
  "deq_positions (es @ es') = deq_positions es @ deq_positions es'"
  "got_values (es @ es') = got_values es @ got_values es'"
proof -
  show "enq_values (es @ es') = enq_values es @ enq_values es'" by (induction es rule: enq_values.induct) simp_all
  show "deq_positions (es @ es') = deq_positions es @ deq_positions es'" by (induction es rule: deq_positions.induct) simp_all
  show "got_values (es @ es') = got_values es @ got_values es'" by (induction es rule: got_values.induct) simp_all
qed

lemma conc_invD:
  assumes "conc_inv (q, ths) log"
  shows "ring_size q" "ring_inv (view_of q log)" "threads_ok (view_of q log) ths"
    "length log = unat (enqueue_pos q)" "unat (dequeue_pos q) \<le> unat (enqueue_pos q)"
  using assms ring_invD(2,4)[of "view_of q log"] by (simp_all add: conc_inv_def)

lemma conc_invI: "ring_size q \<Longrightarrow> ring_inv (view_of q log) \<Longrightarrow> threads_ok (view_of q log) ths \<Longrightarrow> conc_inv (q, ths) log"
  by (simp add: conc_inv_def)

lemma local_step_inv:
  assumes inv: "conc_inv (q, ths) log" and p: "pc_ok (view_of q log) p"
    and at: "enq_at p = None \<or> enq_at p = enq_at (ths t)" "deq_at p = None \<or> deq_at p = deq_at (ths t)"
  shows "conc_inv (q, ths(t := p)) log"
  by (rule conc_invI[OF conc_invD(1,2)[OF inv]])
     (rule threads_ok_step[OF conc_invD(3)[OF inv] p at], rule threads_okD(1)[OF conc_invD(3)[OF inv]])

lemma claim_enq_step_inv:
  assumes inv: "conc_inv (q, ths) log" and pc: "ths t = E_Cas (enqueue_pos q) v"
    and small: "Suc (unat (enqueue_pos q)) < 2 ^ 64"
  shows "conc_inv (q\<lparr>enqueue_pos := enqueue_pos q + 1\<rparr>, ths(t := E_Write (enqueue_pos q) v)) (log @ [v])"
proof -
  note d = conc_invD[OF inv] and ok = threads_okD[OF conc_invD(3)[OF inv]]
  have s: "vS (view_of q log) (vE (view_of q log) mod vn (view_of q log)) = vE (view_of q log)"
    using ok(1)[of t] pc by simp
  note new = claim_enq_inv[OF d(2) s, of v] and oth = claim_enq_others[OF d(2) s ok(1)]
  show ?thesis
  proof (rule conc_invI, unfold view_claim_enq[OF small])
    show "threads_ok (claim_enq v (view_of q log)) (ths(t := E_Write (enqueue_pos q) v))"
      unfolding threads_ok_def
    proof
      show "exclusive (ths(t := E_Write (enqueue_pos q) v))"
        by (rule exclusive_update[OF ok(2)]) (use oth(2) in auto)
      show "\<forall>t'. pc_ok (claim_enq v (view_of q log)) ((ths(t := E_Write (enqueue_pos q) v)) t')"
        using oth(1) new by simp
    qed
  qed (use d(1) new in simp_all)
qed

lemma claim_deq_step_inv:
  assumes inv: "conc_inv (q, ths) log" and pc: "ths t = D_Cas (dequeue_pos q)"
    and small: "Suc (unat (dequeue_pos q)) < 2 ^ 64"
  shows "conc_inv (q\<lparr>dequeue_pos := dequeue_pos q + 1\<rparr>, ths(t := D_Read (dequeue_pos q))) log"
proof -
  note d = conc_invD[OF inv] and ok = threads_okD[OF conc_invD(3)[OF inv]]
  have s: "vS (view_of q log) (vD (view_of q log) mod vn (view_of q log)) = Suc (vD (view_of q log))"
    using ok(1)[of t] pc by simp
  note new = claim_deq_inv[OF d(2) s] and oth = claim_deq_others[OF d(2) s ok(1)]
  show ?thesis
  proof (rule conc_invI, unfold view_claim_deq[OF small])
    show "threads_ok (claim_deq (view_of q log)) (ths(t := D_Read (dequeue_pos q)))"
      unfolding threads_ok_def
    proof
      show "exclusive (ths(t := D_Read (dequeue_pos q)))"
        by (rule exclusive_update[OF ok(2)]) (use oth(2) in auto)
      show "\<forall>t'. pc_ok (claim_deq (view_of q log)) ((ths(t := D_Read (dequeue_pos q))) t')"
        using oth(1) new by simp
    qed
  qed (use d(1) new in simp_all)
qed

lemma write_step_inv:
  assumes inv: "conc_inv (q, ths) log" and pc: "ths t = E_Write pos v"
  shows "conc_inv (q\<lparr>buffer := (buffer q)[cell_of q pos := (buffer q ! cell_of q pos)\<lparr>data := Some v\<rparr>]\<rparr>, ths(t := E_Store pos)) log"
proof -
  note d = conc_invD[OF inv] and ok = threads_okD[OF conc_invD(3)[OF inv]]
  have p: "writing (view_of q log) (unat pos)" "log ! unat pos = v" using ok(1)[of t] pc by simp_all
  note new = write_cell_inv[OF d(2) p(1), of v]
  show ?thesis
  proof (rule conc_invI, unfold view_write_cell[OF d(1)])
    show "threads_ok (write_cell (unat pos) v (view_of q log)) (ths(t := E_Store pos))"
    proof (rule threads_ok_step[OF d(3)])
      show "pc_ok (write_cell (unat pos) v (view_of q log)) (E_Store pos)" using new p by (simp add: write_cell_def)
      show "pc_ok (write_cell (unat pos) v (view_of q log)) (ths t')" if "t' \<noteq> t" for t'
        by (rule write_cell_others[OF d(2) p(1) ok(1)]) (use exclusive_other(1)[OF ok(2) that] pc in simp)
    qed (use pc in simp_all)
  qed (use d(1) new in simp_all)
qed

lemma publish_step_inv:
  assumes inv: "conc_inv (q, ths) log" and pc: "ths t = E_Store pos" and small: "Suc (unat (enqueue_pos q)) < 2 ^ 64"
  shows "conc_inv (q\<lparr>buffer := (buffer q)[cell_of q pos := (buffer q ! cell_of q pos)\<lparr>sequence := pos + 1\<rparr>]\<rparr>, ths(t := Idle)) log"
proof -
  note d = conc_invD[OF inv] and ok = threads_okD[OF conc_invD(3)[OF inv]]
  have p: "writing (view_of q log) (unat pos)" "vX (view_of q log) (unat pos mod vn (view_of q log)) = Some (vlog (view_of q log) ! unat pos)"
    using ok(1)[of t] pc by simp_all
  have sm: "Suc (unat pos) < 2 ^ 64" using p(1) small by (simp add: writing_def)
  show ?thesis
  proof (rule conc_invI, unfold view_publish[OF d(1) sm])
    show "threads_ok (publish (unat pos) (view_of q log)) (ths(t := Idle))"
    proof (rule threads_ok_step[OF d(3)])
      show "pc_ok (publish (unat pos) (view_of q log)) (ths t')" if "t' \<noteq> t" for t'
        by (rule publish_others[OF d(2) p(1) ok(1)]) (use exclusive_other(1)[OF ok(2) that] pc in simp)
    qed simp_all
  qed (use d(1) publish_inv[OF d(2) p] in simp_all)
qed

lemma release_step_inv:
  assumes inv: "conc_inv (q, ths) log" and pc: "ths t = D_Store pos v"
    and small: "unat (enqueue_pos q) + length (buffer q) < 2 ^ 64"
  shows "conc_inv (q\<lparr>buffer := (buffer q)[cell_of q pos := (buffer q ! cell_of q pos)\<lparr>sequence := pos + of_nat (length (buffer q))\<rparr>]\<rparr>, ths(t := Idle)) log"
proof -
  note d = conc_invD[OF inv] and ok = threads_okD[OF conc_invD(3)[OF inv]]
  have p: "reading (view_of q log) (unat pos)" using ok(1)[of t] pc by simp
  have sm: "unat pos + length (buffer q) < 2 ^ 64" using p small d(5) by (simp add: reading_def)
  show ?thesis
  proof (rule conc_invI, unfold view_release[OF d(1) sm])
    show "threads_ok (release_cell (unat pos) (view_of q log)) (ths(t := Idle))"
    proof (rule threads_ok_step[OF d(3)])
      show "pc_ok (release_cell (unat pos) (view_of q log)) (ths t')" if "t' \<noteq> t" for t'
        by (rule release_others[OF d(2) p ok(1)]) (use exclusive_other(2)[OF ok(2) that] pc in simp)
    qed simp_all
  qed (use d(1) release_inv[OF d(2) p] in simp_all)
qed

lemma pc_step_total:
  assumes inv: "conc_inv (q, ths) log"
  shows "\<exists>q' p e. pc_step weak q (ths t) = Some (q', p, e)"
proof -
  have c: "mem_rd (buffer q) (cell_of q pos) = Some (buffer q ! cell_of q pos)"
    "mem_wr (buffer q) (cell_of q pos) x = Some ((buffer q)[cell_of q pos := x])" for pos x
    using cell_of_lt[OF conc_invD(1)[OF inv], of pos] by (simp_all add: mem_simps)
  have "pc_ok (view_of q log) (ths t)" by (rule threads_okD(1)[OF conc_invD(3)[OF inv]])
  then show ?thesis
    by (cases "ths t") (auto simp: c reading_def cell_of_mod[OF conc_invD(1)[OF inv], symmetric])
qed

text \<open>What a thread may conclude from the sequence number that it loads.\<close>

lemma load_enq_inv:
  assumes inv: "conc_inv (q, ths) log" and at: "ths t = E_Load pos v"
    and p: "p = E_Cas pos v \<and> sequence (buffer q ! cell_of q pos) = pos \<or> p = Idle \<or> p = E_Start v"
  shows "conc_inv (q, ths(t := p)) log"
proof -
  note d = conc_invD[OF inv]
  have ok: "pc_ok (view_of q log) (ths t)" by (rule threads_okD(1)[OF d(3)])
  have "pc_ok (view_of q log) (E_Cas pos v)" if "sequence (buffer q ! cell_of q pos) = pos"
    using that ok at by (auto simp: cell_of_mod[OF d(1), symmetric] word_unat_eq_iff[symmetric])
  then show ?thesis using p at local_step_inv[OF inv, of p t] by auto
qed

lemma load_deq_inv:
  assumes inv: "conc_inv (q, ths) log" and at: "ths t = D_Load pos" and small: "Suc (unat (dequeue_pos q)) < 2 ^ 64"
    and p: "p = D_Cas pos \<and> sequence (buffer q ! cell_of q pos) = pos + 1 \<or> p = Idle \<or> p = D_Start"
  shows "conc_inv (q, ths(t := p)) log"
proof -
  note d = conc_invD[OF inv]
  have ok: "pc_ok (view_of q log) (ths t)" by (rule threads_okD(1)[OF d(3)])
  have "unat (pos + 1) = Suc (unat pos)" using ok at small by (intro unat_Suc_small) simp
  then have "pc_ok (view_of q log) (D_Cas pos)" if "sequence (buffer q ! cell_of q pos) = pos + 1"
    using that ok at by (auto simp: cell_of_mod[OF d(1), symmetric] word_unat_eq_iff[symmetric])
  then show ?thesis using p at local_step_inv[OF inv, of p t] by auto
qed

lemma pc_step_inv:
  assumes inv: "conc_inv (q, ths) log" and st: "pc_step weak q (ths t) = Some (q', p, e)"
    and small: "length (log @ enq_values [e]) + length (buffer q) < 2 ^ 63"
  shows "conc_inv (q', ths(t := p)) (log @ enq_values [e]) \<and> length (buffer q') = length (buffer q)"
proof -
  note d = conc_invD[OF inv]
  have c: "mem_rd (buffer q) (cell_of q pos) = Some (buffer q ! cell_of q pos)"
    "mem_wr (buffer q) (cell_of q pos) x = Some ((buffer q)[cell_of q pos := x])" for pos x
    using cell_of_lt[OF d(1), of pos] by (simp_all add: mem_simps)
  have sm: "Suc (unat (enqueue_pos q)) < 2 ^ 64" "Suc (unat (dequeue_pos q)) < 2 ^ 64"
    "unat (enqueue_pos q) + length (buffer q) < 2 ^ 64" using small d(4,5) by simp_all
  have ok: "pc_ok (view_of q log) (ths t)" by (rule threads_okD(1)[OF d(3)])
  note local = local_step_inv[OF inv, of _ t]
  show ?thesis
  proof (cases "ths t")
    case Idle
    then show ?thesis using st local[of p] by auto
  next
    case (E_Start v)
    then show ?thesis using st local[of p] by auto
  next
    case (E_Load pos v)
    note load_enq_inv[OF inv E_Load]
    then show ?thesis using E_Load st by (auto simp: c dif_0_iff split: if_splits)
  next
    case (E_Cas pos v)
    then show ?thesis using st ok local[of p] claim_enq_step_inv[OF inv, of t v] sm by (auto split: if_splits)
  next
    case (E_Write pos v)
    then show ?thesis using st write_step_inv[OF inv E_Write] by (auto simp: c)
  next
    case (E_Store pos)
    then show ?thesis using st publish_step_inv[OF inv E_Store sm(1)] by (auto simp: c)
  next
    case D_Start
    then show ?thesis using st local[of p] by auto
  next
    case (D_Load pos)
    note load_deq_inv[OF inv D_Load sm(2)]
    then show ?thesis using D_Load st by (auto simp: c dif_0_iff split: if_splits)
  next
    case (D_Cas pos)
    then show ?thesis using st ok local[of p] claim_deq_step_inv[OF inv, of t] sm by (auto split: if_splits)
  next
    case (D_Read pos)
    have "data (buffer q ! cell_of q pos) = Some (log ! unat pos)"
      using ok D_Read by (simp add: reading_def cell_of_mod[OF d(1), symmetric])
    moreover have "conc_inv (q, ths(t := D_Store pos (log ! unat pos))) log"
      by (rule local) (use ok D_Read in simp_all)
    ultimately show ?thesis using st D_Read by (auto simp: c)
  next
    case (D_Store pos v)
    then show ?thesis using st release_step_inv[OF inv D_Store sm(3)] by (auto simp: c)
  qed
qed

subsection \<open>Executions\<close>

lemma pc_step_events:
  assumes "pc_step weak q pc = Some (q', p, e)"
  shows "dequeue_pos q' = (case e of Claim_Deq _ \<Rightarrow> dequeue_pos q + 1 | _ \<Rightarrow> dequeue_pos q)"
    and "e = Claim_Deq x \<Longrightarrow> x = dequeue_pos q"
    and "p = D_Read x \<Longrightarrow> e = Claim_Deq x"
    and "e = Got x v \<Longrightarrow> pc = D_Read x \<and> p = D_Store x v"
  using assms by (cases pc; auto split: if_splits bind_splits)+

text \<open>What the events of an execution say, next to the invariant.\<close>

definition traced :: "'a event list \<Rightarrow> 'a system \<Rightarrow> bool" where
  "traced es s \<longleftrightarrow>
     deq_positions es = map of_nat [0..<unat (dequeue_pos (fst s))]
     \<and> distinct (map fst (got_values es))
     \<and> (\<forall>(x, v) \<in> set (got_values es). unat x < unat (dequeue_pos (fst s)) \<and> v = enq_values es ! unat x
          \<and> (\<forall>t. snd s t \<noteq> D_Read x))"

lemma traced_quiet:
  assumes tr: "traced es (q, ths)" and ok: "length (enq_values es) = unat (enqueue_pos q)"
    "unat (dequeue_pos q) \<le> unat (enqueue_pos q)"
    and e: "deq_positions [e] = []" "got_values [e] = []" and d: "dequeue_pos q' = dequeue_pos q" and p: "\<And>x. p \<noteq> D_Read x"
  shows "traced (es @ [e]) (q', ths(t := p))"
proof -
  have "v = (enq_values es @ enq_values [e]) ! unat x" if "(x, v) \<in> set (got_values es)" for x v
    using that tr ok by (auto simp: traced_def nth_append)
  then show ?thesis using tr e d p by (auto simp: traced_def)
qed

lemma traced_claim:
  assumes tr: "traced es (q, ths)" and small: "Suc (unat (dequeue_pos q)) < 2 ^ 64" and d: "dequeue_pos q' = dequeue_pos q + 1"
  shows "traced (es @ [Claim_Deq (dequeue_pos q)]) (q', ths(t := D_Read (dequeue_pos q)))"
proof -
  have u: "unat (dequeue_pos q + 1) = Suc (unat (dequeue_pos q))" by (rule unat_Suc_small[OF small])
  have "deq_positions es @ [dequeue_pos q] = map of_nat [0..<Suc (unat (dequeue_pos q))]"
    using tr by (simp add: traced_def)
  moreover have "x \<noteq> dequeue_pos q" if "(x, v) \<in> set (got_values es)" for x v using that tr by (auto simp: traced_def)
  ultimately show ?thesis using tr u d by (fastforce simp: traced_def)
qed

lemma traced_got:
  assumes tr: "traced es (q, ths)" and pc: "ths t = D_Read x" and ex: "exclusive ths"
    and x: "unat x < unat (dequeue_pos q)" and v: "v = enq_values es ! unat x"
  shows "traced (es @ [Got x v]) (q, ths(t := D_Store x v))"
proof -
  have "ths t' \<noteq> D_Read x" if "t' \<noteq> t" for t' using exclusive_other(2)[OF ex that] pc by force
  moreover have "x \<notin> fst ` set (got_values es)" using tr pc by (fastforce simp: traced_def)
  ultimately show ?thesis using tr x v by (fastforce simp: traced_def)
qed

lemma new_conc_inv:
  assumes "queue_ok q []" "enqueue_pos q = 0" "dequeue_pos q = 0"
  shows "conc_inv (q, \<lambda>_. Idle) [] \<and> traced [] (q, \<lambda>_. Idle)"
proof -
  have rs: "ring_size q" using assms(1) by (simp add: queue_ok_def)
  note b = ring_size_bounds[OF rs]
  have "unat (sequence (buffer q ! (p mod length (buffer q)))) = p" if "p < length (buffer q)" for p
  proof -
    have u: "unat (of_nat p :: u64) = p" using that b(2) by (simp add: unsigned_of_nat take_bit_nat_eq_self)
    have "sequence (ring_cell q p) = of_nat p" using queue_okD(6)[OF assms(1) that] assms(3) by simp
    then show ?thesis using cell_of_add[OF rs, of 0 p] assms(3) u by (simp add: ring_cell_def)
  qed
  then have "ring_inv (view_of q [])" by (intro ring_invI) (use b assms in simp_all)
  moreover have "threads_ok (view_of q []) (\<lambda>_. Idle)" by (simp add: threads_ok_def exclusive_def at_most_one_def)
  ultimately show ?thesis using rs assms by (simp add: conc_inv_def traced_def)
qed

lemma step_inv:
  assumes inv: "conc_inv (q, ths) (enq_values es)" and tr: "traced es (q, ths)" and st: "lfq_step (q, ths) e (q', ths')"
    and small: "length (enq_values (es @ [e])) + length (buffer q) < 2 ^ 63"
  shows "conc_inv (q', ths') (enq_values (es @ [e])) \<and> traced (es @ [e]) (q', ths') \<and> length (buffer q') = length (buffer q)"
proof -
  consider (begin_enqueue) t v where "e = Tau" "ths t = Idle" "q' = q" "ths' = ths(t := E_Start v)"
    | (begin_dequeue) t where "e = Tau" "ths t = Idle" "q' = q" "ths' = ths(t := D_Start)"
    | (thread_step) t weak p where "ths t \<noteq> Idle" "ths' = ths(t := p)" "pc_step weak q (ths t) = Some (q', p, e)"
    using st by (auto elim!: lfq_stepE)
  then show ?thesis
  proof cases
    case (begin_enqueue t v)
    then show ?thesis
      using local_step_inv[OF inv, of "E_Start v" t] traced_quiet[OF tr conc_invD(4,5)[OF inv], of Tau q "E_Start v" t] by auto
  next
    case (begin_dequeue t)
    then show ?thesis
      using local_step_inv[OF inv, of D_Start t] traced_quiet[OF tr conc_invD(4,5)[OF inv], of Tau q D_Start t] by auto
  next
    case (thread_step t weak p)
    note d = conc_invD[OF inv] and pe = pc_step_events[OF thread_step(3)]
    have sm: "Suc (unat (dequeue_pos q)) < 2 ^ 64" using small d(4,5) by simp
    have "traced (es @ [e]) (q', ths(t := p))"
    proof (cases e)
      case (Claim_Deq x)
      then show ?thesis using traced_claim[OF tr sm, of q' t] pe(1,2) thread_step(3)
        by (cases "ths t") (auto split: if_splits bind_splits)
    next
      case (Got x v)
      then have pc: "ths t = D_Read x" "p = D_Store x v" using pe(4) by auto
      have "reading (view_of q (enq_values es)) (unat x)" using threads_okD(1)[OF d(3), of t] pc by simp
      moreover have "q' = q" "data (buffer q ! cell_of q x) = Some v"
        using thread_step(3) pc Got by (auto simp: mem_rd_Some_iff split: bind_splits)
      ultimately show ?thesis
        using traced_got[OF tr pc(1) threads_okD(2)[OF d(3)]] pc Got by (simp add: reading_def cell_of_mod[OF d(1)])
    qed (use traced_quiet[OF tr d(4,5), of e q' p t] pe(1,3) in auto)
    then show ?thesis
      using pc_step_inv[OF inv thread_step(3)] small thread_step by simp
  qed
qed

lemma run_inv:
  assumes "lfq_run (q, \<lambda>_. Idle) es (q', ths)" "queue_ok q []" "enqueue_pos q = 0" "dequeue_pos q = 0"
    and "length (enq_values es) + length (buffer q) < 2 ^ 63"
  shows "conc_inv (q', ths) (enq_values es) \<and> traced es (q', ths) \<and> length (buffer q') = length (buffer q)"
  using assms(1,5)
proof (induction es "(q', ths)" arbitrary: q' ths rule: lfq_run.induct)
  case run_nil
  then show ?case using new_conc_inv[OF assms(2-4)] by simp
next
  case (run_snoc es s' e q'' ths'')
  obtain q1 ths1 where s': "s' = (q1, ths1)" by (cases s')
  have "length (enq_values es) + length (buffer q) < 2 ^ 63" using run_snoc.prems by simp
  with run_snoc.hyps(2)[OF s'] have i: "conc_inv (q1, ths1) (enq_values es)" "traced es (q1, ths1)" "length (buffer q1) = length (buffer q)" by auto
  show ?case using step_inv[OF i(1,2) run_snoc.hyps(3)[unfolded s']] run_snoc.prems i(3) by simp
qed

text \<open>
  C11: In every interleaving of any number of producers and consumers on a new queue of capacity at least two
  (as long as fewer than \<open>2 ^ 63\<close> elements minus the capacity are accepted), no thread ever indexes outside
  of the buffer or reads a cell that was not written; consumers are given the positions 0, 1, 2, ... in this order;
  the consumer of a position receives the value of the producer that won that position, and every position is
  received at most once. At no time are more than \<open>capacity\<close> elements accepted and not yet claimed.
\<close>

theorem lfq_concurrent_safe:
  fixes q :: "'a lfq"
  assumes "lfq_new node_size capacity = Some q" "64 \<le> node_size" "2 \<le> capacity"
    and "lfq_run (q, \<lambda>_. Idle) es (q', ths)" "length (enq_values es) + capacity < 2 ^ 63"
  shows "(\<forall>t weak. pc_step weak q' (ths t) \<noteq> None)
    \<and> deq_positions es = map of_nat [0..<length (deq_positions es)]
    \<and> distinct (map fst (got_values es))
    \<and> (\<forall>(x, v) \<in> set (got_values es). unat x < length (deq_positions es) \<and> v = enq_values es ! unat x)
    \<and> length (deq_positions es) \<le> length (enq_values es)
    \<and> length (enq_values es) \<le> length (deq_positions es) + capacity"
proof -
  have q: "queue_ok q []" "length (buffer q) = capacity" using lfq_new_spec[OF assms(1-3)] by simp_all
  have z: "enqueue_pos q = 0" "dequeue_pos q = 0" using assms(1) by (auto simp: lfq_new_def split: if_splits)
  have inv: "conc_inv (q', ths) (enq_values es)" and tr: "traced es (q', ths)" and n: "length (buffer q') = capacity"
    using run_inv[OF assms(4) q(1) z] assms(5) q(2) by auto
  note d = conc_invD[OF inv]
  have l: "length (deq_positions es) = unat (dequeue_pos q')" using tr by (simp add: traced_def)
  have "\<forall>t weak. pc_step weak q' (ths t) \<noteq> None" using pc_step_total[OF inv] by fastforce
  moreover have "unat (enqueue_pos q') \<le> unat (dequeue_pos q') + capacity" using ring_invD(3)[OF d(2)] n by simp
  ultimately show ?thesis using tr l d(4,5) unfolding traced_def by auto
qed

theorem lfq_concurrent_safe_witness:
  "\<exists>(q :: nat lfq) q' ths. lfq_new 64 2 = Some q
    \<and> lfq_run (q, \<lambda>_. Idle) [Tau, Tau] (q', ths) \<and> ths 0 = E_Start 7 \<and> ths 1 = D_Start
    \<and> pc_step False q' (ths 1) \<noteq> None"
proof -
  obtain q :: "nat lfq" where q: "lfq_new 64 2 = Some q" by (simp add: lfq_new_def is_power_of_two.simps)
  let ?ths = "(\<lambda>_. Idle)(0 := E_Start 7, 1 := D_Start)"
  have "lfq_run (q, \<lambda>_. Idle) ([] @ [Tau]) (q, (\<lambda>_. Idle)(0 := E_Start 7))"
    by (rule run_snoc[OF run_nil begin_enqueue]) simp
  then have r: "lfq_run (q, \<lambda>_. Idle) ([Tau] @ [Tau]) (q, ?ths)"
    by (intro run_snoc[OF _ begin_dequeue]) simp_all
  show ?thesis using lfq_concurrent_safe[OF q _ _ r] q r by (intro exI[of _ q] exI[of _ ?ths]) auto
qed

subsection \<open>A producer that loses the race\<close>

lemma solo_spins:
  assumes "solo q p = Some y" "sequence (buffer q ! cell_of q pos) = pos" "enqueue_pos q \<noteq> pos"
    "cell_of q pos < length (buffer q)"
  shows "p \<noteq> E_Load pos v \<and> p \<noteq> E_Cas pos v"
  using assms
proof (induction rule: solo.raw_induct[rotated 1, consumes 1])
  case (1 f q p y)
  show ?case
  proof (rule conjI; rule notI)
    assume "p = E_Load pos v"
    then have "f q (E_Cas pos v) = Some y" using 1(2-) by (simp add: mem_simps)
    then show False using 1(1)[OF _ 1(3-5)] by blast
  next
    assume "p = E_Cas pos v"
    then have "f q (E_Load pos v) = Some y" using 1(2-) by simp
    then show False using 1(1)[OF _ 1(3-5)] by blast
  qed
qed


end
