(* ===== verification/Store_Interface.thy ===== *)
theory Store_Interface
  imports Kallisto_Prelude
begin

text \<open>
  What the engine and the flushers rely on in the persistent store: puts, deletes and atomic batches act on the
  map from keys to values that gets read, a call that reports an error has changed nothing, and batches apply
  their operations in order.
\<close>

datatype batch_op = Batch_Put bytes bytes | Batch_Delete bytes

type_synonym contents = "bytes \<Rightarrow> bytes option"

fun apply_op :: "batch_op \<Rightarrow> contents \<Rightarrow> contents" where
  "apply_op (Batch_Put k v) m = m(k \<mapsto> v)"
| "apply_op (Batch_Delete k) m = m(k := None)"

definition apply_ops :: "batch_op list \<Rightarrow> contents \<Rightarrow> contents" where
  "apply_ops = fold apply_op"

lemma apply_ops_simps [simp]:
  "apply_ops [] m = m"
  "apply_ops (op # ops) m = apply_ops ops (apply_op op m)"
  "apply_ops (xs @ ys) m = apply_ops ys (apply_ops xs m)"
  by (simp_all add: apply_ops_def)

fun op_key :: "batch_op \<Rightarrow> bytes" where
  "op_key (Batch_Put k v) = k"
| "op_key (Batch_Delete k) = k"

lemma apply_op_other: "k \<noteq> op_key op \<Longrightarrow> apply_op op m k = m k"
  by (cases op) auto

lemma apply_ops_other: "k \<notin> op_key ` set ops \<Longrightarrow> apply_ops ops m k = m k"
  by (induction ops arbitrary: m) (auto simp: apply_op_other)

text \<open>The last operation on a key decides its value.\<close>

lemma apply_ops_last: "op_key op = k \<Longrightarrow> k \<notin> op_key ` set ops' \<Longrightarrow> apply_ops (ops @ op # ops') m k = apply_op op Map.empty k"
  by (cases op) (auto simp: apply_ops_other)

text \<open>The operations of a batch, one call each; the first error stops.\<close>

fun one_by_one :: "('s \<Rightarrow> bytes \<Rightarrow> bytes \<Rightarrow> (string + unit) \<times> 's) \<Rightarrow> ('s \<Rightarrow> bytes \<Rightarrow> (string + unit) \<times> 's)
    \<Rightarrow> 's \<Rightarrow> batch_op list \<Rightarrow> (string + unit) \<times> 's" where
  "one_by_one put del s [] = (Inr (), s)"
| "one_by_one put del s (Batch_Put k v # ops) =
     (case put s k v of (Inl e, s') \<Rightarrow> (Inl e, s') | (Inr u, s') \<Rightarrow> one_by_one put del s' ops)"
| "one_by_one put del s (Batch_Delete k # ops) =
     (case del s k of (Inl e, s') \<Rightarrow> (Inl e, s') | (Inr u, s') \<Rightarrow> one_by_one put del s' ops)"

locale key_value_store =
  fixes inv :: "'s \<Rightarrow> bool"
    and content :: "'s \<Rightarrow> contents"
    and put :: "'s \<Rightarrow> bytes \<Rightarrow> bytes \<Rightarrow> (string + unit) \<times> 's"
    and get :: "'s \<Rightarrow> bytes \<Rightarrow> string + bytes option"
    and del :: "'s \<Rightarrow> bytes \<Rightarrow> (string + unit) \<times> 's"
    and batch :: "'s \<Rightarrow> batch_op list \<Rightarrow> (string + unit) \<times> 's"
  assumes put_law: "inv s \<Longrightarrow> put s k v = (r, s') \<Longrightarrow>
      inv s' \<and> content s' = (case r of Inl e \<Rightarrow> content s | Inr u \<Rightarrow> (content s)(k \<mapsto> v))"
    and del_law: "inv s \<Longrightarrow> del s k = (r, s') \<Longrightarrow>
      inv s' \<and> content s' = (case r of Inl e \<Rightarrow> content s | Inr u \<Rightarrow> (content s)(k := None))"
    and batch_law: "inv s \<Longrightarrow> batch s ops = (r, s') \<Longrightarrow>
      inv s' \<and> content s' = (case r of Inl e \<Rightarrow> content s | Inr u \<Rightarrow> apply_ops ops (content s))"
    and get_law: "inv s \<Longrightarrow> get s k = Inr x \<Longrightarrow> x = content s k"
begin

lemma one_by_one_content:
  "inv s \<Longrightarrow> one_by_one put del s ops = (Inr (), s') \<Longrightarrow> inv s' \<and> content s' = apply_ops ops (content s)"
proof (induction ops arbitrary: s)
  case (Cons op ops)
  show ?case
  proof (cases op)
    case (Batch_Put k v)
    obtain r s1 where p: "put s k v = (r, s1)" by fastforce
    then have "r = Inr ()" "one_by_one put del s1 ops = (Inr (), s')"
      using Cons(3) Batch_Put by (auto split: sum.splits)
    then show ?thesis using put_law[OF Cons(2) p] Cons(1)[of s1] Batch_Put by (simp add: fun_upd_def)
  next
    case (Batch_Delete k)
    obtain r s1 where p: "del s k = (r, s1)" by fastforce
    then have "r = Inr ()" "one_by_one put del s1 ops = (Inr (), s')"
      using Cons(3) Batch_Delete by (auto split: sum.splits)
    then show ?thesis using del_law[OF Cons(2) p] Cons(1)[of s1] Batch_Delete by (simp add: fun_upd_def)
  qed
qed simp

lemma batch_sequential:
  "inv s \<Longrightarrow> batch s ops = (Inr (), s1) \<Longrightarrow> one_by_one put del s ops = (Inr (), s2) \<Longrightarrow> content s1 = content s2"
  using batch_law[of s ops "Inr ()" s1] one_by_one_content[of s ops s2] by simp

end

end
