(* ===== verification/Rocksdb_Backend.thy ===== *)
theory Rocksdb_Backend
  imports Store_Interface
begin

text \<open>
  The wrapper around RocksDB (\<^verbatim>\<open>src/storage/rocksdb_backend.rs\<close>).  RocksDB itself is a parameter: a record of the calls
  the wrapper makes, on an abstract database, write batch and iterator.  The errors are the strings the callers
  print.  \<open>rocks_ok\<close> states the documented behaviour of those calls through the contents of a database, the
  operations of a write batch and the pairs an iterator has still to visit.
\<close>

record ('db, 'wb, 'it) rocks =
  db_open :: "string \<Rightarrow> string + 'db"
  put_opt :: "'db \<Rightarrow> bytes \<Rightarrow> bytes \<Rightarrow> bool \<Rightarrow> (string + unit) \<times> 'db"
  db_get :: "'db \<Rightarrow> bytes \<Rightarrow> string + bytes option"
  delete_opt :: "'db \<Rightarrow> bytes \<Rightarrow> bool \<Rightarrow> (string + unit) \<times> 'db"
  write_opt :: "'db \<Rightarrow> 'wb \<Rightarrow> bool \<Rightarrow> (string + unit) \<times> 'db"
  db_flush :: "'db \<Rightarrow> (string + unit) \<times> 'db"
  wb_default :: 'wb
  wb_put :: "'wb \<Rightarrow> bytes \<Rightarrow> bytes \<Rightarrow> 'wb"
  wb_delete :: "'wb \<Rightarrow> bytes \<Rightarrow> 'wb"
  raw_iterator :: "'db \<Rightarrow> 'it"
  seek_to_first :: "'it \<Rightarrow> 'it"
  it_valid :: "'it \<Rightarrow> bool"
  it_key :: "'it \<Rightarrow> bytes option"
  it_value :: "'it \<Rightarrow> bytes option"
  it_next :: "'it \<Rightarrow> 'it"

record 'db rocksdb_backend =
  db_handle :: 'db
  sync_flag :: bool

definition backend_open :: "('db, 'wb, 'it) rocks \<Rightarrow> string \<Rightarrow> string + 'db rocksdb_backend" where
  "backend_open R path = (case db_open R path of
     Inl e \<Rightarrow> Inl e
   | Inr d \<Rightarrow> Inr \<lparr>db_handle = d, sync_flag = False\<rparr>)"

definition set_sync :: "'db rocksdb_backend \<Rightarrow> bool \<Rightarrow> 'db rocksdb_backend" where
  "set_sync b s = b\<lparr>sync_flag := s\<rparr>"

definition is_sync :: "'db rocksdb_backend \<Rightarrow> bool" where
  "is_sync b = sync_flag b"

text \<open>A call through the handle: the database it returns replaces the old one.\<close>

definition on_db :: "'db rocksdb_backend \<Rightarrow> 'r \<times> 'db \<Rightarrow> 'r \<times> 'db rocksdb_backend" where
  "on_db b c = (fst c, b\<lparr>db_handle := snd c\<rparr>)"

definition put_raw :: "('db, 'wb, 'it) rocks \<Rightarrow> 'db rocksdb_backend \<Rightarrow> bytes \<Rightarrow> bytes \<Rightarrow> (string + unit) \<times> 'db rocksdb_backend" where
  "put_raw R b key val = on_db b (put_opt R (db_handle b) key val (sync_flag b))"

definition get_raw :: "('db, 'wb, 'it) rocks \<Rightarrow> 'db rocksdb_backend \<Rightarrow> bytes \<Rightarrow> string + bytes option" where
  "get_raw R b key = db_get R (db_handle b) key"

definition del_raw :: "('db, 'wb, 'it) rocks \<Rightarrow> 'db rocksdb_backend \<Rightarrow> bytes \<Rightarrow> (string + unit) \<times> 'db rocksdb_backend" where
  "del_raw R b key = on_db b (delete_opt R (db_handle b) key (sync_flag b))"

fun fill_batch :: "('db, 'wb, 'it) rocks \<Rightarrow> batch_op list \<Rightarrow> 'wb \<Rightarrow> 'wb" where
  "fill_batch R [] wb = wb"
| "fill_batch R (Batch_Put k v # ops) wb = fill_batch R ops (wb_put R wb k v)"
| "fill_batch R (Batch_Delete k # ops) wb = fill_batch R ops (wb_delete R wb k)"

definition apply_batch :: "('db, 'wb, 'it) rocks \<Rightarrow> 'db rocksdb_backend \<Rightarrow> batch_op list \<Rightarrow> (string + unit) \<times> 'db rocksdb_backend" where
  "apply_batch R b ops =
     (if ops = [] then (Inr (), b)
      else on_db b (write_opt R (db_handle b) (fill_batch R ops (wb_default R)) (sync_flag b)))"

text \<open>The loops over an iterator; the callback threads a state \<open>'s\<close> and may panic.\<close>

partial_function (option) keys_loop ::
  "('db, 'wb, 'it) rocks \<Rightarrow> (bytes \<Rightarrow> 's \<Rightarrow> 's option) \<Rightarrow> 'it \<Rightarrow> 's \<Rightarrow> 's option" where
  "keys_loop R callback it s =
     (if \<not> it_valid R it then Some s
      else do {
        s \<leftarrow> (case it_key R it of None \<Rightarrow> Some s | Some k \<Rightarrow> callback k s);
        keys_loop R callback (it_next R it) s
      })"

definition iterate_keys :: "('db, 'wb, 'it) rocks \<Rightarrow> 'db rocksdb_backend \<Rightarrow> (bytes \<Rightarrow> 's \<Rightarrow> 's option) \<Rightarrow> 's \<Rightarrow> 's option" where
  "iterate_keys R b callback = keys_loop R callback (seek_to_first R (raw_iterator R (db_handle b)))"

partial_function (option) pairs_loop ::
  "('db, 'wb, 'it) rocks \<Rightarrow> (bytes \<Rightarrow> bytes \<Rightarrow> 's \<Rightarrow> 's option) \<Rightarrow> 'it \<Rightarrow> 's \<Rightarrow> 's option" where
  "pairs_loop R callback it s =
     (if \<not> it_valid R it then Some s
      else do {
        s \<leftarrow> (case (it_key R it, it_value R it) of (Some k, Some v) \<Rightarrow> callback k v s | _ \<Rightarrow> Some s);
        pairs_loop R callback (it_next R it) s
      })"

definition iterate_all :: "('db, 'wb, 'it) rocks \<Rightarrow> 'db rocksdb_backend \<Rightarrow> (bytes \<Rightarrow> bytes \<Rightarrow> 's \<Rightarrow> 's option) \<Rightarrow> 's \<Rightarrow> 's option" where
  "iterate_all R b callback = pairs_loop R callback (seek_to_first R (raw_iterator R (db_handle b)))"

definition backend_flush :: "('db, 'wb, 'it) rocks \<Rightarrow> 'db rocksdb_backend \<Rightarrow> (string + unit) \<times> 'db rocksdb_backend" where
  "backend_flush R b = on_db b (db_flush R (db_handle b))"

section \<open>The documented behaviour of RocksDB\<close>

record ('db, 'wb, 'it) rocks_view =
  db_contents :: "'db \<Rightarrow> contents"
  wb_ops :: "'wb \<Rightarrow> batch_op list"
  it_rest :: "'it \<Rightarrow> (bytes \<times> bytes) list"

text \<open>A call that succeeds has the given effect on the contents; a call that fails has none.\<close>

definition effect :: "('db \<Rightarrow> contents) \<Rightarrow> contents \<Rightarrow> contents \<Rightarrow> (string + unit) \<times> 'db \<Rightarrow> bool" where
  "effect cont old new c = (cont (snd c) = (case fst c of Inl e \<Rightarrow> old | Inr u \<Rightarrow> new))"

definition writes_ok :: "('db, 'wb, 'it) rocks \<Rightarrow> ('db, 'wb, 'it) rocks_view \<Rightarrow> bool" where
  "writes_ok R V = (\<forall>d k v wb s.
     effect (db_contents V) (db_contents V d) ((db_contents V d)(k \<mapsto> v)) (put_opt R d k v s)
   \<and> effect (db_contents V) (db_contents V d) ((db_contents V d)(k := None)) (delete_opt R d k s)
   \<and> effect (db_contents V) (db_contents V d) (apply_ops (wb_ops V wb) (db_contents V d)) (write_opt R d wb s)
   \<and> effect (db_contents V) (db_contents V d) (db_contents V d) (db_flush R d)
   \<and> wb_ops V (wb_default R) = []
   \<and> wb_ops V (wb_put R wb k v) = wb_ops V wb @ [Batch_Put k v]
   \<and> wb_ops V (wb_delete R wb k) = wb_ops V wb @ [Batch_Delete k])"

definition reads_ok :: "('db, 'wb, 'it) rocks \<Rightarrow> ('db, 'wb, 'it) rocks_view \<Rightarrow> bool" where
  "reads_ok R V = (\<forall>d k. case db_get R d k of Inl e \<Rightarrow> True | Inr x \<Rightarrow> x = db_contents V d k)"

text \<open>An iterator starts at the smallest key and visits every pair of the database in the order of the keys.\<close>

definition iterator_ok :: "('db, 'wb, 'it) rocks \<Rightarrow> ('db, 'wb, 'it) rocks_view \<Rightarrow> bool" where
  "iterator_ok R V = (
     (\<forall>d. let ps = it_rest V (seek_to_first R (raw_iterator R d)) in
        sorted_wrt (<) (map fst ps) \<and> map_of ps = db_contents V d)
   \<and> (\<forall>it. it_valid R it = (it_rest V it \<noteq> [])
      \<and> (it_rest V it \<noteq> [] \<longrightarrow> it_key R it = Some (fst (hd (it_rest V it))) \<and> it_value R it = Some (snd (hd (it_rest V it)))
         \<and> it_rest V (it_next R it) = tl (it_rest V it))))"

definition rocks_ok :: "('db, 'wb, 'it) rocks \<Rightarrow> ('db, 'wb, 'it) rocks_view \<Rightarrow> bool" where
  "rocks_ok R V = (writes_ok R V \<and> reads_ok R V \<and> iterator_ok R V)"

text \<open>No call fails.\<close>

definition rocks_reliable :: "('db, 'wb, 'it) rocks \<Rightarrow> bool" where
  "rocks_reliable R = (\<forall>d k v wb s. fst (put_opt R d k v s) = Inr () \<and> fst (delete_opt R d k s) = Inr ()
     \<and> fst (write_opt R d wb s) = Inr () \<and> fst (db_flush R d) = Inr () \<and> (\<exists>x. db_get R d k = Inr x))"

definition disk :: "('db, 'wb, 'it) rocks_view \<Rightarrow> 'db rocksdb_backend \<Rightarrow> contents" where
  "disk V b = db_contents V (db_handle b)"

lemma fill_batch_ops: "writes_ok R V \<Longrightarrow> wb_ops V (fill_batch R ops wb) = wb_ops V wb @ ops"
  by (induction R ops wb rule: fill_batch.induct) (auto simp: writes_ok_def)

lemma on_db_effect:
  "effect (db_contents V) (disk V b) new c \<Longrightarrow> on_db b c = (r, b')
   \<Longrightarrow> disk V b' = (case r of Inl e \<Rightarrow> disk V b | Inr u \<Rightarrow> new) \<and> sync_flag b' = sync_flag b"
  by (auto simp: on_db_def effect_def disk_def split: sum.splits)

lemma put_raw_effect:
  "rocks_ok R V \<Longrightarrow> put_raw R b k v = (r, b')
   \<Longrightarrow> disk V b' = (case r of Inl e \<Rightarrow> disk V b | Inr u \<Rightarrow> (disk V b)(k \<mapsto> v)) \<and> sync_flag b' = sync_flag b"
  unfolding put_raw_def by (rule on_db_effect) (simp_all add: rocks_ok_def writes_ok_def disk_def)

lemma del_raw_effect:
  "rocks_ok R V \<Longrightarrow> del_raw R b k = (r, b')
   \<Longrightarrow> disk V b' = (case r of Inl e \<Rightarrow> disk V b | Inr u \<Rightarrow> (disk V b)(k := None)) \<and> sync_flag b' = sync_flag b"
  unfolding del_raw_def by (rule on_db_effect) (simp_all add: rocks_ok_def writes_ok_def disk_def)

lemma flush_effect:
  "rocks_ok R V \<Longrightarrow> backend_flush R b = (r, b') \<Longrightarrow> disk V b' = disk V b \<and> sync_flag b' = sync_flag b"
  unfolding backend_flush_def using on_db_effect[of V b "disk V b" "db_flush R (db_handle b)" r b']
  by (auto simp: rocks_ok_def writes_ok_def disk_def split: sum.splits)

lemma apply_batch_effect:
  assumes "rocks_ok R V" "apply_batch R b ops = (r, b')"
  shows "disk V b' = (case r of Inl e \<Rightarrow> disk V b | Inr u \<Rightarrow> apply_ops ops (disk V b)) \<and> sync_flag b' = sync_flag b"
proof (cases "ops = []")
  case True
  then show ?thesis using assms(2) by (auto simp: apply_batch_def)
next
  case False
  have w: "writes_ok R V" using assms(1) by (simp add: rocks_ok_def)
  have "wb_ops V (fill_batch R ops (wb_default R)) = ops"
    using fill_batch_ops[OF w, of ops "wb_default R"] w by (simp add: writes_ok_def)
  moreover have "effect (db_contents V) (disk V b) (apply_ops (wb_ops V wb) (disk V b)) (write_opt R (db_handle b) wb s)" for wb s
    using w by (simp add: writes_ok_def disk_def)
  ultimately have "effect (db_contents V) (disk V b) (apply_ops ops (disk V b))
      (write_opt R (db_handle b) (fill_batch R ops (wb_default R)) (sync_flag b))" by metis
  then show ?thesis using assms(2) False by (auto simp: apply_batch_def dest!: on_db_effect)
qed

lemma get_raw_ok: "rocks_ok R V \<Longrightarrow> get_raw R b k = Inr x \<Longrightarrow> x = disk V b k"
  unfolding rocks_ok_def reads_ok_def get_raw_def disk_def by (metis sum.simps(6))

interpretation rdb: key_value_store "\<lambda>b. rocks_ok R V" "disk V" "put_raw R" "get_raw R" "del_raw R" "apply_batch R"
  for R :: "('db, 'wb, 'it) rocks" and V
  by unfold_locales
    (auto dest: put_raw_effect del_raw_effect apply_batch_effect get_raw_ok)

section \<open>Iteration\<close>

lemma keys_loop_foldm:
  "iterator_ok R V \<Longrightarrow> keys_loop R f it s = foldm f (map fst (it_rest V it)) s"
proof (induction "it_rest V it" arbitrary: it s)
  case Nil
  then show ?case by (subst keys_loop.simps) (auto simp: iterator_ok_def)
next
  case (Cons p ps)
  have it: "it_valid R it" "it_key R it = Some (fst p)" "it_rest V (it_next R it) = ps"
    using Cons(2,3) unfolding iterator_ok_def by (metis list.distinct(1) list.sel(1,3))+
  have "keys_loop R f (it_next R it) = foldm f (map fst ps)"
    using Cons(1)[OF it(3)[symmetric] Cons(3)] it(3) by (intro ext) simp
  then show ?case using it Cons(2)[symmetric] by (subst keys_loop.simps) simp
qed

lemma pairs_loop_foldm:
  "iterator_ok R V \<Longrightarrow> pairs_loop R f it s = foldm (\<lambda>(k, v). f k v) (it_rest V it) s"
proof (induction "it_rest V it" arbitrary: it s)
  case Nil
  then show ?case by (subst pairs_loop.simps) (auto simp: iterator_ok_def)
next
  case (Cons p ps)
  have it: "it_valid R it" "it_key R it = Some (fst p)" "it_value R it = Some (snd p)" "it_rest V (it_next R it) = ps"
    using Cons(2,3) unfolding iterator_ok_def by (metis list.distinct(1) list.sel(1,3))+
  have "pairs_loop R f (it_next R it) = foldm (\<lambda>(k, v). f k v) ps"
    using Cons(1)[OF it(4)[symmetric] Cons(3)] it(4) by (intro ext) simp
  then show ?case using it Cons(2)[symmetric] by (subst pairs_loop.simps) (simp add: case_prod_beta)
qed

lemma first_position:
  assumes "iterator_ok R V"
  defines "ps \<equiv> \<lambda>b. it_rest V (seek_to_first R (raw_iterator R (db_handle b)))"
  shows "map fst (ps b) = sorted_list_of_set (dom (disk V b))" "map_of (ps b) = disk V b" "distinct (map fst (ps b))" "finite (dom (disk V b))"
proof -
  have *: "sorted_wrt (<) (map fst (ps b))" "map_of (ps b) = disk V b"
    using assms(1) by (simp_all add: iterator_ok_def Let_def ps_def disk_def)
  show "map_of (ps b) = disk V b" by fact
  have d: "dom (disk V b) = set (map fst (ps b))" by (simp add: *(2)[symmetric] dom_map_of_conv_image_fst)
  show "finite (dom (disk V b))" by (simp add: d)
  show dist: "distinct (map fst (ps b))" using *(1) by (simp add: strict_sorted_iff)
  show "map fst (ps b) = sorted_list_of_set (dom (disk V b))"
    unfolding d using *(1) by (metis sorted_list_of_set.idem_if_sorted_distinct strict_sorted_iff)
qed

lemma iterate_keys_foldm:
  "rocks_ok R V \<Longrightarrow> iterate_keys R b f s = foldm f (sorted_list_of_set (dom (disk V b))) s"
  by (simp add: iterate_keys_def keys_loop_foldm[of R V] first_position rocks_ok_def)

section \<open>An instance\<close>

text \<open>A database kept in memory as a list of pairs, with the newest first: it behaves as documented.\<close>

definition mem_pairs :: "(bytes \<times> bytes) list \<Rightarrow> (bytes \<times> bytes) list" where
  "mem_pairs d = map (\<lambda>k. (k, the (map_of d k))) (sorted_list_of_set (set (map fst d)))"

fun mem_write :: "batch_op \<Rightarrow> (bytes \<times> bytes) list \<Rightarrow> (bytes \<times> bytes) list" where
  "mem_write (Batch_Put k v) d = (k, v) # d"
| "mem_write (Batch_Delete k) d = filter (\<lambda>p. fst p \<noteq> k) d"

definition mem_rocks :: "((bytes \<times> bytes) list, batch_op list, (bytes \<times> bytes) list) rocks" where
  "mem_rocks = \<lparr>db_open = (\<lambda>path. Inr []), put_opt = (\<lambda>d k v s. (Inr (), mem_write (Batch_Put k v) d)),
     db_get = (\<lambda>d k. Inr (map_of d k)), delete_opt = (\<lambda>d k s. (Inr (), mem_write (Batch_Delete k) d)),
     write_opt = (\<lambda>d wb s. (Inr (), fold mem_write wb d)), db_flush = (\<lambda>d. (Inr (), d)),
     wb_default = [], wb_put = (\<lambda>wb k v. wb @ [Batch_Put k v]), wb_delete = (\<lambda>wb k. wb @ [Batch_Delete k]),
     raw_iterator = mem_pairs, seek_to_first = (\<lambda>it. it), it_valid = (\<lambda>it. it \<noteq> []),
     it_key = (\<lambda>it. Some (fst (hd it))), it_value = (\<lambda>it. Some (snd (hd it))), it_next = tl\<rparr>"

definition mem_view :: "((bytes \<times> bytes) list, batch_op list, (bytes \<times> bytes) list) rocks_view" where
  "mem_view = \<lparr>db_contents = map_of, wb_ops = (\<lambda>wb. wb), it_rest = (\<lambda>it. it)\<rparr>"

lemma map_of_filter_key: "map_of (filter (\<lambda>p. fst p \<noteq> k) d) = (map_of d)(k := None)"
  by (induction d) auto

lemma mem_write_contents: "map_of (mem_write op d) = apply_op op (map_of d)"
  by (cases op) (simp_all add: map_of_filter_key)

lemma mem_writes_contents: "map_of (fold mem_write ops d) = apply_ops ops (map_of d)"
  by (induction ops arbitrary: d) (simp_all add: mem_write_contents)

lemma mem_pairs_contents: "sorted_wrt (<) (map fst (mem_pairs d))" "map_of (mem_pairs d) = map_of d"
proof -
  have "map fst (mem_pairs d) = sorted_list_of_set (set (map fst d))" by (simp add: mem_pairs_def comp_def)
  then show "sorted_wrt (<) (map fst (mem_pairs d))" by simp
  show "map_of (mem_pairs d) = map_of d"
  proof
    fix k
    show "map_of (mem_pairs d) k = map_of d k"
      using map_of_eq_None_iff[of d k]
      by (cases "map_of d k") (auto simp: mem_pairs_def map_of_map_restrict restrict_map_def)
  qed
qed

lemma mem_rocks_ok: "rocks_ok mem_rocks mem_view" "rocks_reliable mem_rocks"
  by (simp_all add: rocks_ok_def writes_ok_def reads_ok_def iterator_ok_def effect_def rocks_reliable_def
      mem_rocks_def mem_view_def mem_pairs_contents mem_writes_contents map_of_filter_key)

section \<open>Properties\<close>

text \<open>
  A batch is atomic and in order: when the write fails the stored data are as before, and when it succeeds
  they are what the same operations leave when each is a call of its own to \<open>put_raw\<close> or \<open>del_raw\<close>.  An empty batch
  does not reach the database at all.
\<close>

lemma apply_batch_sequential:
  assumes "rocks_ok R V"
    and "apply_batch R b ops = (r, b1)"
    and "one_by_one (put_raw R) (del_raw R) b ops = (Inr (), b2)"
  shows "disk V b1 = (case r of Inl e \<Rightarrow> disk V b | Inr u \<Rightarrow> disk V b2) \<and> (ops = [] \<longrightarrow> r = Inr () \<and> b1 = b)"
proof -
  have "disk V b1 = (case r of Inl e \<Rightarrow> disk V b | Inr u \<Rightarrow> apply_ops ops (disk V b))"
    using apply_batch_effect[OF assms(1,2)] by simp
  moreover have "disk V b2 = apply_ops ops (disk V b)"
    using rdb.one_by_one_content[where R = R and V = V, OF assms(1,3)] by simp
  moreover have "ops = [] \<longrightarrow> r = Inr () \<and> b1 = b" using assms(2) by (auto simp: apply_batch_def)
  ultimately show ?thesis by (cases r) simp_all
qed

definition mem_backend :: "(bytes \<times> bytes) list \<Rightarrow> (bytes \<times> bytes) list rocksdb_backend" where
  "mem_backend d = \<lparr>db_handle = d, sync_flag = False\<rparr>"

text \<open>
  C27: The two scans of the database return: they call back once for every key that is stored, in the order of the
  keys, and \<open>iterate_all\<close> passes with each key the value that a get would return.
\<close>

theorem iterate_ok:
  assumes "rocks_ok R V"
  shows "iterate_keys R b callback s = foldm callback (sorted_list_of_set (dom (disk V b))) s
    \<and> iterate_all R b callback2 s =
        foldm (\<lambda>k. callback2 k (the (disk V b k))) (sorted_list_of_set (dom (disk V b))) s
    \<and> finite (dom (disk V b))"
proof -
  have it: "iterator_ok R V" using assms by (simp add: rocks_ok_def)
  define ps where "ps = it_rest V (seek_to_first R (raw_iterator R (db_handle b)))"
  have ps: "map fst ps = sorted_list_of_set (dom (disk V b))" "map_of ps = disk V b" "distinct (map fst ps)"
    using first_position[OF it, of b] by (simp_all add: ps_def)
  have fold: "foldm (\<lambda>(k, v). callback2 k v) qs s = foldm (\<lambda>k. callback2 k (the (disk V b k))) (map fst qs) s"
    if "set qs \<subseteq> set ps" for qs s
    using that
  proof (induction qs arbitrary: s)
    case (Cons q qs)
    have "disk V b (fst q) = Some (snd q)"
      using Cons(2) ps(3) by (simp add: ps(2)[symmetric])
    then show ?case using Cons by (cases "callback2 (fst q) (snd q) s") (simp_all add: case_prod_beta)
  qed simp
  have "iterate_all R b callback2 s = foldm (\<lambda>(k, v). callback2 k v) ps s"
    unfolding iterate_all_def ps_def by (rule pairs_loop_foldm[OF it])
  then show ?thesis
    using iterate_keys_foldm[OF assms] fold[OF subset_refl] first_position(4)[OF it] unfolding ps(1) by simp
qed

theorem iterate_ok_witness:
  "iterate_keys mem_rocks (mem_backend [(''m:b'', ''x''), (''m:a'', ''y'')]) (\<lambda>k ks. Some (ks @ [k])) [] = Some [''m:a'', ''m:b'']"
  using iterate_ok[OF mem_rocks_ok(1), of "mem_backend [(''m:b'', ''x''), (''m:a'', ''y'')]" "\<lambda>k ks. Some (ks @ [k])" "[]"]
  by (simp add: disk_def mem_view_def mem_backend_def less_eq_char_def)

end
