(* ===== verification/Write_Behind.thy ===== *)
theory Write_Behind
  imports Store_Interface Queue_Interface
begin

text \<open>
  Write-behind: callers queue operations and one worker thread collects them into batches for the store.  The
  definitions here are the worker loop of the key-value engine (\<^verbatim>\<open>src/engine/kv_engine.rs\<close>, \<^verbatim>\<open>async_worker_loop\<close>),
  over any queue and store; the locale \<open>write_behind\<close> combines the contracts of the two, and its lemmas say what
  is in flight.  \<open>Kv_Worker\<close> interprets it on the lock-free queue, \<open>Async_Flusher\<close> on a channel.
\<close>

text \<open>One pass of the loop while the worker is told to run; whether the flush interval has passed is an input.\<close>

definition flush_if_due :: "('s \<Rightarrow> batch_op list \<Rightarrow> (string + unit) \<times> 's) \<Rightarrow> nat \<Rightarrow> bool \<Rightarrow> batch_op list \<Rightarrow> 's
    \<Rightarrow> batch_op list \<times> 's" where
  "flush_if_due batch n timeout_reached bt s =
     (if n \<le> length bt \<or> (timeout_reached \<and> bt \<noteq> []) then ([], snd (batch s bt)) else (bt, s))"

definition worker_iter :: "('q, 'a) queue_deq \<Rightarrow> ('a \<Rightarrow> batch_op) \<Rightarrow> ('s \<Rightarrow> batch_op list \<Rightarrow> (string + unit) \<times> 's) \<Rightarrow> nat
    \<Rightarrow> bool \<Rightarrow> 'q \<times> batch_op list \<times> 's \<Rightarrow> ('q \<times> batch_op list \<times> 's) option" where
  "worker_iter deq conv batch n timeout_reached w = (case w of (q, bt, s) \<Rightarrow> do {
     (r, q') \<leftarrow> deq q;
     let bt' = (case r of Inl e \<Rightarrow> bt | Inr op \<Rightarrow> bt @ [conv op]);
     Some (q', flush_if_due batch n timeout_reached bt' s)
   })"

text \<open>What the worker does once it is told to stop: take out what is left and write it.\<close>

definition worker_exit :: "('q, 'a) queue_deq \<Rightarrow> ('a \<Rightarrow> batch_op) \<Rightarrow> ('s \<Rightarrow> batch_op list \<Rightarrow> (string + unit) \<times> 's)
    \<Rightarrow> 'q \<times> batch_op list \<times> 's \<Rightarrow> ('q \<times> 's) option" where
  "worker_exit deq conv batch w = (case w of (q, bt, s) \<Rightarrow> do {
     (ops, q') \<leftarrow> drain deq q [];
     let bt' = bt @ map conv ops;
     Some (q', if bt' = [] then s else snd (batch s bt'))
   })"

text \<open>What the store will contain once everything in flight is written.\<close>

definition in_flight :: "('q \<Rightarrow> 'a list) \<Rightarrow> ('a \<Rightarrow> batch_op) \<Rightarrow> 'q \<Rightarrow> batch_op list \<Rightarrow> batch_op list" where
  "in_flight items conv q bt = bt @ map conv (items q)"

lemma flush_if_due_length: "length (fst (flush_if_due batch n t bt s)) < n" if "0 < n"
  using that by (simp add: flush_if_due_def)

locale write_behind = q: bounded_queue qinv items cap enq deq + s: key_value_store sinv content put get del batch
  for qinv :: "'q \<Rightarrow> bool" and items :: "'q \<Rightarrow> 'a list" and cap enq deq
    and sinv :: "'s \<Rightarrow> bool" and content put get del batch +
  fixes conv :: "'a \<Rightarrow> batch_op"
begin

lemma batch_ok:
  assumes "sinv s" "fst (batch s ops) = Inr ()"
  shows "sinv (snd (batch s ops))" "content (snd (batch s ops)) = apply_ops ops (content s)"
proof -
  have "batch s ops = (Inr (), snd (batch s ops))" using assms(2) by (simp add: prod_eq_iff)
  from s.batch_law[OF assms(1) this] show "sinv (snd (batch s ops))" "content (snd (batch s ops)) = apply_ops ops (content s)"
    by simp_all
qed

lemma flush_settles:
  assumes "sinv s" "\<And>ops. fst (batch s ops) = Inr ()" "flush_if_due batch n t bt s = (bt', s')"
  shows "sinv s'" "apply_ops (bt' @ ops) (content s') = apply_ops (bt @ ops) (content s)"
  using batch_ok[OF assms(1), of bt] assms(2)[of bt] assms(3) assms(1) by (auto simp: flush_if_due_def split: if_splits)

lemma iter_settles:
  assumes "qinv q" "sinv s" "\<And>ops. fst (batch s ops) = Inr ()"
  shows "\<exists>q' bt' s'. worker_iter deq conv batch n t (q, bt, s) = Some (q', bt', s') \<and> qinv q' \<and> cap q' = cap q \<and> sinv s'
    \<and> apply_ops (in_flight items conv q' bt') (content s') = apply_ops (in_flight items conv q bt) (content s)"
proof -
  obtain r q' where q': "deq q = Some (r, q')" "qinv q'" "cap q' = cap q"
    "items q = (case r of Inl e \<Rightarrow> [] | Inr x \<Rightarrow> [x]) @ items q'"
    using q.deq_law[OF assms(1)] by (cases "items q") auto
  define bt1 where "bt1 = (case r of Inl e \<Rightarrow> bt | Inr op \<Rightarrow> bt @ [conv op])"
  obtain bt' s' where f: "flush_if_due batch n t bt1 s = (bt', s')" by fastforce
  have "in_flight items conv q bt = bt1 @ map conv (items q')"
    by (cases r) (simp_all add: in_flight_def q'(4) bt1_def)
  then have "apply_ops (in_flight items conv q' bt') (content s') = apply_ops (in_flight items conv q bt) (content s)"
    using flush_settles(2)[OF assms(2,3) f] by (simp only: in_flight_def)
  then show ?thesis using q' f flush_settles(1)[OF assms(2,3) f] by (auto simp: worker_iter_def bt1_def Let_def)
qed

lemma exit_settles:
  assumes "qinv q" "sinv s" "\<And>ops. fst (batch s ops) = Inr ()"
  shows "\<exists>q' s'. worker_exit deq conv batch (q, bt, s) = Some (q', s') \<and> qinv q' \<and> items q' = [] \<and> sinv s'
    \<and> content s' = apply_ops (in_flight items conv q bt) (content s)"
proof -
  obtain q' where q': "drain deq q [] = Some (items q, q')" "qinv q'" "items q' = []"
    using q.drain_law[OF assms(1), of "[]"] by auto
  then show ?thesis
    using batch_ok[OF assms(2), of "in_flight items conv q bt"] assms(3)[of "in_flight items conv q bt"] assms(2)
    by (simp add: worker_exit_def in_flight_def Let_def)
qed

end

end
