(* ===== verification/Async_Flusher.thy ===== *)
theory Async_Flusher
  imports Rocksdb_Backend Write_Behind
begin

text \<open>
  The asynchronous flusher (\<^verbatim>\<open>src/storage/async_flusher.rs\<close>): a bounded channel into which callers send operations and
  a worker thread that writes them to RocksDB in batches.  The channel of the crossbeam crate is a parameter,
  with its documented behaviour as \<open>channel_ok\<close>.  The worker's local batch is part of the state; \<open>None\<close> once the
  thread has ended.
\<close>

datatype async_op = Async_Put bytes bytes | Async_Delete bytes

fun convert_op :: "async_op \<Rightarrow> batch_op" where
  "convert_op (Async_Put key val) = Batch_Put key val"
| "convert_op (Async_Delete key) = Batch_Delete key"

datatype send_error = Send_Full | Send_Disconnected
datatype recv_error = Recv_Timeout | Recv_Disconnected
datatype try_recv_error = Try_Empty | Try_Disconnected

record 'ch channel =
  ch_bounded :: "nat \<Rightarrow> 'ch"
  ch_try_send :: "'ch \<Rightarrow> async_op \<Rightarrow> (send_error + unit) \<times> 'ch"
  ch_recv_timeout :: "'ch \<Rightarrow> (recv_error + async_op) \<times> 'ch"
  ch_try_recv :: "'ch \<Rightarrow> (try_recv_error + async_op) \<times> 'ch"
  ch_drop_rx :: "'ch \<Rightarrow> 'ch"

record flusher_config =
  batch_size :: nat
  flush_interval_ms :: u64
  channel_capacity :: nat

definition default_config :: flusher_config where
  "default_config = \<lparr>batch_size = 1024, flush_interval_ms = 5, channel_capacity = 262144\<rparr>"

record ('ch, 'db) flusher =
  fl_channel :: 'ch
  fl_running :: bool
  fl_worker :: "batch_op list option"
  fl_rocksdb :: "'db rocksdb_backend"

datatype enqueue_error = Flusher_QueueFull | WorkerStopped

definition flusher_start :: "'ch channel \<Rightarrow> 'db rocksdb_backend \<Rightarrow> flusher_config \<Rightarrow> ('ch, 'db) flusher" where
  "flusher_start C b config =
     \<lparr>fl_channel = ch_bounded C (channel_capacity config), fl_running = True, fl_worker = Some [], fl_rocksdb = b\<rparr>"

definition flusher_enqueue :: "'ch channel \<Rightarrow> ('ch, 'db) flusher \<Rightarrow> async_op \<Rightarrow> (enqueue_error + unit) \<times> ('ch, 'db) flusher" where
  "flusher_enqueue C f op = (case ch_try_send C (fl_channel f) op of (r, ch) \<Rightarrow>
     (case r of Inl Send_Full \<Rightarrow> Inl Flusher_QueueFull | Inl Send_Disconnected \<Rightarrow> Inl WorkerStopped | Inr u \<Rightarrow> Inr u,
      f\<lparr>fl_channel := ch\<rparr>))"

definition is_running :: "('ch, 'db) flusher \<Rightarrow> bool" where
  "is_running f = fl_running f"

fun show_enqueue_error :: "enqueue_error \<Rightarrow> string" where
  "show_enqueue_error Flusher_QueueFull = ''Async flusher queue is full''"
| "show_enqueue_error WorkerStopped = ''Async flusher worker has stopped''"

text \<open>\<^verbatim>\<open>while let Ok(op) = rx.try_recv()\<close>\<close>

definition chan_deq :: "'ch channel \<Rightarrow> ('ch, async_op) queue_deq" where
  "chan_deq C ch = Some (case ch_try_recv C ch of (r, ch') \<Rightarrow> (case r of Inl e \<Rightarrow> Inl Empty | Inr op \<Rightarrow> Inr op, ch'))"

text \<open>The end of \<^verbatim>\<open>worker_loop\<close>, after which the thread drops its receiver.\<close>

definition flusher_exit :: "'ch channel \<Rightarrow> ('db, 'wb, 'it) rocks \<Rightarrow> ('ch, 'db) flusher \<Rightarrow> batch_op list \<Rightarrow> ('ch, 'db) flusher option" where
  "flusher_exit C R f bt = do {
     (ch, b) \<leftarrow> worker_exit (chan_deq C) convert_op (apply_batch R) (fl_channel f, bt, fl_rocksdb f);
     Some (f\<lparr>fl_channel := ch_drop_rx C ch, fl_rocksdb := b, fl_worker := None\<rparr>)
   }"

text \<open>One pass of the loop of \<^verbatim>\<open>worker_loop\<close>, or its end.\<close>

definition worker_loop :: "'ch channel \<Rightarrow> ('db, 'wb, 'it) rocks \<Rightarrow> flusher_config \<Rightarrow> bool \<Rightarrow> ('ch, 'db) flusher \<Rightarrow> ('ch, 'db) flusher option" where
  "worker_loop C R config timeout_reached f = (case fl_worker f of
     None \<Rightarrow> Some f
   | Some bt \<Rightarrow>
       if \<not> fl_running f then flusher_exit C R f bt
       else (case ch_recv_timeout C (fl_channel f) of
           (Inl Recv_Disconnected, ch) \<Rightarrow> flusher_exit C R (f\<lparr>fl_channel := ch\<rparr>) bt
         | (r, ch) \<Rightarrow>
             (let bt' = (case r of Inl e \<Rightarrow> bt | Inr op \<Rightarrow> bt @ [convert_op op]);
                  (bt'', b) = flush_if_due (apply_batch R) (batch_size config) timeout_reached bt' (fl_rocksdb f)
              in Some (f\<lparr>fl_channel := ch, fl_worker := Some bt'', fl_rocksdb := b\<rparr>))))"

text \<open>\<^verbatim>\<open>stop\<close> tells the worker to end and joins it: the pass that follows is its last. \<^verbatim>\<open>drop\<close> stops.\<close>

definition flusher_stop :: "'ch channel \<Rightarrow> ('db, 'wb, 'it) rocks \<Rightarrow> flusher_config \<Rightarrow> ('ch, 'db) flusher \<Rightarrow> ('ch, 'db) flusher option" where
  "flusher_stop C R config f = worker_loop C R config False (f\<lparr>fl_running := False\<rparr>)"

definition flusher_drop :: "'ch channel \<Rightarrow> ('db, 'wb, 'it) rocks \<Rightarrow> flusher_config \<Rightarrow> ('ch, 'db) flusher \<Rightarrow> ('ch, 'db) flusher option" where
  "flusher_drop = flusher_stop"

text \<open>The executions: callers send, the worker makes its passes, in any order. The list holds the operations accepted.\<close>

inductive flusher_run :: "'ch channel \<Rightarrow> ('db, 'wb, 'it) rocks \<Rightarrow> flusher_config \<Rightarrow> ('ch, 'db) flusher \<Rightarrow> async_op list \<Rightarrow> ('ch, 'db) flusher \<Rightarrow> bool"
  for C R config f where
  run_start: "flusher_run C R config f [] f"
| run_accept: "flusher_run C R config f ops g \<Longrightarrow> flusher_enqueue C g op = (Inr (), g') \<Longrightarrow> flusher_run C R config f (ops @ [op]) g'"
| run_refuse: "flusher_run C R config f ops g \<Longrightarrow> flusher_enqueue C g op = (Inl e, g') \<Longrightarrow> flusher_run C R config f ops g'"
| run_worker: "flusher_run C R config f ops g \<Longrightarrow> worker_loop C R config t g = Some g' \<Longrightarrow> flusher_run C R config f ops g'"

section \<open>The documented behaviour of the channel\<close>

record 'ch channel_view =
  ch_items :: "'ch \<Rightarrow> async_op list"
  ch_cap :: "'ch \<Rightarrow> nat"
  ch_rx :: "'ch \<Rightarrow> bool"

definition ch_becomes :: "'ch channel_view \<Rightarrow> 'ch \<Rightarrow> async_op list \<Rightarrow> 'ch \<Rightarrow> bool" where
  "ch_becomes W ch xs ch' = (ch_items W ch' = xs \<and> ch_cap W ch' = ch_cap W ch \<and> ch_rx W ch' = ch_rx W ch)"

text \<open>The sender lives as long as the flusher, so an empty channel makes the receiver time out.\<close>

definition channel_ok :: "'ch channel \<Rightarrow> 'ch channel_view \<Rightarrow> bool" where
  "channel_ok C W = (
     (\<forall>n. 0 < n \<longrightarrow> ch_items W (ch_bounded C n) = [] \<and> ch_cap W (ch_bounded C n) = n \<and> ch_rx W (ch_bounded C n))
   \<and> (\<forall>ch op. \<exists>ch'. ch_try_send C ch op =
        (if \<not> ch_rx W ch then (Inl Send_Disconnected, ch') else if length (ch_items W ch) < ch_cap W ch then (Inr (), ch') else (Inl Send_Full, ch'))
      \<and> ch_becomes W ch (if ch_rx W ch \<and> length (ch_items W ch) < ch_cap W ch then ch_items W ch @ [op] else ch_items W ch) ch')
   \<and> (\<forall>ch. \<exists>ch'. ch_recv_timeout C ch = (case ch_items W ch of [] \<Rightarrow> Inl Recv_Timeout | x # xs \<Rightarrow> Inr x, ch')
      \<and> ch_becomes W ch (tl (ch_items W ch)) ch')
   \<and> (\<forall>ch. \<exists>ch'. ch_try_recv C ch = (case ch_items W ch of [] \<Rightarrow> Inl Try_Empty | x # xs \<Rightarrow> Inr x, ch')
      \<and> ch_becomes W ch (tl (ch_items W ch)) ch')
   \<and> (\<forall>ch. \<not> ch_rx W (ch_drop_rx C ch)))"

definition chan_enq :: "'ch channel \<Rightarrow> ('ch, async_op) queue_enq" where
  "chan_enq C ch op = Some (case ch_try_send C ch op of (r, ch') \<Rightarrow> (case r of Inl e \<Rightarrow> Inl Full | Inr u \<Rightarrow> Inr u, ch'))"

definition chan_inv :: "'ch channel \<Rightarrow> 'ch channel_view \<Rightarrow> 'ch \<Rightarrow> bool" where
  "chan_inv C W ch = (channel_ok C W \<and> ch_rx W ch)"

lemma chan_send:
  assumes "chan_inv C W ch"
  shows "\<exists>ch'. ch_try_send C ch op = (if length (ch_items W ch) < ch_cap W ch then Inr () else Inl Send_Full, ch') \<and> chan_inv C W ch'
    \<and> ch_cap W ch' = ch_cap W ch \<and> ch_items W ch' = ch_items W ch @ (if length (ch_items W ch) < ch_cap W ch then [op] else [])"
proof -
  have ok: "channel_ok C W" "ch_rx W ch" using assms by (simp_all add: chan_inv_def)
  then have "\<exists>ch'. ch_try_send C ch op =
        (if \<not> ch_rx W ch then (Inl Send_Disconnected, ch') else if length (ch_items W ch) < ch_cap W ch then (Inr (), ch') else (Inl Send_Full, ch'))
      \<and> ch_becomes W ch (if ch_rx W ch \<and> length (ch_items W ch) < ch_cap W ch then ch_items W ch @ [op] else ch_items W ch) ch'"
    unfolding channel_ok_def by blast
  with ok show ?thesis by (auto simp: ch_becomes_def chan_inv_def split: if_splits)
qed

lemma chan_recv:
  assumes "chan_inv C W ch"
  obtains ch' where "ch_recv_timeout C ch = (case ch_items W ch of [] \<Rightarrow> Inl Recv_Timeout | x # xs \<Rightarrow> Inr x, ch')"
    "chan_inv C W ch'" "ch_cap W ch' = ch_cap W ch" "ch_items W ch' = tl (ch_items W ch)"
proof -
  have ok: "channel_ok C W" "ch_rx W ch" using assms by (simp_all add: chan_inv_def)
  then have "\<exists>ch'. ch_recv_timeout C ch = (case ch_items W ch of [] \<Rightarrow> Inl Recv_Timeout | x # xs \<Rightarrow> Inr x, ch')
      \<and> ch_becomes W ch (tl (ch_items W ch)) ch'" unfolding channel_ok_def by blast
  with ok that show ?thesis by (auto simp: ch_becomes_def chan_inv_def)
qed

lemma chan_deq_law:
  assumes "chan_inv C W ch"
  shows "\<exists>ch'. chan_inv C W ch' \<and> ch_cap W ch' = ch_cap W ch
    \<and> (case ch_items W ch of
         [] \<Rightarrow> chan_deq C ch = Some (Inl Empty, ch') \<and> ch_items W ch' = []
       | x # xs \<Rightarrow> chan_deq C ch = Some (Inr x, ch') \<and> ch_items W ch' = xs)"
proof -
  have ok: "channel_ok C W" "ch_rx W ch" using assms by (simp_all add: chan_inv_def)
  then have "\<exists>ch'. ch_try_recv C ch = (case ch_items W ch of [] \<Rightarrow> Inl Try_Empty | x # xs \<Rightarrow> Inr x, ch')
      \<and> ch_becomes W ch (tl (ch_items W ch)) ch'" unfolding channel_ok_def by blast
  with ok show ?thesis by (auto simp: ch_becomes_def chan_inv_def chan_deq_def split: list.splits)
qed

interpretation fl: write_behind "chan_inv C W" "ch_items W" "ch_cap W" "chan_enq C" "chan_deq C"
    "\<lambda>b. rocks_ok R V" "disk V" "put_raw R" "get_raw R" "del_raw R" "apply_batch R" convert_op
  for C :: "'ch channel" and W and R :: "('db, 'wb, 'it) rocks" and V
proof unfold_locales
  fix ch op assume i: "chan_inv C W ch"
  show "\<exists>ch'. chan_inv C W ch' \<and> ch_cap W ch' = ch_cap W ch
      \<and> (if length (ch_items W ch) < ch_cap W ch then chan_enq C ch op = Some (Inr (), ch') \<and> ch_items W ch' = ch_items W ch @ [op]
         else chan_enq C ch op = Some (Inl Full, ch') \<and> ch_items W ch' = ch_items W ch)"
    using chan_send[OF i, of op] by (auto simp: chan_enq_def split: if_splits)
qed (rule chan_deq_law)

section \<open>Properties\<close>

text \<open>While the worker runs, the disk and what is in flight make up the accepted operations.\<close>

definition flusher_inv :: "'ch channel \<Rightarrow> 'ch channel_view \<Rightarrow> ('db, 'wb, 'it) rocks_view \<Rightarrow> flusher_config \<Rightarrow> contents \<Rightarrow> async_op list
    \<Rightarrow> ('ch, 'db) flusher \<Rightarrow> bool" where
  "flusher_inv C W V config m ops f = (chan_inv C W (fl_channel f) \<and> ch_cap W (fl_channel f) = channel_capacity config \<and> fl_running f
   \<and> (\<exists>bt. fl_worker f = Some bt \<and> length bt < batch_size config
       \<and> apply_ops (in_flight (ch_items W) convert_op (fl_channel f) bt) (disk V (fl_rocksdb f)) = apply_ops (map convert_op ops) m))"

lemma reliable_batch: "rocks_reliable R \<Longrightarrow> fst (apply_batch R b ops) = Inr ()"
  by (simp add: rocks_reliable_def apply_batch_def on_db_def)

lemma flusher_start_inv:
  "channel_ok C W \<Longrightarrow> 0 < channel_capacity config \<Longrightarrow> 0 < batch_size config
   \<Longrightarrow> flusher_inv C W V config (disk V b) [] (flusher_start C b config)"
  by (simp add: flusher_inv_def flusher_start_def chan_inv_def channel_ok_def in_flight_def)

lemma flusher_enqueue_inv:
  assumes "flusher_inv C W V config m ops f" "flusher_enqueue C f op = (r, f')"
  shows "flusher_inv C W V config m (ops @ (case r of Inl e \<Rightarrow> [] | Inr u \<Rightarrow> [op])) f'"
    and "r = (if length (ch_items W (fl_channel f)) < channel_capacity config then Inr () else Inl Flusher_QueueFull)"
proof -
  have i: "chan_inv C W (fl_channel f)" "ch_cap W (fl_channel f) = channel_capacity config"
    using assms(1) by (simp_all add: flusher_inv_def)
  show r: "r = (if length (ch_items W (fl_channel f)) < channel_capacity config then Inr () else Inl Flusher_QueueFull)"
    using chan_send[OF i(1), of op] assms(2) i(2) by (auto simp: flusher_enqueue_def split: if_splits)
  show "flusher_inv C W V config m (ops @ (case r of Inl e \<Rightarrow> [] | Inr u \<Rightarrow> [op])) f'"
    using chan_send[OF i(1), of op] assms i(2) unfolding r
    by (auto simp: flusher_inv_def flusher_enqueue_def in_flight_def split: if_splits)
qed

lemma worker_loop_inv:
  assumes "rocks_ok R V" "rocks_reliable R" "0 < batch_size config" "flusher_inv C W V config m ops f"
  shows "\<exists>f'. worker_loop C R config t f = Some f' \<and> flusher_inv C W V config m ops f'"
proof -
  obtain bt where f: "chan_inv C W (fl_channel f)" "ch_cap W (fl_channel f) = channel_capacity config" "fl_running f" "fl_worker f = Some bt"
    "apply_ops (in_flight (ch_items W) convert_op (fl_channel f) bt) (disk V (fl_rocksdb f)) = apply_ops (map convert_op ops) m"
    using assms(4) by (auto simp: flusher_inv_def)
  define xs where "xs = ch_items W (fl_channel f)"
  obtain ch where ch: "ch_recv_timeout C (fl_channel f) = (case xs of [] \<Rightarrow> Inl Recv_Timeout | x # xs \<Rightarrow> Inr x, ch)"
    "chan_inv C W ch" "ch_cap W ch = ch_cap W (fl_channel f)" "ch_items W ch = tl xs"
    using chan_recv[OF f(1)] unfolding xs_def by metis
  define bt1 where "bt1 = (case xs of [] \<Rightarrow> bt | x # xs \<Rightarrow> bt @ [convert_op x])"
  obtain bt2 b where b: "flush_if_due (apply_batch R) (batch_size config) t bt1 (fl_rocksdb f) = (bt2, b)" by fastforce
  have "bt1 @ map convert_op (tl xs) = bt @ map convert_op xs" by (simp add: bt1_def split: list.splits)
  then have fl: "apply_ops (in_flight (ch_items W) convert_op ch bt2) (disk V b) = apply_ops (map convert_op ops) m"
    using fl.flush_settles(2)[OF assms(1) reliable_batch[OF assms(2)] b, of "map convert_op (tl xs)"] f(5)
    unfolding in_flight_def ch(4) xs_def[symmetric] by simp
  have "length bt2 < batch_size config" using flush_if_due_length[OF assms(3)] b by (metis fst_conv)
  moreover have "worker_loop C R config t f = Some (f\<lparr>fl_channel := ch, fl_worker := Some bt2, fl_rocksdb := b\<rparr>)"
    using f(3,4) ch(1) b by (cases xs) (simp_all add: worker_loop_def bt1_def Let_def)
  ultimately show ?thesis using ch(2,3) f(2,3) fl by (simp add: flusher_inv_def)
qed

lemma flusher_run_inv:
  assumes "rocks_ok R V" "rocks_reliable R" "0 < batch_size config" "flusher_inv C W V config m [] f" "flusher_run C R config f ops g"
  shows "flusher_inv C W V config m ops g"
  using assms(5,4)
proof (induction rule: flusher_run.induct)
  case (run_accept ops g op g')
  then show ?case using flusher_enqueue_inv(1)[of C W V config m ops g op "Inr ()" g'] by simp
next
  case (run_refuse ops g op e g')
  then show ?case using flusher_enqueue_inv(1)[of C W V config m ops g op "Inl e" g'] by simp
next
  case (run_worker ops g t g')
  then show ?case using worker_loop_inv[OF assms(1-3), of C W m ops g t] by auto
qed simp

text \<open>
  C26: Nothing the flusher has accepted is lost and nothing is reordered: in every execution of callers and worker,
  with a database whose writes succeed, stopping the flusher returns and leaves on disk exactly the effect of
  the accepted operations in the order in which they were accepted.  Until then the worker holds fewer than
  \<open>batch_size\<close> operations, and once stopped the flusher answers every caller that the worker has stopped.
\<close>

theorem flusher_nothing_lost:
  assumes "channel_ok C W" "rocks_ok R V" "rocks_reliable R" "0 < channel_capacity config" "0 < batch_size config"
    and "flusher_run C R config (flusher_start C b config) ops f"
  shows "\<exists>f'. flusher_stop C R config f = Some f' \<and> disk V (fl_rocksdb f') = apply_ops (map convert_op ops) (disk V b)
    \<and> (\<exists>bt. fl_worker f = Some bt \<and> length bt < batch_size config)
    \<and> fst (flusher_enqueue C f' op) = Inl WorkerStopped \<and> \<not> is_running f'"
proof -
  have inv: "flusher_inv C W V config (disk V b) ops f"
    using flusher_run_inv[OF assms(2,3,5) flusher_start_inv[OF assms(1,4,5)] assms(6)] .
  then obtain bt where f: "chan_inv C W (fl_channel f)" "fl_worker f = Some bt" "length bt < batch_size config"
    "apply_ops (in_flight (ch_items W) convert_op (fl_channel f) bt) (disk V (fl_rocksdb f)) = apply_ops (map convert_op ops) (disk V b)"
    by (auto simp: flusher_inv_def)
  obtain ch b' where x: "worker_exit (chan_deq C) convert_op (apply_batch R) (fl_channel f, bt, fl_rocksdb f) = Some (ch, b')"
    "disk V b' = apply_ops (map convert_op ops) (disk V b)"
    using fl.exit_settles[OF f(1) assms(2) reliable_batch[OF assms(3)], where s = "fl_rocksdb f" and bt = bt] f(4) by auto
  have "fst (ch_try_send C (ch_drop_rx C ch) op) = Inl Send_Disconnected"
    using assms(1) unfolding channel_ok_def by (metis fst_conv)
  then show ?thesis using x f(2,3)
    by (simp add: flusher_stop_def worker_loop_def flusher_exit_def flusher_enqueue_def is_running_def case_prod_beta)
qed

text \<open>A channel as a list with its capacity, and whether the receiver is alive.\<close>

definition list_channel :: "(async_op list \<times> nat \<times> bool) channel" where
  "list_channel = \<lparr>ch_bounded = (\<lambda>n. ([], n, True)),
     ch_try_send = (\<lambda>(xs, n, a) op. if \<not> a then (Inl Send_Disconnected, (xs, n, a))
        else if length xs < n then (Inr (), (xs @ [op], n, a)) else (Inl Send_Full, (xs, n, a))),
     ch_recv_timeout = (\<lambda>(xs, n, a). (case xs of [] \<Rightarrow> Inl Recv_Timeout | x # xs \<Rightarrow> Inr x, (tl xs, n, a))),
     ch_try_recv = (\<lambda>(xs, n, a). (case xs of [] \<Rightarrow> Inl Try_Empty | x # xs \<Rightarrow> Inr x, (tl xs, n, a))),
     ch_drop_rx = (\<lambda>(xs, n, a). (xs, n, False))\<rparr>"

definition list_channel_view :: "(async_op list \<times> nat \<times> bool) channel_view" where
  "list_channel_view = \<lparr>ch_items = fst, ch_cap = (\<lambda>(xs, n, a). n), ch_rx = (\<lambda>(xs, n, a). a)\<rparr>"

lemma list_channel_ok: "channel_ok list_channel list_channel_view"
  by (simp add: channel_ok_def list_channel_def list_channel_view_def ch_becomes_def)

theorem flusher_nothing_lost_witness:
  "\<exists>f f'. flusher_run list_channel mem_rocks default_config (flusher_start list_channel (mem_backend []) default_config) [Async_Put ''k'' ''v''] f
    \<and> flusher_stop list_channel mem_rocks default_config f = Some f' \<and> disk mem_view (fl_rocksdb f') ''k'' = Some ''v''"
proof -
  let ?start = "flusher_start list_channel (mem_backend []) default_config"
  let ?f = "\<lparr>fl_channel = ([Async_Put ''k'' ''v''], 262144, True), fl_running = True, fl_worker = Some [], fl_rocksdb = mem_backend []\<rparr>"
  have "flusher_enqueue list_channel ?start (Async_Put ''k'' ''v'') = (Inr (), ?f)"
    unfolding flusher_enqueue_def flusher_start_def list_channel_def default_config_def by simp
  then have run: "flusher_run list_channel mem_rocks default_config ?start [Async_Put ''k'' ''v''] ?f"
    using run_accept[OF run_start] by (metis append_Nil)
  have size: "0 < channel_capacity default_config" "0 < batch_size default_config" by (simp_all add: default_config_def)
  obtain f' where "flusher_stop list_channel mem_rocks default_config ?f = Some f'"
    "disk mem_view (fl_rocksdb f') = apply_ops (map convert_op [Async_Put ''k'' ''v'']) (disk mem_view (mem_backend []))"
    using flusher_nothing_lost[OF list_channel_ok mem_rocks_ok size run] by blast
  with run show ?thesis by (intro exI[of _ ?f] exI[of _ f']) simp
qed

text \<open>
  The flusher does not retry: when the write of a batch fails the worker has cleared the batch, so operations
  that callers were told are accepted are neither on disk nor in flight any more.
\<close>

lemma flusher_failed_batch_dropped:
  assumes "channel_ok C W" "ch_rx W (fl_channel f)" "rocks_ok R V" "fl_running f" "fl_worker f = Some bt" "bt \<noteq> []"
    and "ch_items W (fl_channel f) = []"
    and "\<And>d wb s. \<exists>e. fst (write_opt R d wb s) = Inl e"
  shows "\<exists>f'. worker_loop C R config True f = Some f' \<and> fl_worker f' = Some [] \<and> ch_items W (fl_channel f') = []
    \<and> disk V (fl_rocksdb f') = disk V (fl_rocksdb f)"
proof -
  have "chan_inv C W (fl_channel f)" using assms(1,2) by (simp add: chan_inv_def)
  then obtain ch where ch: "ch_recv_timeout C (fl_channel f) = (Inl Recv_Timeout, ch)" "ch_items W ch = []"
    using chan_recv[of C W "fl_channel f"] assms(7) by (metis list.case(1) list.sel(2))
  obtain e b where b: "apply_batch R (fl_rocksdb f) bt = (Inl e, b)"
    using assms(6,8) unfolding apply_batch_def on_db_def by (metis (no_types, lifting))
  have "disk V b = disk V (fl_rocksdb f)" using apply_batch_effect[OF assms(3) b] by simp
  then show ?thesis using ch b assms(4-6) by (simp add: worker_loop_def flush_if_due_def)
qed

definition broken_rocks :: "((bytes \<times> bytes) list, batch_op list, (bytes \<times> bytes) list) rocks" where
  "broken_rocks = mem_rocks\<lparr>write_opt := (\<lambda>d wb s. (Inl ''IO error'', d))\<rparr>"

lemma broken_rocks_ok: "rocks_ok broken_rocks mem_view"
  using mem_rocks_ok(1)
  by (simp add: rocks_ok_def writes_ok_def reads_ok_def iterator_ok_def broken_rocks_def effect_def)

end
