(* ===== verification/Engine_Types.thy ===== *)
theory Engine_Types
  imports Kallisto_Prelude
begin

text \<open>
  The data of the secret engines (\<^verbatim>\<open>src/engine/traits.rs\<close>) and their errors (\<^verbatim>\<open>src/engine/error.rs\<close>), and the
  combinators for calls that may fail and change a state: a call returns \<open>None\<close> when it panics or does not
  return, otherwise a \<open>Result\<close> (\<open>Inl\<close> the error) and the new state.
\<close>

record version_state =
  created_time_ms :: u64
  deletion_time_ms :: u64
  version_id :: u32
  destroyed :: bool

record key_metadata =
  current_version :: u32
  max_versions :: u32
  cas_required :: bool
  delete_version_after_ms :: u64
  custom_metadata :: "string \<Rightarrow> string option"
  versions :: "version_state list"

definition default_metadata :: key_metadata where
  "default_metadata = \<lparr>current_version = 0, max_versions = 0, cas_required = False, delete_version_after_ms = 0,
     custom_metadata = Map.empty, versions = []\<rparr>"

record secret_payload =
  payload_value :: string
  payload_ttl :: u64

datatype engine_error =
    NotFound
  | SoftDeleted
  | Destroyed
  | StorageError string
  | InvalidVersion u32
  | CasMismatch (cas_expected: u32) (cas_actual: u32)
  | QueueFull

type_synonym ('s, 'e, 'a) call = "'s \<Rightarrow> (('e + 'a) \<times> 's) option"

text \<open>The operator \<^verbatim>\<open>?\<close>: go on with the value, or return the error with the state reached so far.\<close>

definition andthen :: "('s, 'e, 'a) call \<Rightarrow> ('a \<Rightarrow> ('s, 'e, 'b) call) \<Rightarrow> ('s, 'e, 'b) call" where
  "andthen m f s = do {
     (r, s') \<leftarrow> m s;
     (case r of Inl e \<Rightarrow> Some (Inl e, s') | Inr x \<Rightarrow> f x s')
   }"

definition ok :: "'a \<Rightarrow> ('s, 'e, 'a) call" where
  "ok x s = Some (Inr x, s)"

definition fail :: "'e \<Rightarrow> ('s, 'e, 'a) call" where
  "fail e s = Some (Inl e, s)"

lemma andthen_simps [simp]:
  "m s = Some (Inr x, s') \<Longrightarrow> andthen m f s = f x s'"
  "m s = Some (Inl e, s') \<Longrightarrow> andthen m f s = Some (Inl e, s')"
  "m s = None \<Longrightarrow> andthen m f s = None"
  by (simp_all add: andthen_def)

lemma ok_simps [simp]: "ok x s = Some (Inr x, s)" "fail e s = Some (Inl e, s)"
  by (simp_all add: ok_def fail_def)

text \<open>
  \<open>wp m Q s\<close>: the call \<open>m\<close> started in \<open>s\<close> returns, and its result and final state satisfy \<open>Q\<close>.
\<close>

definition wp :: "('s, 'e, 'a) call \<Rightarrow> ('e + 'a \<Rightarrow> 's \<Rightarrow> bool) \<Rightarrow> 's \<Rightarrow> bool" where
  "wp m Q s \<longleftrightarrow> (\<exists>r s'. m s = Some (r, s') \<and> Q r s')"

lemma wp_andthen [simp]:
  "wp (andthen m f) Q s = wp m (\<lambda>r s'. case r of Inl e \<Rightarrow> Q (Inl e) s' | Inr x \<Rightarrow> wp (f x) Q s') s"
proof (cases "m s")
  case (Some rs)
  then show ?thesis by (cases "fst rs") (auto simp: wp_def andthen_def case_prod_beta prod_eq_iff)
qed (simp add: wp_def andthen_def)

lemma wp_ok [simp]: "wp (ok x) Q s = Q (Inr x) s"
  by (simp add: wp_def)

lemma wp_fail [simp]: "wp (fail e) Q s = Q (Inl e) s"
  by (simp add: wp_def)

lemma wp_mono: "wp m Q s \<Longrightarrow> (\<And>r s'. Q r s' \<Longrightarrow> Q' r s') \<Longrightarrow> wp m Q' s"
  by (auto simp: wp_def)

lemma wp_conj: "wp m P s \<Longrightarrow> wp m Q s \<Longrightarrow> wp m (\<lambda>r s'. P r s' \<and> Q r s') s"
  by (auto simp: wp_def)

lemma wpD: "wp m Q s \<Longrightarrow> m s = Some (r, s') \<Longrightarrow> Q r s'"
  by (simp add: wp_def)

section \<open>Numerals\<close>

text \<open>Decimal numerals, as \<^verbatim>\<open>format!\<close> prints an unsigned integer.\<close>

fun show_nat :: "nat \<Rightarrow> string" where
  "show_nat n = (if n < 10 then [char_of (48 + n)] else show_nat (n div 10) @ [char_of (48 + n mod 10)])"

declare show_nat.simps [simp del]

lemma show_nat_digits: "set (show_nat n) \<subseteq> char_of ` {48..57::nat}"
proof (induction n rule: show_nat.induct)
  case (1 n)
  have "char_of (48 + d) \<in> char_of ` {48..57::nat}" if "d < 10" for d :: nat using that by auto
  then show ?case using 1 by (subst show_nat.simps) auto
qed

lemma show_nat_nonempty: "show_nat n \<noteq> []"
  by (subst show_nat.simps) simp

definition read_digits :: "string \<Rightarrow> nat" where
  "read_digits = foldl (\<lambda>n c. 10 * n + (of_char c - 48)) 0"

lemma read_show_nat: "read_digits (show_nat n) = n"
proof (induction n rule: show_nat.induct)
  case (1 n)
  have d: "of_char (char_of (48 + d) :: char) = 48 + d" if "d < 10" for d :: nat using that by simp
  show ?case
  proof (cases "n < 10")
    case True
    then show ?thesis using d[of n] by (subst show_nat.simps) (simp add: read_digits_def)
  next
    case False
    then show ?thesis using 1 d[of "n mod 10"] by (subst show_nat.simps) (simp add: read_digits_def)
  qed
qed

lemma show_nat_inj: "show_nat m = show_nat n \<longleftrightarrow> m = n"
  by (metis read_show_nat)

lemma show_nat_no_char: "c \<notin> set (show_nat n)" if "57 < (of_char c :: nat)"
proof
  assume "c \<in> set (show_nat n)"
  then obtain d :: nat where "d \<le> 57" "c = char_of d" using show_nat_digits[of n] by auto
  with that show False by simp
qed

end
