(* ===== verification/Kv_Engine.thy ===== *)
theory Kv_Engine
  imports Engine_Types Rocksdb_Backend Write_Behind Sharded_Cuckoo BTree_Theorems LFQ_Sequential
begin

text \<open>
  The versioned key-value engine (\<^verbatim>\<open>src/engine/kv_engine.rs\<close>): a cache in front of RocksDB, an index of the paths, and a
  queue of writes that a worker thread batches, bypassed in immediate mode.  Every method of the engine is a
  call that may fail and changes the state; the clock is an argument.  The hash function, RocksDB and the rkyv
  serialisation are parameters, collected in \<open>env\<close>.
\<close>

datatype sync_mode = Immediate | Batch

fun sync_mode_u8 :: "sync_mode \<Rightarrow> 8 word" where
  "sync_mode_u8 Immediate = 1"
| "sync_mode_u8 Batch = 0"

datatype kv_op = Kv_Put bytes bytes | Kv_Delete bytes

fun kv_batch_op :: "kv_op \<Rightarrow> batch_op" where
  "kv_batch_op (Kv_Put key val) = Batch_Put key val"
| "kv_batch_op (Kv_Delete key) = Batch_Delete key"

record rkyv =
  to_bytes_payload :: "secret_payload \<Rightarrow> string + bytes"
  to_bytes_meta :: "key_metadata \<Rightarrow> string + bytes"
  archived_payload :: "bytes \<Rightarrow> secret_payload"
  archived_meta :: "bytes \<Rightarrow> key_metadata"

record ('db, 'wb, 'it) env =
  env_sip :: sip_hash
  env_rocks :: "('db, 'wb, 'it) rocks"
  env_rkyv :: rkyv
  env_node_size :: nat

record 'db kv_engine =
  kv_cache :: sharded_cuckoo_table
  path_index :: tls_btree_manager
  rocksdb :: "'db rocksdb_backend"
  sync_mode :: "8 word"
  async_queue :: "kv_op lfq"
  async_running :: bool

type_synonym ('db, 'a) kv_call = "('db kv_engine, engine_error, 'a) call"

section \<open>Keys\<close>

definition build_meta_key :: "string \<Rightarrow> bytes" where
  "build_meta_key path = ''m:'' @ path"

definition build_version_key :: "string \<Rightarrow> u32 \<Rightarrow> bytes" where
  "build_version_key path version = ''v:'' @ path @ '':'' @ show_nat (unat version)"

text \<open>\<^verbatim>\<open>std::str::from_utf8\<close> accepts exactly the well-formed byte sequences of the Unicode standard.\<close>

definition byte_in :: "nat \<Rightarrow> nat \<Rightarrow> char \<Rightarrow> bool" where
  "byte_in lo hi c = (lo \<le> of_char c \<and> of_char c \<le> hi)"

fun utf8_valid :: "bytes \<Rightarrow> bool" where
  "utf8_valid [] = True"
| "utf8_valid (a # bs) =
     (if byte_in 0x00 0x7F a then utf8_valid bs
      else (case bs of
        [] \<Rightarrow> False
      | b # bs2 \<Rightarrow>
        if byte_in 0xC2 0xDF a then byte_in 0x80 0xBF b \<and> utf8_valid bs2
        else (case bs2 of
          [] \<Rightarrow> False
        | c # bs3 \<Rightarrow>
          if (byte_in 0xE0 0xE0 a \<and> byte_in 0xA0 0xBF b) \<or> (byte_in 0xE1 0xEC a \<and> byte_in 0x80 0xBF b)
             \<or> (byte_in 0xED 0xED a \<and> byte_in 0x80 0x9F b) \<or> (byte_in 0xEE 0xEF a \<and> byte_in 0x80 0xBF b)
          then byte_in 0x80 0xBF c \<and> utf8_valid bs3
          else (case bs3 of
            [] \<Rightarrow> False
          | d # bs4 \<Rightarrow>
            ((byte_in 0xF0 0xF0 a \<and> byte_in 0x90 0xBF b) \<or> (byte_in 0xF1 0xF3 a \<and> byte_in 0x80 0xBF b)
              \<or> (byte_in 0xF4 0xF4 a \<and> byte_in 0x80 0x8F b))
            \<and> byte_in 0x80 0xBF c \<and> byte_in 0x80 0xBF d \<and> utf8_valid bs4))))"

section \<open>Opening, modes\<close>

definition index_key :: "bytes \<Rightarrow> tls_btree_manager \<Rightarrow> tls_btree_manager option" where
  "index_key key idx =
     (if take 2 key = ''m:'' \<and> utf8_valid (drop 2 key)
      then map_option snd (insert_path_if_absent idx (drop 2 key)) else Some idx)"

definition kv_open :: "('db, 'wb, 'it) env \<Rightarrow> string \<Rightarrow> (engine_error + 'db kv_engine) option" where
  "kv_open E db_path = (case backend_open (env_rocks E) db_path of
     Inl e \<Rightarrow> Some (Inl (StorageError (''Failed to open RocksDB: '' @ e)))
   | Inr b \<Rightarrow> do {
       cache \<leftarrow> sharded_new (256 * 1024);
       idx \<leftarrow> iterate_keys (env_rocks E) b index_key (tls_btree_new 3);
       queue \<leftarrow> lfq_new (env_node_size E) 262144;
       Some (Inr \<lparr>kv_cache = cache, path_index = idx, rocksdb = b, sync_mode = sync_mode_u8 Batch,
                  async_queue = queue, async_running = True\<rparr>)
     })"

definition change_sync_mode :: "sync_mode \<Rightarrow> 'db kv_engine \<Rightarrow> 'db kv_engine" where
  "change_sync_mode mode e = e\<lparr>sync_mode := sync_mode_u8 mode\<rparr>"

definition get_sync_mode :: "'db kv_engine \<Rightarrow> sync_mode" where
  "get_sync_mode e = (if sync_mode e = 1 then Immediate else Batch)"

section \<open>Access to the cache and to the disk\<close>

definition cache_insert :: "('db, 'wb, 'it) env \<Rightarrow> bytes \<Rightarrow> bytes \<Rightarrow> ('db, unit) kv_call" where
  "cache_insert E key val e = do {
     (_, c) \<leftarrow> sharded_insert (env_sip E) (kv_cache e) key (fresh_entry key val);
     Some (Inr (), e\<lparr>kv_cache := c\<rparr>)
   }"

definition cache_remove :: "('db, 'wb, 'it) env \<Rightarrow> bytes \<Rightarrow> ('db, unit) kv_call" where
  "cache_remove E key e = do {
     (_, c) \<leftarrow> sharded_remove (env_sip E) (kv_cache e) key;
     Some (Inr (), e\<lparr>kv_cache := c\<rparr>)
   }"

definition read_raw_optimistic :: "('db, 'wb, 'it) env \<Rightarrow> bytes \<Rightarrow> (bytes \<Rightarrow> 'r) \<Rightarrow> ('db, 'r option) kv_call" where
  "read_raw_optimistic E key f e = do {
     (hit, c) \<leftarrow> sharded_lookup_map (env_sip E) (kv_cache e) key (\<lambda>entry. f (entry_payload entry));
     let e = e\<lparr>kv_cache := c\<rparr>;
     (case hit of
        Some res \<Rightarrow> Some (Inr (Some res), e)
      | None \<Rightarrow> (case get_raw (env_rocks E) (rocksdb e) key of
            Inl err \<Rightarrow> Some (Inl (StorageError (''RocksDB get error: '' @ err)), e)
          | Inr None \<Rightarrow> Some (Inr None, e)
          | Inr (Some bytes) \<Rightarrow> andthen (cache_insert E key bytes) (\<lambda>_. ok (Some (f bytes))) e))
   }"

definition enqueue_or_execute :: "('db, 'wb, 'it) env \<Rightarrow> kv_op \<Rightarrow> ('db, unit) kv_call" where
  "enqueue_or_execute E op e =
     (if get_sync_mode e = Immediate then
        (case op of
           Kv_Put key val \<Rightarrow> (case put_raw (env_rocks E) (rocksdb e) key val of
               (Inl err, b) \<Rightarrow> Some (Inl (StorageError (''Immediate write failed: '' @ err)), e\<lparr>rocksdb := b\<rparr>)
             | (Inr u, b) \<Rightarrow> Some (Inr (), e\<lparr>rocksdb := b\<rparr>))
         | Kv_Delete key \<Rightarrow> (case del_raw (env_rocks E) (rocksdb e) key of
               (Inl err, b) \<Rightarrow> Some (Inl (StorageError (''Immediate delete failed: '' @ err)), e\<lparr>rocksdb := b\<rparr>)
             | (Inr u, b) \<Rightarrow> Some (Inr (), e\<lparr>rocksdb := b\<rparr>)))
      else do {
        (r, q) \<leftarrow> lfq_enqueue (async_queue e) op;
        Some (if r = Inl Full then Inl QueueFull else Inr (), e\<lparr>async_queue := q\<rparr>)
      })"

definition serialize_payload :: "('db, 'wb, 'it) env \<Rightarrow> secret_payload \<Rightarrow> engine_error + bytes" where
  "serialize_payload E payload = (case to_bytes_payload (env_rkyv E) payload of
     Inl err \<Rightarrow> Inl (StorageError (''Payload serialization failed: '' @ err)) | Inr bytes \<Rightarrow> Inr bytes)"

definition serialize_metadata :: "('db, 'wb, 'it) env \<Rightarrow> key_metadata \<Rightarrow> engine_error + bytes" where
  "serialize_metadata E meta = (case to_bytes_meta (env_rkyv E) meta of
     Inl err \<Rightarrow> Inl (StorageError (''Metadata serialization failed: '' @ err)) | Inr bytes \<Rightarrow> Inr bytes)"

definition deserialize_metadata :: "('db, 'wb, 'it) env \<Rightarrow> bytes \<Rightarrow> engine_error + key_metadata" where
  "deserialize_metadata E raw =
     (let archived = archived_meta (env_rkyv E) raw in
      Inr \<lparr>current_version = current_version archived, max_versions = max_versions archived,
           cas_required = cas_required archived, delete_version_after_ms = delete_version_after_ms archived,
           custom_metadata = Map.empty,
           versions = map (\<lambda>v. \<lparr>created_time_ms = created_time_ms v, deletion_time_ms = deletion_time_ms v,
                                version_id = version_id v, destroyed = destroyed v\<rparr>) (versions archived)\<rparr>)"

section \<open>The methods of the engine\<close>

definition now_ms :: "nat option \<Rightarrow> u64" where
  "now_ms since_epoch = (case since_epoch of None \<Rightarrow> 0 | Some ms \<Rightarrow> of_nat ms)"

definition lift_result :: "engine_error + 'a \<Rightarrow> ('db, 'a) kv_call" where
  "lift_result r e = Some (r, e)"

definition read_metadata :: "('db, 'wb, 'it) env \<Rightarrow> string \<Rightarrow> ('db, key_metadata) kv_call" where
  "read_metadata E path =
     andthen (read_raw_optimistic E (build_meta_key path) (deserialize_metadata E)) (\<lambda>meta.
       (case meta of Some res \<Rightarrow> lift_result res | None \<Rightarrow> fail NotFound))"

definition scan_version :: "key_metadata \<Rightarrow> u32 \<Rightarrow> u32 \<times> bool \<times> bool \<times> u64 \<times> u64 \<times> bool" where
  "scan_version archived version =
     (let target_version = (if version = 0 then current_version archived else version) in
      case find (\<lambda>v. version_id v = target_version) (versions archived) of
        None \<Rightarrow> (target_version, False, False, 0, 0, False)
      | Some v \<Rightarrow> (target_version, destroyed v, deletion_time_ms v > 0, created_time_ms v, deletion_time_ms v, True))"

definition read_version :: "('db, 'wb, 'it) env \<Rightarrow> string \<Rightarrow> u32 \<Rightarrow> ('db, secret_payload \<times> version_state) kv_call" where
  "read_version E path version =
     andthen (read_raw_optimistic E (build_meta_key path) (\<lambda>bytes. scan_version (archived_meta (env_rkyv E) bytes) version)) (\<lambda>found.
     (case found of
        None \<Rightarrow> fail NotFound
      | Some (target_version, is_destroyed, is_deleted, created, deletion_time, found) \<Rightarrow>
          if target_version = 0 \<or> \<not> found then fail (InvalidVersion version)
          else if is_destroyed then fail Destroyed
          else if is_deleted then fail SoftDeleted
          else andthen (read_raw_optimistic E (build_version_key path target_version) (\<lambda>bytes.
                 let archived = archived_payload (env_rkyv E) bytes
                 in \<lparr>payload_value = payload_value archived, payload_ttl = payload_ttl archived\<rparr>)) (\<lambda>payload.
               (case payload of
                  None \<Rightarrow> fail (StorageError ''Missing version payload'')
                | Some res \<Rightarrow> ok (res, \<lparr>created_time_ms = created, deletion_time_ms = deletion_time,
                                        version_id = target_version, destroyed = is_destroyed\<rparr>)))))"

text \<open>The common end of the writing methods: serialise the metadata, write it through and cache it.\<close>

definition store_metadata :: "('db, 'wb, 'it) env \<Rightarrow> string \<Rightarrow> key_metadata \<Rightarrow> ('db, unit) kv_call" where
  "store_metadata E path meta =
     andthen (lift_result (serialize_metadata E meta)) (\<lambda>bytes.
     andthen (enqueue_or_execute E (Kv_Put (build_meta_key path) bytes)) (\<lambda>_.
     cache_insert E (build_meta_key path) bytes))"

definition index_path :: "string \<Rightarrow> ('db, unit) kv_call" where
  "index_path path e = do {
     (_, idx) \<leftarrow> insert_path_if_absent (path_index e) path;
     Some (Inr (), e\<lparr>path_index := idx\<rparr>)
   }"

text \<open>What \<^verbatim>\<open>put_version\<close> does once it has read the metadata.\<close>

definition put_commit :: "('db, 'wb, 'it) env \<Rightarrow> u64 \<Rightarrow> string \<Rightarrow> secret_payload \<Rightarrow> u32 option \<Rightarrow> key_metadata \<Rightarrow> ('db, unit) kv_call" where
  "put_commit E now path payload cas meta =
     (if cas \<noteq> None \<and> current_version meta \<noteq> the cas
      then fail (CasMismatch (the cas) (current_version meta))
      else
        let v = current_version meta + 1;
            vs = \<lparr>created_time_ms = now, deletion_time_ms = 0, version_id = v, destroyed = False\<rparr>;
            meta = meta\<lparr>current_version := v, versions := versions meta @ [vs]\<rparr>;
            vkey = build_version_key path v
        in andthen (lift_result (serialize_payload E payload)) (\<lambda>bytes.
           andthen (enqueue_or_execute E (Kv_Put vkey bytes)) (\<lambda>_.
           andthen (cache_insert E vkey bytes) (\<lambda>_.
           andthen (store_metadata E path meta) (\<lambda>_.
           index_path path)))))"

definition read_or_default :: "('db, 'wb, 'it) env \<Rightarrow> string \<Rightarrow> ('db, key_metadata) kv_call" where
  "read_or_default E path e = do {
     (r, e) \<leftarrow> read_metadata E path e;
     Some (if r = Inl NotFound then Inr default_metadata else r, e)
   }"

definition put_version :: "('db, 'wb, 'it) env \<Rightarrow> u64 \<Rightarrow> string \<Rightarrow> secret_payload \<Rightarrow> u32 option \<Rightarrow> ('db, unit) kv_call" where
  "put_version E now path payload cas = andthen (read_or_default E path) (put_commit E now path payload cas)"

text \<open>The loops over \<^verbatim>\<open>&mut meta.versions\<close> change the first version with the number, or find none.\<close>

fun update_first :: "u32 \<Rightarrow> (version_state \<Rightarrow> engine_error + version_state) \<Rightarrow> version_state list \<Rightarrow> engine_error + version_state list" where
  "update_first version f [] = Inl (InvalidVersion version)"
| "update_first version f (vs # rest) =
     (if version_id vs = version then (case f vs of Inl err \<Rightarrow> Inl err | Inr vs' \<Rightarrow> Inr (vs' # rest))
      else (case update_first version f rest of Inl err \<Rightarrow> Inl err | Inr rest' \<Rightarrow> Inr (vs # rest')))"

definition soft_delete :: "('db, 'wb, 'it) env \<Rightarrow> u64 \<Rightarrow> string \<Rightarrow> u32 \<Rightarrow> ('db, unit) kv_call" where
  "soft_delete E now path version =
     andthen (read_metadata E path) (\<lambda>meta.
     andthen (lift_result (update_first version (\<lambda>vs. Inr (vs\<lparr>deletion_time_ms := now\<rparr>)) (versions meta))) (\<lambda>vss.
     store_metadata E path (meta\<lparr>versions := vss\<rparr>)))"

definition undelete :: "('db, 'wb, 'it) env \<Rightarrow> string \<Rightarrow> u32 \<Rightarrow> ('db, unit) kv_call" where
  "undelete E path version =
     andthen (read_metadata E path) (\<lambda>meta.
     andthen (lift_result (update_first version
       (\<lambda>vs. if destroyed vs then Inl Destroyed else Inr (vs\<lparr>deletion_time_ms := 0\<rparr>)) (versions meta))) (\<lambda>vss.
     store_metadata E path (meta\<lparr>versions := vss\<rparr>)))"

definition destroy_version :: "('db, 'wb, 'it) env \<Rightarrow> string \<Rightarrow> u32 \<Rightarrow> ('db, unit) kv_call" where
  "destroy_version E path version =
     andthen (read_metadata E path) (\<lambda>meta.
     andthen (lift_result (update_first version (\<lambda>vs. Inr (vs\<lparr>destroyed := True\<rparr>)) (versions meta))) (\<lambda>vss.
     andthen (enqueue_or_execute E (Kv_Delete (build_version_key path version))) (\<lambda>_.
     andthen (cache_remove E (build_version_key path version)) (\<lambda>_.
     store_metadata E path (meta\<lparr>versions := vss\<rparr>)))))"

text \<open>\<^verbatim>\<open>str::split('/')\<close>\<close>

fun split_slash :: "string \<Rightarrow> string list" where
  "split_slash [] = [[]]"
| "split_slash (c # cs) = (if c = CHR ''/'' then [] # split_slash cs
     else (case split_slash cs of p # ps \<Rightarrow> (c # p) # ps | [] \<Rightarrow> [[c]]))"

definition first_part :: "string \<Rightarrow> string" where
  "first_part s = (let parts = split_slash s in if length parts > 1 then hd parts @ ''/'' else hd parts)"

definition list_entry :: "string \<Rightarrow> string \<Rightarrow> string option" where
  "list_entry prefix stored_path =
     (if prefix = [] then Some (first_part stored_path)
      else if take (length prefix) stored_path = prefix \<and> length stored_path > length prefix then
        let remainder = drop (length prefix) stored_path;
            remainder = (case remainder of c # cs \<Rightarrow> if c = CHR ''/'' then cs else c # cs | [] \<Rightarrow> [])
        in if remainder \<noteq> [] then Some (first_part remainder) else None
      else None)"

definition list_keys :: "string \<Rightarrow> ('db, string list) kv_call" where
  "list_keys prefix e = do {
     paths \<leftarrow> tls_get_all_paths (path_index e);
     Some (Inr (sorted_list_of_set (set (List.map_filter (list_entry prefix) paths))), e)
   }"

definition engine_type :: "'db kv_engine \<Rightarrow> string" where
  "engine_type e = ''kv''"

definition force_flush :: "('db, 'wb, 'it) env \<Rightarrow> ('db, unit) kv_call" where
  "force_flush E e = (case backend_flush (env_rocks E) (rocksdb e) of
     (Inl err, b) \<Rightarrow> Some (Inl (StorageError (''RocksDB flush error: '' @ err)), e\<lparr>rocksdb := b\<rparr>)
   | (Inr u, b) \<Rightarrow> Some (Inr (), e\<lparr>rocksdb := b\<rparr>))"

section \<open>The worker thread\<close>

text \<open>The state of the worker is its local batch.\<close>

definition async_worker_loop :: "('db, 'wb, 'it) env \<Rightarrow> bool \<Rightarrow> 'db kv_engine \<times> batch_op list \<Rightarrow> ('db kv_engine \<times> batch_op list) option" where
  "async_worker_loop E timeout_reached w = (case w of (e, bt) \<Rightarrow> do {
     (q, bt', b) \<leftarrow> worker_iter lfq_dequeue kv_batch_op (apply_batch (env_rocks E)) 1024 timeout_reached (async_queue e, bt, rocksdb e);
     Some (e\<lparr>async_queue := q, rocksdb := b\<rparr>, bt')
   })"

text \<open>Dropping the engine stops the worker, waits for it, and flushes; the errors are ignored.\<close>

definition kv_drop :: "('db, 'wb, 'it) env \<Rightarrow> 'db kv_engine \<times> batch_op list \<Rightarrow> 'db kv_engine option" where
  "kv_drop E w = (case w of (e, bt) \<Rightarrow> do {
     let e = e\<lparr>async_running := False\<rparr>;
     (q, b) \<leftarrow> worker_exit lfq_dequeue kv_batch_op (apply_batch (env_rocks E)) (async_queue e, bt, rocksdb e);
     Some (e\<lparr>async_queue := q, rocksdb := snd (backend_flush (env_rocks E) b)\<rparr>)
   })"

end
