(* ===== verification/Kv_Spec.thy ===== *)
theory Kv_Spec
  imports Kv_Engine
begin

text \<open>
  The contract of a secret engine (the trait \<^verbatim>\<open>SecretEngine\<close> of \<^verbatim>\<open>src/engine/traits.rs\<close>): a map from paths to secrets, each
  with its metadata and the payloads of its versions, and what every request returns and changes.  The locale
  \<open>secret_engine\<close> states that an engine implements the contract; \<open>Kv_Refinement\<close> interprets it on the key-value
  engine in immediate mode.
\<close>

type_synonym secret = "key_metadata \<times> (u32 \<Rightarrow> secret_payload option)"
type_synonym vstore = "string \<Rightarrow> secret option"

datatype request =
    Read_Version string u32
  | Read_Metadata string
  | Put_Version u64 string secret_payload "u32 option"
  | Soft_Delete u64 string u32
  | Undelete string u32
  | Destroy_Version string u32
  | List_Keys string

datatype answer =
    Secret secret_payload version_state
  | Metadata key_metadata
  | Done
  | Keys "string list"

definition spec_read :: "string \<Rightarrow> u32 \<Rightarrow> vstore \<Rightarrow> engine_error + answer" where
  "spec_read path version st = (case st path of
     None \<Rightarrow> Inl NotFound
   | Some (meta, payloads) \<Rightarrow>
       (let v = (if version = 0 then current_version meta else version) in
        case find (\<lambda>vs. version_id vs = v) (versions meta) of
          None \<Rightarrow> Inl (InvalidVersion version)
        | Some vs \<Rightarrow>
            if v = 0 then Inl (InvalidVersion version)
            else if destroyed vs then Inl Destroyed
            else if deletion_time_ms vs > 0 then Inl SoftDeleted
            else (case payloads v of
                None \<Rightarrow> Inl (StorageError ''Missing version payload'')
              | Some payload \<Rightarrow> Inr (Secret payload vs))))"

definition secret_at :: "vstore \<Rightarrow> string \<Rightarrow> secret" where
  "secret_at st path = (case st path of None \<Rightarrow> (default_metadata, Map.empty) | Some s \<Rightarrow> s)"

definition add_version :: "u64 \<Rightarrow> secret_payload \<Rightarrow> secret \<Rightarrow> secret" where
  "add_version now payload s = (case s of (meta, payloads) \<Rightarrow>
     (let v = current_version meta + 1 in
      (meta\<lparr>current_version := v,
            versions := versions meta @ [\<lparr>created_time_ms = now, deletion_time_ms = 0, version_id = v, destroyed = False\<rparr>]\<rparr>,
       payloads(v \<mapsto> payload))))"

definition spec_put :: "u64 \<Rightarrow> string \<Rightarrow> secret_payload \<Rightarrow> u32 option \<Rightarrow> vstore \<Rightarrow> (engine_error + answer) \<times> vstore" where
  "spec_put now path payload cas st =
     (let s = secret_at st path in
      case cas of
        Some c \<Rightarrow> if current_version (fst s) \<noteq> c then (Inl (CasMismatch c (current_version (fst s))), st)
                  else (Inr Done, st(path \<mapsto> add_version now payload s))
      | None \<Rightarrow> (Inr Done, st(path \<mapsto> add_version now payload s)))"

text \<open>A change of one version: its state by \<open>f\<close>, the payloads by \<open>g\<close>.\<close>

definition spec_change :: "string \<Rightarrow> u32 \<Rightarrow> (version_state \<Rightarrow> engine_error + version_state)
    \<Rightarrow> ((u32 \<Rightarrow> secret_payload option) \<Rightarrow> (u32 \<Rightarrow> secret_payload option)) \<Rightarrow> vstore \<Rightarrow> (engine_error + answer) \<times> vstore" where
  "spec_change path version f g st = (case st path of
     None \<Rightarrow> (Inl NotFound, st)
   | Some (meta, payloads) \<Rightarrow> (case update_first version f (versions meta) of
       Inl err \<Rightarrow> (Inl err, st)
     | Inr vss \<Rightarrow> (Inr Done, st(path \<mapsto> (meta\<lparr>versions := vss\<rparr>, g payloads)))))"

fun spec_step :: "request \<Rightarrow> vstore \<Rightarrow> (engine_error + answer) \<times> vstore" where
  "spec_step (Read_Version path version) st = (spec_read path version st, st)"
| "spec_step (Read_Metadata path) st = (case st path of None \<Rightarrow> Inl NotFound | Some s \<Rightarrow> Inr (Metadata (fst s)), st)"
| "spec_step (Put_Version now path payload cas) st = spec_put now path payload cas st"
| "spec_step (Soft_Delete now path version) st =
     spec_change path version (\<lambda>vs. Inr (vs\<lparr>deletion_time_ms := now\<rparr>)) (\<lambda>P. P) st"
| "spec_step (Undelete path version) st =
     spec_change path version (\<lambda>vs. if destroyed vs then Inl Destroyed else Inr (vs\<lparr>deletion_time_ms := 0\<rparr>)) (\<lambda>P. P) st"
| "spec_step (Destroy_Version path version) st =
     spec_change path version (\<lambda>vs. Inr (vs\<lparr>destroyed := True\<rparr>)) (\<lambda>P. P(version := None)) st"
| "spec_step (List_Keys prefix) st =
     (Inr (Keys (sorted_list_of_set {name. \<exists>path \<in> dom st. list_entry prefix path = Some name})), st)"

fun spec_run :: "request list \<Rightarrow> vstore \<Rightarrow> (engine_error + answer) list \<times> vstore" where
  "spec_run [] st = ([], st)"
| "spec_run (req # reqs) st = (case spec_step req st of (r, st') \<Rightarrow> apfst ((#) r) (spec_run reqs st'))"

text \<open>A sequence of requests to an engine.\<close>

fun engine_run :: "(request \<Rightarrow> ('s, engine_error, answer) call) \<Rightarrow> request list \<Rightarrow> 's \<Rightarrow> ((engine_error + answer) list \<times> 's) option" where
  "engine_run step [] s = Some ([], s)"
| "engine_run step (req # reqs) s = do {
     (r, s) \<leftarrow> step req s;
     (rs, s) \<leftarrow> engine_run step reqs s;
     Some (r # rs, s)
   }"

locale secret_engine =
  fixes inv :: "'s \<Rightarrow> bool"
    and store :: "'s \<Rightarrow> vstore"
    and step :: "request \<Rightarrow> ('s, engine_error, answer) call"
  assumes step_law: "inv s \<Longrightarrow> wp (step req) (\<lambda>r s'. inv s' \<and> (r, store s') = spec_step req (store s)) s"
begin

lemma run_law:
  "inv s \<Longrightarrow> \<exists>s'. engine_run step reqs s = Some (fst (spec_run reqs (store s)), s') \<and> inv s'
    \<and> store s' = snd (spec_run reqs (store s))"
proof (induction reqs arbitrary: s)
  case (Cons req reqs)
  obtain r s1 where s1: "step req s = Some (r, s1)" "inv s1" "spec_step req (store s) = (r, store s1)"
    using step_law[OF Cons(2), of req] unfolding wp_def by metis
  then show ?case using Cons(1)[OF s1(2)] by auto
qed simp

end

section \<open>What the contract means to a client\<close>

lemma find_update_first:
  assumes "update_first v f vss = Inr vss'" "\<And>x y. f x = Inr y \<Longrightarrow> version_id y = version_id x"
  shows "find (\<lambda>vs. version_id vs = w) vss' =
    (if w = v then map_option (\<lambda>x. projr (f x)) (find (\<lambda>vs. version_id vs = w) vss) else find (\<lambda>vs. version_id vs = w) vss)"
  using assms(1)
proof (induction vss arbitrary: vss')
  case (Cons x vss)
  then show ?case using assms(2)[of x] by (cases "version_id x = v") (auto split: sum.splits)
qed simp

lemma update_first_ids:
  "update_first v f vss = Inr vss' \<Longrightarrow> (\<And>x y. f x = Inr y \<Longrightarrow> version_id y = version_id x)
   \<Longrightarrow> map version_id vss' = map version_id vss"
  by (induction v f vss arbitrary: vss' rule: update_first.induct) (auto split: if_splits sum.splits)

lemma update_first_found: "update_first v f vss = Inr vss' \<Longrightarrow> \<exists>vs. find (\<lambda>vs. version_id vs = v) vss = Some vs \<and> f vs = Inr (projr (f vs))"
  by (induction v f vss arbitrary: vss' rule: update_first.induct) (auto split: if_splits sum.splits)

text \<open>The metadata of a secret numbers its versions from one to the current one.\<close>

definition meta_wf :: "key_metadata \<Rightarrow> bool" where
  "meta_wf m \<longleftrightarrow> map (unat \<circ> version_id) (versions m) = [1..<Suc (unat (current_version m))]"

definition store_wf :: "vstore \<Rightarrow> bool" where
  "store_wf st \<longleftrightarrow> (\<forall>path meta payloads. st path = Some (meta, payloads) \<longrightarrow> meta_wf meta \<and> dom payloads \<subseteq> version_id ` set (versions meta))"

end
