(* ===== verification/Kv_Refinement.thy ===== *)
theory Kv_Refinement
  imports Kv_Spec
begin

text \<open>
  The key-value engine implements the contract of \<open>Kv_Spec\<close>.  What it holds are the contents of the disk with the operations
  that are queued, or taken by the worker, applied; the cache agrees with that and the index holds its paths.  In the
  immediate mode nothing is queued and this is the disk.  In the batch mode a request keeps the contract if the keys that it reads
  are cached or not under way.  The hypotheses on the parameters are \<open>env_sound\<close>: RocksDB behaves as documented, and what
  rkyv serialises it also reads back (the metadata that the engine writes never has custom entries).  A call of RocksDB may
  fail; every rule has a case for that, which is void under \<open>env_ok\<close>, where no call fails.
\<close>

definition rkyv_ok :: "rkyv \<Rightarrow> bool" where
  "rkyv_ok K \<longleftrightarrow> (\<forall>m. custom_metadata m = Map.empty \<longrightarrow> (\<exists>b. to_bytes_meta K m = Inr b \<and> archived_meta K b = m))
     \<and> (\<forall>p. \<exists>b. to_bytes_payload K p = Inr b \<and> archived_payload K b = p)"

definition env_sound :: "('db, 'wb, 'it) env \<Rightarrow> ('db, 'wb, 'it) rocks_view \<Rightarrow> bool" where
  "env_sound E V \<longleftrightarrow> rocks_ok (env_rocks E) V \<and> rkyv_ok (env_rkyv E)"

definition env_ok :: "('db, 'wb, 'it) env \<Rightarrow> ('db, 'wb, 'it) rocks_view \<Rightarrow> bool" where
  "env_ok E V \<longleftrightarrow> rocks_ok (env_rocks E) V \<and> rocks_reliable (env_rocks E) \<and> rkyv_ok (env_rkyv E)"

section \<open>The storage keys\<close>

lemma meta_key_inj [simp]: "build_meta_key p = build_meta_key q \<longleftrightarrow> p = q"
  by (simp add: build_meta_key_def)

lemma meta_version_key [simp]: "build_meta_key p \<noteq> build_version_key q v" "build_version_key q v \<noteq> build_meta_key p"
  by (simp_all add: build_meta_key_def build_version_key_def)

lemma colon_split:
  assumes "xs @ '':'' @ ys = xs' @ '':'' @ ys'" "CHR '':'' \<notin> set ys" "CHR '':'' \<notin> set ys'"
  shows "xs = xs' \<and> ys = ys'"
proof -
  have "rev ys @ CHR '':'' # rev xs = rev ys' @ CHR '':'' # rev xs'"
    using arg_cong[OF assms(1), of rev] by simp
  moreover have "takeWhile (\<lambda>c. c \<noteq> CHR '':'') (rev zs @ CHR '':'' # ws) = rev zs"
    if "CHR '':'' \<notin> set zs" for zs ws using that by (subst takeWhile_append2) auto
  ultimately have "rev ys = rev ys'" using assms(2,3) by metis
  then show ?thesis using assms(1) by simp
qed

lemma version_key_inj [simp]: "build_version_key p v = build_version_key q w \<longleftrightarrow> p = q \<and> v = w"
  using colon_split[of p "show_nat (unat v)" q "show_nat (unat w)"] show_nat_no_char[of "CHR '':''"]
  by (auto simp: build_version_key_def show_nat_inj word_unat_eq_iff)

section \<open>The store that the disk holds\<close>

definition stored_meta :: "('db, 'wb, 'it) env \<Rightarrow> contents \<Rightarrow> string \<Rightarrow> key_metadata option" where
  "stored_meta E m path = map_option (\<lambda>b. projr (deserialize_metadata E b)) (m (build_meta_key path))"

definition stored_payload :: "('db, 'wb, 'it) env \<Rightarrow> contents \<Rightarrow> string \<Rightarrow> u32 \<Rightarrow> secret_payload option" where
  "stored_payload E m path v = map_option (archived_payload (env_rkyv E)) (m (build_version_key path v))"

definition stored :: "('db, 'wb, 'it) env \<Rightarrow> contents \<Rightarrow> vstore" where
  "stored E m path = map_option (\<lambda>meta. (meta, stored_payload E m path |` (version_id ` set (versions meta)))) (stored_meta E m path)"

lemma copied_versions [simp]:
  "map (\<lambda>v. \<lparr>created_time_ms = created_time_ms v, deletion_time_ms = deletion_time_ms v,
          version_id = version_id v, destroyed = destroyed v\<rparr>) vss = vss"
  by (rule map_idI) simp

lemma deserialize_fields:
  "\<exists>meta. deserialize_metadata E b = Inr meta \<and> current_version meta = current_version (archived_meta (env_rkyv E) b)
    \<and> versions meta = versions (archived_meta (env_rkyv E) b) \<and> custom_metadata meta = Map.empty"
  by (simp add: deserialize_metadata_def Let_def)

lemma deserialize_serialized:
  assumes "archived_meta (env_rkyv E) b = meta" "custom_metadata meta = Map.empty"
  shows "deserialize_metadata E b = Inr meta"
  using assms by (cases meta) (simp add: deserialize_metadata_def Let_def)

lemma stored_meta_custom: "stored_meta E m path = Some meta \<Longrightarrow> custom_metadata meta = Map.empty"
  by (auto simp: stored_meta_def deserialize_metadata_def Let_def)

lemma stored_dom: "dom (stored E m) = {path. m (build_meta_key path) \<noteq> None}"
  by (auto simp: stored_def stored_meta_def)

lemma stored_payload_put [simp]:
  "stored_payload E (m(build_meta_key path := x)) = stored_payload E m"
  "stored_payload E (m(build_version_key path v \<mapsto> b)) path = (stored_payload E m path)(v \<mapsto> archived_payload (env_rkyv E) b)"
  "stored_payload E (m(build_version_key path v := None)) path = (stored_payload E m path)(v := None)"
  "q \<noteq> path \<Longrightarrow> stored_payload E (m(build_version_key path v := x)) q = stored_payload E m q"
  by (auto simp: stored_payload_def fun_eq_iff)

lemma stored_meta_put [simp]:
  "stored_meta E (m(build_version_key path v := x)) = stored_meta E m"
  "q \<noteq> path \<Longrightarrow> stored_meta E (m(build_meta_key path := x)) q = stored_meta E m q"
  by (auto simp: stored_meta_def fun_eq_iff)

lemma stored_other:
  "q \<noteq> path \<Longrightarrow> stored E (m(build_version_key path v := x)) q = stored E m q"
  "q \<noteq> path \<Longrightarrow> stored E (m(build_meta_key path := x)) q = stored E m q"
  by (simp_all add: stored_def)

lemma stored_put_meta:
  assumes "deserialize_metadata E b = Inr meta"
  shows "stored E (m(build_meta_key path \<mapsto> b)) =
     (stored E m)(path \<mapsto> (meta, stored_payload E m path |` (version_id ` set (versions meta))))"
proof
  fix q
  show "stored E (m(build_meta_key path \<mapsto> b)) q =
     ((stored E m)(path \<mapsto> (meta, stored_payload E m path |` (version_id ` set (versions meta))))) q"
    using assms by (cases "q = path") (simp_all add: stored_other, simp add: stored_def stored_meta_def)
qed

section \<open>The building blocks\<close>

text \<open>
  The situation of an engine: its mode, and the operations that the worker thread has taken from the queue and not written
  yet.  What the engine holds are the contents of the disk once these and the queued operations are applied.
\<close>

type_synonym situation = "sync_mode \<times> batch_op list"

definition effective :: "situation \<Rightarrow> ('db, 'wb, 'it) rocks_view \<Rightarrow> 'db kv_engine \<Rightarrow> contents" where
  "effective B V e = apply_ops (snd B @ map kv_batch_op (lfq_items (async_queue e))) (disk V (rocksdb e))"

text \<open>
  \<open>holds B E V m c P e\<close>: in the situation \<open>B\<close>, the effective contents of \<open>e\<close> are \<open>m\<close>, whatever the cache answers is in \<open>c\<close>, and the
  index holds the paths \<open>P\<close>.  In the immediate mode nothing is queued.  Between a write and the update of the cache \<open>c\<close> is
  behind \<open>m\<close>.
\<close>

definition holds :: "situation \<Rightarrow> ('db, 'wb, 'it) env \<Rightarrow> ('db, 'wb, 'it) rocks_view \<Rightarrow> contents \<Rightarrow> contents \<Rightarrow> string set \<Rightarrow> 'db kv_engine \<Rightarrow> bool" where
  "holds B E V m c P e \<longleftrightarrow> env_sound E V \<and> get_sync_mode e = fst B \<and> lfq_inv (async_queue e)
     \<and> (fst B = Immediate \<longrightarrow> lfq_items (async_queue e) = [] \<and> snd B = [])
     \<and> effective B V e = m \<and> sharded_inv (env_sip E) (kv_cache e) \<and> sharded_view (env_sip E) (kv_cache e) \<subseteq>\<^sub>m c
     \<and> tls_inv (path_index e) \<and> tls_paths (path_index e) = P"

text \<open>The errors that the storage can give: a failed call of RocksDB, and in the batch mode a full queue.\<close>

definition queue_full :: "'db kv_engine \<Rightarrow> bool" where
  "queue_full e \<longleftrightarrow> lfq_cap (async_queue e) \<le> length (lfq_items (async_queue e))"

definition fails :: "situation \<Rightarrow> ('db, 'wb, 'it) env \<Rightarrow> 'db kv_engine \<Rightarrow> engine_error \<Rightarrow> bool" where
  "fails B E e err \<longleftrightarrow> \<not> rocks_reliable (env_rocks E) \<and> (\<exists>msg. err = StorageError msg) \<or> fst B = Batch \<and> err = QueueFull \<and> queue_full e"

lemma not_found_no_failure [simp]: "\<not> fails B E e NotFound"
  by (simp add: fails_def)

lemma reliable_fails [simp]:
  "rocks_reliable (env_rocks E) \<Longrightarrow> fails B E e err \<longleftrightarrow> fst B = Batch \<and> err = QueueFull \<and> queue_full e"
  by (simp add: fails_def)

lemma effective_update [simp]:
  "effective B V (e\<lparr>kv_cache := c\<rparr>) = effective B V e" "effective B V (e\<lparr>path_index := i\<rparr>) = effective B V e"
  by (simp_all add: effective_def)

text \<open>A read finds what the engine holds if the cache has the key, or no operation that is under way changes it.\<close>

definition visible :: "situation \<Rightarrow> ('db, 'wb, 'it) env \<Rightarrow> ('db, 'wb, 'it) rocks_view \<Rightarrow> 'db kv_engine \<Rightarrow> bytes \<Rightarrow> bool" where
  "visible B E V e k \<longleftrightarrow> sharded_view (env_sip E) (kv_cache e) k \<noteq> None \<or> disk V (rocksdb e) k = effective B V e k"

lemma visible_immediate: "holds B E V m c P e \<Longrightarrow> fst B = Immediate \<Longrightarrow> visible B E V e k"
  by (simp add: holds_def visible_def effective_def)

lemma get_sync_mode_update [simp]:
  "get_sync_mode (e\<lparr>kv_cache := c\<rparr>) = get_sync_mode e"
  "get_sync_mode (e\<lparr>rocksdb := b\<rparr>) = get_sync_mode e"
  "get_sync_mode (e\<lparr>path_index := i\<rparr>) = get_sync_mode e"
  "get_sync_mode (e\<lparr>async_queue := q\<rparr>) = get_sync_mode e"
  "get_sync_mode (change_sync_mode mode e) = mode"
  by (cases mode; simp add: get_sync_mode_def change_sync_mode_def)+

named_theorems kv_rules \<open>what a call of the engine does to the disk, the cache and the index\<close>

lemma wp_lift [simp]: "wp (lift_result r) Q e = Q r e"
  by (simp add: wp_def lift_result_def)

lemma cache_insert_rule [kv_rules]:
  assumes "holds B E V m c P e" "\<And>e'. holds B E V m (c(k \<mapsto> v)) P e' \<Longrightarrow> Q (Inr ()) e'"
  shows "wp (cache_insert E k v) Q e"
proof -
  have "sharded_inv (env_sip E) (kv_cache e)" "sharded_view (env_sip E) (kv_cache e) \<subseteq>\<^sub>m c"
    using assms(1) by (simp_all add: holds_def)
  then obtain r t where "sharded_ins (env_sip E) (kv_cache e) k v = Some (r, t)" "sharded_inv (env_sip E) t"
    "sharded_view (env_sip E) t \<subseteq>\<^sub>m c(k \<mapsto> v)" by (rule st.ins_coherent[of "env_sip E" "kv_cache e" c k v])
  then show ?thesis using assms by (auto simp: wp_def cache_insert_def sharded_ins_def holds_def)
qed

lemma cache_remove_rule [kv_rules]:
  assumes "holds B E V m c P e" "\<And>e'. holds B E V m (c(k := None)) P e' \<Longrightarrow> Q (Inr ()) e'"
  shows "wp (cache_remove E k) Q e"
proof -
  have "sharded_inv (env_sip E) (kv_cache e)" "sharded_view (env_sip E) (kv_cache e) \<subseteq>\<^sub>m c"
    using assms(1) by (simp_all add: holds_def)
  then obtain r t where "sharded_remove (env_sip E) (kv_cache e) k = Some (r, t)" "sharded_inv (env_sip E) t"
    "sharded_view (env_sip E) t \<subseteq>\<^sub>m c(k := None)" by (rule st.rm_coherent[of "env_sip E" "kv_cache e" c k]) blast
  then show ?thesis using assms by (auto simp: wp_def cache_remove_def holds_def)
qed

lemma index_path_rule [kv_rules]:
  assumes "holds B E V m c P e" "\<And>e'. holds B E V m c (insert p P) e' \<Longrightarrow> Q (Inr ()) e'"
  shows "wp (index_path p) Q e"
proof -
  have "tls_inv (path_index e)" using assms(1) by (simp add: holds_def)
  from tls.add_law[OF this, of p] obtain r i where "insert_path_if_absent (path_index e) p = Some (r, i)" "tls_inv i"
    "tls_paths i = insert p (tls_paths (path_index e))" by blast
  then show ?thesis using assms by (auto simp: wp_def index_path_def holds_def)
qed

lemma execute_rule:
  assumes h: "holds B E V m c P e" and mode: "fst B = Immediate"
    and w: "enqueue_or_execute E op e = Some (case r of Inl err \<Rightarrow> Inl (StorageError (pre @ err)) | Inr _ \<Rightarrow> Inr (), e\<lparr>rocksdb := b\<rparr>)"
    and d: "disk V b = (case r of Inl err \<Rightarrow> m | Inr _ \<Rightarrow> apply_op (kv_batch_op op) m)"
    and rel: "rocks_reliable (env_rocks E) \<Longrightarrow> r = Inr ()"
    and Q: "\<And>e'. holds B E V (apply_op (kv_batch_op op) m) c P e' \<Longrightarrow> Q (Inr ()) e'"
      "\<And>err e'. fails B E e' err \<Longrightarrow> holds B E V m c P e' \<Longrightarrow> Q (Inl err) e'"
  shows "wp (enqueue_or_execute E op) Q e"
proof -
  have "holds B E V (disk V b) c P (e\<lparr>rocksdb := b\<rparr>)" using h mode by (auto simp: holds_def effective_def)
  then show ?thesis using w d rel Q by (cases r) (auto simp: wp_def fails_def)
qed

lemma write_rule:
  assumes h: "holds B E V m c P e"
    and Q: "\<And>e'. holds B E V (apply_op (kv_batch_op op) m) c P e' \<Longrightarrow> Q (Inr ()) e'"
      "\<And>err e'. fails B E e' err \<Longrightarrow> holds B E V m c P e' \<Longrightarrow> Q (Inl err) e'"
  shows "wp (enqueue_or_execute E op) Q e"
proof (cases "fst B = Immediate")
  case True
  have R: "rocks_ok (env_rocks E) V" "get_sync_mode e = Immediate" "disk V (rocksdb e) = m"
    using h True by (auto simp: holds_def env_sound_def effective_def)
  show ?thesis
  proof (cases op)
    case (Kv_Put k v)
    obtain r b where b: "put_raw (env_rocks E) (rocksdb e) k v = (r, b)" by fastforce
    then have "rocks_reliable (env_rocks E) \<Longrightarrow> r = Inr ()" by (auto simp: put_raw_def on_db_def rocks_reliable_def)
    then show ?thesis using b R put_raw_effect[OF R(1) b] Kv_Put
      by (intro execute_rule[OF h True, where r = r and b = b and pre = "''Immediate write failed: ''"] Q)
        (auto simp: enqueue_or_execute_def split: sum.splits)
  next
    case (Kv_Delete k)
    obtain r b where b: "del_raw (env_rocks E) (rocksdb e) k = (r, b)" by fastforce
    then have "rocks_reliable (env_rocks E) \<Longrightarrow> r = Inr ()" by (auto simp: del_raw_def on_db_def rocks_reliable_def)
    then show ?thesis using b R del_raw_effect[OF R(1) b] Kv_Delete
      by (intro execute_rule[OF h True, where r = r and b = b and pre = "''Immediate delete failed: ''"] Q)
        (auto simp: enqueue_or_execute_def split: sum.splits)
  qed
next
  case False
  then have batch: "fst B = Batch" "get_sync_mode e = Batch" "lfq_inv (async_queue e)" using h by (auto simp: holds_def intro: sync_mode.exhaust)
  obtain q where q: "lfq_inv q" "lfq_cap q = lfq_cap (async_queue e)" "if length (lfq_items (async_queue e)) < lfq_cap (async_queue e)
      then lfq_enqueue (async_queue e) op = Some (Inr (), q) \<and> lfq_items q = lfq_items (async_queue e) @ [op]
      else lfq_enqueue (async_queue e) op = Some (Inl Full, q) \<and> lfq_items q = lfq_items (async_queue e)"
    using lfq.enq_law[OF batch(3), of op] by blast
  have e': "holds B E V (apply_ops (map kv_batch_op ops) m) c P (e\<lparr>async_queue := q\<rparr>)" if "lfq_items q = lfq_items (async_queue e) @ ops" for ops
    using h q(1) that batch(1) by (simp add: holds_def effective_def)
  show ?thesis
  proof (cases "length (lfq_items (async_queue e)) < lfq_cap (async_queue e)")
    case True
    then show ?thesis using q(3) Q(1) e'[of "[op]"] batch(2) by (simp add: wp_def enqueue_or_execute_def)
  next
    case False
    then show ?thesis using q(2,3) Q(2) e'[of "[]"] batch(1,2) by (simp add: wp_def enqueue_or_execute_def fails_def queue_full_def)
  qed
qed

lemma write_put_rule [kv_rules]:
  assumes "holds B E V m c P e" "\<And>e'. holds B E V (m(k \<mapsto> v)) c P e' \<Longrightarrow> Q (Inr ()) e'"
    and "\<And>err e'. fails B E e' err \<Longrightarrow> holds B E V m c P e' \<Longrightarrow> Q (Inl err) e'"
  shows "wp (enqueue_or_execute E (Kv_Put k v)) Q e"
  by (rule write_rule[OF assms(1)]) (use assms(2,3) in simp_all)

lemma write_delete_rule [kv_rules]:
  assumes "holds B E V m c P e" "\<And>e'. holds B E V (m(k := None)) c P e' \<Longrightarrow> Q (Inr ()) e'"
    and "\<And>err e'. fails B E e' err \<Longrightarrow> holds B E V m c P e' \<Longrightarrow> Q (Inl err) e'"
  shows "wp (enqueue_or_execute E (Kv_Delete k)) Q e"
  by (rule write_rule[OF assms(1)]) (use assms(2,3) in simp_all)

text \<open>A read of a visible key returns what the engine holds.\<close>

lemma cached_miss_rule:
  assumes "holds B E V m m P e" "disk V (rocksdb e) k = m k"
    and "\<And>e'. holds B E V m m P e' \<Longrightarrow> Q (Inr (map_option f (m k))) e'"
    and "\<And>err e'. fails B E e' err \<Longrightarrow> holds B E V m m P e' \<Longrightarrow> Q (Inl err) e'"
  shows "wp (\<lambda>e. case get_raw (env_rocks E) (rocksdb e) k of
            Inl err \<Rightarrow> Some (Inl (StorageError (''RocksDB get error: '' @ err)), e)
          | Inr None \<Rightarrow> Some (Inr None, e)
          | Inr (Some bytes) \<Rightarrow> andthen (cache_insert E k bytes) (\<lambda>_. ok (Some (f bytes))) e) Q e"
proof (cases "get_raw (env_rocks E) (rocksdb e) k")
  case (Inl err)
  have "\<not> rocks_reliable (env_rocks E)" using Inl unfolding rocks_reliable_def get_raw_def by (metis sum.distinct(1))
  then show ?thesis using Inl assms(1,4) by (simp add: wp_def fails_def)
next
  case (Inr x)
  have "rocks_ok (env_rocks E) V" using assms(1) by (simp add: holds_def env_sound_def)
  then have x: "x = m k" using get_raw_ok[of "env_rocks E" V "rocksdb e" k] Inr assms(2) by auto
  show ?thesis
  proof (cases "m k")
    case None
    then show ?thesis using Inr x assms(1,3) by (simp add: wp_def)
  next
    case (Some v)
    have "wp (andthen (cache_insert E k v) (\<lambda>_. ok (Some (f v)))) Q e"
      using assms(3) Some by (auto intro!: cache_insert_rule[OF assms(1)] simp: fun_upd_idem)
    then show ?thesis using Inr x Some by (simp add: wp_def)
  qed
qed

lemma read_raw_rule [kv_rules]:
  assumes "holds B E V m m P e" "visible B E V e k" "\<And>e'. holds B E V m m P e' \<Longrightarrow> Q (Inr (map_option f (m k))) e'"
    and "\<And>err e'. fails B E e' err \<Longrightarrow> holds B E V m m P e' \<Longrightarrow> Q (Inl err) e'"
  shows "wp (read_raw_optimistic E k f) Q e"
proof -
  have h: "sharded_inv (env_sip E) (kv_cache e)" "sharded_view (env_sip E) (kv_cache e) \<subseteq>\<^sub>m m"
    using assms(1) by (simp_all add: holds_def)
  obtain t where t: "sharded_lookup_map (env_sip E) (kv_cache e) k (\<lambda>entry. f (entry_payload entry)) =
      Some (map_option f (sharded_view (env_sip E) (kv_cache e) k), t)"
    "sharded_inv (env_sip E) t" "sharded_view (env_sip E) t = sharded_view (env_sip E) (kv_cache e)"
    using sharded_lookup_map_spec[OF h(1), of k "\<lambda>entry. f (entry_payload entry)"]
    by (auto simp: fresh_entry_def comp_def)
  have e: "holds B E V m m P (e\<lparr>kv_cache := t\<rparr>)" using assms(1) t by (simp add: holds_def)
  show ?thesis
  proof (cases "sharded_view (env_sip E) (kv_cache e) k")
    case (Some v)
    have "m k = Some v" by (rule map_leD[OF h(2) Some])
    then show ?thesis using assms(3)[OF e] t(1) Some by (simp add: wp_def read_raw_optimistic_def)
  next
    case None
    then have miss: "read_raw_optimistic E k f e = (\<lambda>e. case get_raw (env_rocks E) (rocksdb e) k of
            Inl err \<Rightarrow> Some (Inl (StorageError (''RocksDB get error: '' @ err)), e)
          | Inr None \<Rightarrow> Some (Inr None, e)
          | Inr (Some bytes) \<Rightarrow> andthen (cache_insert E k bytes) (\<lambda>_. ok (Some (f bytes))) e) (e\<lparr>kv_cache := t\<rparr>)"
      using t(1) by (simp add: read_raw_optimistic_def Let_def)
    have d: "disk V (rocksdb (e\<lparr>kv_cache := t\<rparr>)) k = m k" using None assms(1,2) by (simp add: visible_def holds_def)
    show ?thesis unfolding wp_def miss by (rule cached_miss_rule[unfolded wp_def, OF e d assms(3) assms(4)])
  qed
qed

section \<open>The methods\<close>

text \<open>The cache and the index agree with what the engine holds, and this is the store that it serves.\<close>

definition agrees :: "situation \<Rightarrow> ('db, 'wb, 'it) env \<Rightarrow> ('db, 'wb, 'it) rocks_view \<Rightarrow> 'db kv_engine \<Rightarrow> bool" where
  "agrees B E V e \<longleftrightarrow> holds B E V (effective B V e) (effective B V e) (dom (stored E (effective B V e))) e"

definition effective_store :: "situation \<Rightarrow> ('db, 'wb, 'it) env \<Rightarrow> ('db, 'wb, 'it) rocks_view \<Rightarrow> 'db kv_engine \<Rightarrow> vstore" where
  "effective_store B E V e = stored E (effective B V e)"

definition has_store :: "situation \<Rightarrow> ('db, 'wb, 'it) env \<Rightarrow> ('db, 'wb, 'it) rocks_view \<Rightarrow> vstore \<Rightarrow> 'db kv_engine \<Rightarrow> bool" where
  "has_store B E V st e \<longleftrightarrow> agrees B E V e \<and> effective_store B E V e = st"

lemma has_storeI: "holds B E V m m P e \<Longrightarrow> stored E m = st \<Longrightarrow> P = dom st \<Longrightarrow> has_store B E V st e"
  by (auto simp: has_store_def agrees_def effective_store_def holds_def)

text \<open>
  What a request may leave behind when the storage fails half way: the payload of a version is removed before its
  state is written, and a new payload is written before the metadata that name it.
\<close>

fun torn :: "request \<Rightarrow> vstore \<Rightarrow> vstore set" where
  "torn (Put_Version now path payload cas) st = (case st path of
     Some (meta, pl) \<Rightarrow> let v = current_version meta + 1 in
       if v \<in> version_id ` set (versions meta) then {st, st(path \<mapsto> (meta, pl(v \<mapsto> payload)))} else {st}
   | None \<Rightarrow> {st})"
| "torn (Destroy_Version path v) st = (case st path of
     Some (meta, pl) \<Rightarrow> {st, st(path \<mapsto> (meta, pl(v := None)))}
   | None \<Rightarrow> {st})"
| "torn _ st = {st}"

lemma torn_same: "st \<in> torn req st"
  by (cases req) (auto simp: Let_def split: option.splits)

text \<open>The result of a method: the answer and the store of the contract, or an error of the storage with one of the stores in \<open>T\<close>.\<close>

definition outcome :: "situation \<Rightarrow> ('db, 'wb, 'it) env \<Rightarrow> ('db, 'wb, 'it) rocks_view \<Rightarrow> (engine_error + 'a) \<times> vstore \<Rightarrow> vstore set
    \<Rightarrow> engine_error + 'a \<Rightarrow> 'db kv_engine \<Rightarrow> bool" where
  "outcome B E V res T r e \<longleftrightarrow> (r = fst res \<and> has_store B E V (snd res) e)
     \<or> (\<exists>err. fails B E e err \<and> r = Inl err \<and> (\<exists>st \<in> T. has_store B E V st e))"

lemma outcome_intros:
  "has_store B E V (snd res) e \<Longrightarrow> r = fst res \<Longrightarrow> outcome B E V res T r e"
  "fails B E e err \<Longrightarrow> has_store B E V st e \<Longrightarrow> st \<in> T \<Longrightarrow> outcome B E V res T (Inl err) e"
  by (auto simp: outcome_def)

lemma read_metadata_rule [kv_rules]:
  assumes "holds B E V m m P e" "visible B E V e (build_meta_key path)"
    "\<And>e'. holds B E V m m P e' \<Longrightarrow> Q (case stored_meta E m path of None \<Rightarrow> Inl NotFound | Some meta \<Rightarrow> Inr meta) e'"
    and "\<And>err e'. fails B E e' err \<Longrightarrow> holds B E V m m P e' \<Longrightarrow> Q (Inl err) e'"
  shows "wp (read_metadata E path) Q e"
  unfolding read_metadata_def wp_andthen
proof (rule read_raw_rule[OF assms(1,2)])
  fix e' assume e': "holds B E V m m P e'"
  show "case Inr (map_option (deserialize_metadata E) (m (build_meta_key path))) of Inl e \<Rightarrow> Q (Inl e) e'
      | Inr x \<Rightarrow> wp (case x of None \<Rightarrow> fail NotFound | Some res \<Rightarrow> lift_result res) Q e'"
    using assms(3)[OF e'] deserialize_fields[of E]
    by (cases "m (build_meta_key path)") (auto simp: stored_meta_def deserialize_metadata_def Let_def)
qed (simp add: assms(4))

lemma read_or_default_rule [kv_rules]:
  assumes "holds B E V m m P e" "visible B E V e (build_meta_key path)"
    "\<And>e'. holds B E V m m P e' \<Longrightarrow> Q (Inr (fst (secret_at (stored E m) path))) e'"
    and "\<And>err e'. fails B E e' err \<Longrightarrow> holds B E V m m P e' \<Longrightarrow> Q (Inl err) e'"
  shows "wp (read_or_default E path) Q e"
proof -
  have "wp (read_metadata E path) (\<lambda>r e'. Q (if r = Inl NotFound then Inr default_metadata else r) e') e"
    using assms(3,4) by (auto intro!: read_metadata_rule[OF assms(1,2)] simp: secret_at_def stored_def split: option.splits)
  then show ?thesis by (auto simp: wp_def read_or_default_def)
qed

lemma serialize_ok:
  assumes "env_sound E V"
  shows "custom_metadata meta = Map.empty \<Longrightarrow> \<exists>b. serialize_metadata E meta = Inr b \<and> archived_meta (env_rkyv E) b = meta"
    and "\<exists>b. serialize_payload E payload = Inr b \<and> archived_payload (env_rkyv E) b = payload"
proof -
  have K: "rkyv_ok (env_rkyv E)" using assms by (simp add: env_sound_def)
  show "\<exists>b. serialize_metadata E meta = Inr b \<and> archived_meta (env_rkyv E) b = meta" if "custom_metadata meta = Map.empty"
    using K that by (auto simp: rkyv_ok_def serialize_metadata_def)
  obtain b where "to_bytes_payload (env_rkyv E) payload = Inr b" "archived_payload (env_rkyv E) b = payload"
    using K unfolding rkyv_ok_def by blast
  then show "\<exists>b. serialize_payload E payload = Inr b \<and> archived_payload (env_rkyv E) b = payload"
    by (simp add: serialize_payload_def)
qed

lemma store_metadata_rule [kv_rules]:
  assumes "holds B E V m m P e" "custom_metadata meta = Map.empty"
    "\<And>b e'. holds B E V (m(build_meta_key path \<mapsto> b)) (m(build_meta_key path \<mapsto> b)) P e' \<Longrightarrow>
      deserialize_metadata E b = Inr meta \<Longrightarrow> Q (Inr ()) e'"
    and "\<And>err e'. fails B E e' err \<Longrightarrow> holds B E V m m P e' \<Longrightarrow> Q (Inl err) e'"
  shows "wp (store_metadata E path meta) Q e"
proof -
  obtain b where b: "serialize_metadata E meta = Inr b" "deserialize_metadata E b = Inr meta"
    using serialize_ok(1)[of E V meta] deserialize_serialized[of E _ meta] assms(1,2) by (auto simp: holds_def)
  then show ?thesis
    by (auto simp: store_metadata_def intro!: write_put_rule[OF assms(1)] cache_insert_rule assms(3,4))
qed

text \<open>The payload of a new version and then the metadata that name it.\<close>

lemma stored_add_version:
  assumes "deserialize_metadata E b' = Inr (meta\<lparr>current_version := current_version meta + 1, versions := versions meta @
      [\<lparr>created_time_ms = now, deletion_time_ms = 0, version_id = current_version meta + 1, destroyed = False\<rparr>]\<rparr>)"
    and "archived_payload (env_rkyv E) b = payload"
  shows "stored E (m(build_version_key path (current_version meta + 1) \<mapsto> b, build_meta_key path \<mapsto> b')) = (stored E m)(path \<mapsto>
    add_version now payload (meta, stored_payload E m path |` (version_id ` set (versions meta))))"
proof -
  have "q \<noteq> path \<Longrightarrow> stored E (m(build_version_key path (current_version meta + 1) \<mapsto> b)) q = stored E m q" for q
    by (simp add: stored_other)
  then show ?thesis by (auto simp: stored_put_meta[OF assms(1)] add_version_def assms(2) Let_def fun_eq_iff restrict_map_def)
qed

lemma put_commit_rule:
  assumes h: "holds B E V m m P e" "custom_metadata meta = Map.empty"
    and refused: "\<And>c. cas = Some c \<Longrightarrow> current_version meta \<noteq> c \<Longrightarrow> Q (Inl (CasMismatch c (current_version meta))) e"
    and stores: "\<And>m' e'. cas = None \<or> cas = Some (current_version meta) \<Longrightarrow> holds B E V m' m' (insert path P) e' \<Longrightarrow>
      stored E m' = (stored E m)(path \<mapsto>
        add_version now payload (meta, stored_payload E m path |` (version_id ` set (versions meta)))) \<Longrightarrow> Q (Inr ()) e'"
    and fails: "\<And>m' err e'. fails B E e' err \<Longrightarrow> holds B E V m' m' P e' \<Longrightarrow>
      m' = m \<or> (\<exists>b. archived_payload (env_rkyv E) b = payload \<and> m' = m(build_version_key path (current_version meta + 1) \<mapsto> b)) \<Longrightarrow>
      Q (Inl err) e'"
  shows "wp (put_commit E now path payload cas meta) Q e"
proof (cases "cas = None \<or> cas = Some (current_version meta)")
  case False
  then show ?thesis using refused by (auto simp: put_commit_def)
next
  case True
  define v where "v = current_version meta + 1"
  define meta' where "meta' = meta\<lparr>current_version := v,
    versions := versions meta @ [\<lparr>created_time_ms = now, deletion_time_ms = 0, version_id = v, destroyed = False\<rparr>]\<rparr>"
  obtain b where b: "serialize_payload E payload = Inr b" "archived_payload (env_rkyv E) b = payload"
    using serialize_ok(2)[of E V payload] h(1) by (auto simp: holds_def)
  have "Q (Inr ()) e'" if e': "holds B E V (m(build_version_key path v \<mapsto> b, build_meta_key path \<mapsto> b'))
      (m(build_version_key path v \<mapsto> b, build_meta_key path \<mapsto> b')) (insert path P) e'"
    "deserialize_metadata E b' = Inr meta'" for b' e'
    by (rule stores[OF True e'(1)]) (unfold v_def, rule stored_add_version[OF e'(2)[unfolded meta'_def v_def] b(2)])
  note success = this
  have failure: "Q (Inl err) e'" if "fails B E e' err" "holds B E V m' m' P e'"
      "m' = m \<or> m' = m(build_version_key path v \<mapsto> b)" for m' err e'
    by (rule fails[OF that(1,2)]) (use that(3) b(2) in \<open>unfold v_def, blast\<close>)
  have "wp (andthen (enqueue_or_execute E (Kv_Put (build_version_key path v) b)) (\<lambda>_.
      andthen (cache_insert E (build_version_key path v) b) (\<lambda>_.
      andthen (store_metadata E path meta') (\<lambda>_. index_path path)))) Q e"
    unfolding wp_andthen
  proof (rule write_put_rule[OF h(1)], simp, rule cache_insert_rule, assumption, simp, rule store_metadata_rule, assumption, goal_cases)
    case 1
    show ?case using h(2) by (simp add: meta'_def)
  next
    case (2 e1 e2 b' e3)
    show ?case unfolding sum.case by (rule index_path_rule[OF 2(3)]) (rule success[OF _ 2(4)])
  next
    case (3 e1 e2 msg e3)
    show ?case unfolding sum.case by (rule failure[OF 3(3,4)]) simp
  next
    case (4 msg e1)
    show ?case unfolding sum.case by (rule failure[OF 4]) simp
  qed
  moreover have "\<not> (cas \<noteq> None \<and> current_version meta \<noteq> the cas)" using True by auto
  ultimately show ?thesis
    unfolding put_commit_def Let_def v_def[symmetric] meta'_def[symmetric] b(1)
    by (simp only: if_False wp_andthen[of "lift_result _"] wp_lift sum.case)
qed

text \<open>The writing methods change the store as the contract says.\<close>

lemma stored_put_payload:
  "stored E (m(build_version_key path v \<mapsto> b)) = (case stored E m path of
     Some (meta, pl) \<Rightarrow> if v \<in> version_id ` set (versions meta)
       then (stored E m)(path \<mapsto> (meta, pl(v \<mapsto> archived_payload (env_rkyv E) b))) else stored E m
   | None \<Rightarrow> stored E m)"
proof
  fix q
  show "stored E (m(build_version_key path v \<mapsto> b)) q = (case stored E m path of
     Some (meta, pl) \<Rightarrow> if v \<in> version_id ` set (versions meta)
       then (stored E m)(path \<mapsto> (meta, pl(v \<mapsto> archived_payload (env_rkyv E) b))) else stored E m
   | None \<Rightarrow> stored E m) q"
  proof (cases "q = path")
    case True
    then show ?thesis by (cases "stored_meta E m path") (auto simp: stored_def restrict_map_def fun_eq_iff)
  qed (auto simp: stored_other split: option.splits)
qed

lemma stored_del_payload:
  assumes "stored E m path = Some (meta, pl)"
  shows "stored E (m(build_version_key path v := None)) = (stored E m)(path \<mapsto> (meta, pl(v := None)))"
proof
  fix q
  show "stored E (m(build_version_key path v := None)) q = ((stored E m)(path \<mapsto> (meta, pl(v := None)))) q"
    using assms by (cases "q = path") (auto simp: stored_other stored_def restrict_fun_upd)
qed

lemma put_version_law:
  assumes "agrees B E V e" "visible B E V e (build_meta_key path)"
  shows "wp (put_version E now path payload cas) (\<lambda>r. outcome B E V (spec_put now path payload cas (effective_store B E V e))
    (torn (Put_Version now path payload cas) (effective_store B E V e)) (map_sum id (\<lambda>_. Done) r)) e"
proof -
  define m where "m = effective B V e"
  define st where "st = stored E m"
  have h: "holds B E V m m (dom st) e" and st_e: "effective_store B E V e = st" using assms(1) by (simp_all add: agrees_def effective_store_def m_def st_def)
  define meta where "meta = fst (secret_at st path)"
  have meta: "custom_metadata meta = Map.empty"
    by (auto simp: meta_def secret_at_def st_def stored_def default_metadata_def stored_meta_custom split: option.splits)
  have sec: "(meta, stored_payload E m path |` (version_id ` set (versions meta))) = secret_at st path"
    by (auto simp: meta_def secret_at_def st_def stored_def default_metadata_def split: option.splits)
  let ?res = "spec_put now path payload cas st"
  let ?Q = "\<lambda>r. outcome B E V ?res (torn (Put_Version now path payload cas) st) (map_sum id (\<lambda>_. Done) r)"
  have failed: "?Q (Inl err) e'" if "fails B E e' err" "holds B E V m' m' (dom st) e'"
      "m' = m \<or> (\<exists>b. archived_payload (env_rkyv E) b = payload \<and> m' = m(build_version_key path (current_version meta + 1) \<mapsto> b))" for m' err e'
  proof -
    have dom: "dom st = dom (stored E m')" using that(3) by (auto simp: st_def stored_dom)
    have mem: "stored E m' \<in> torn (Put_Version now path payload cas) st"
      using that(3) by (auto simp: stored_put_payload st_def[symmetric] meta_def secret_at_def Let_def split: option.splits)
    show ?thesis unfolding map_sum.simps id_apply by (rule outcome_intros(2)[OF that(1) has_storeI[OF that(2) refl dom] mem])
  qed
  have "wp (put_version E now path payload cas) ?Q e"
    unfolding put_version_def wp_andthen
  proof (rule read_or_default_rule[OF h assms(2)])
    fix e1 assume e1: "holds B E V m m (dom st) e1"
    show "case Inr (fst (secret_at (stored E m) path)) of Inl err \<Rightarrow> ?Q (Inl err) e1 | Inr x \<Rightarrow> wp (put_commit E now path payload cas x) ?Q e1"
      unfolding sum.case st_def[symmetric] meta_def[symmetric]
    proof (rule put_commit_rule[OF e1 meta], goal_cases)
      case (1 c)
      then have res: "?res = (Inl (CasMismatch c (current_version meta)), st)" by (simp add: spec_put_def Let_def meta_def)
      show ?case unfolding res by (rule outcome_intros(1)) (use has_storeI[OF e1] in \<open>simp_all add: st_def\<close>)
    next
      case (2 m' e')
      have res: "?res = (Inr Done, stored E m')"
        using 2(1,3) by (auto simp: spec_put_def Let_def meta_def[symmetric] sec st_def[symmetric])
      show ?case unfolding res by (rule outcome_intros(1)) (use has_storeI[OF 2(2) refl] 2(3) in \<open>auto simp: st_def\<close>)
    qed (rule failed)
  qed (unfold sum.case, rule failed[OF _ _ disjI1[OF refl]])
  then show ?thesis unfolding st_e .
qed

text \<open>A change of the state of one version, after the removal of its payload or not.\<close>

lemma stored_change:
  assumes "stored E m path = Some (meta, pl)" "update_first v f (versions meta) = Inr vss"
    and "\<And>x y. f x = Inr y \<Longrightarrow> version_id y = version_id x" "deserialize_metadata E b = Inr (meta\<lparr>versions := vss\<rparr>)"
  shows "stored E (m(build_meta_key path \<mapsto> b)) = (stored E m)(path \<mapsto> (meta\<lparr>versions := vss\<rparr>, pl))"
    and "stored E (m(build_version_key path v := None, build_meta_key path \<mapsto> b)) =
      (stored E m)(path \<mapsto> (meta\<lparr>versions := vss\<rparr>, pl(v := None)))"
proof -
  have ids: "version_id ` set vss = version_id ` set (versions meta)"
    using arg_cong[OF update_first_ids[OF assms(2,3)], of set] by simp
  have pl: "pl = stored_payload E m path |` (version_id ` set (versions meta))"
    using assms(1) by (auto simp: stored_def)
  show "stored E (m(build_meta_key path \<mapsto> b)) = (stored E m)(path \<mapsto> (meta\<lparr>versions := vss\<rparr>, pl))"
    using stored_put_meta[OF assms(4)] by (simp add: pl ids)
  have "stored E (m(build_version_key path v := None)) q = stored E m q" if "q \<noteq> path" for q
    using that by (simp add: stored_other)
  then show "stored E (m(build_version_key path v := None, build_meta_key path \<mapsto> b)) =
      (stored E m)(path \<mapsto> (meta\<lparr>versions := vss\<rparr>, pl(v := None)))"
    using stored_put_meta[OF assms(4), of "m(build_version_key path v := None)" path]
    by (auto simp: pl ids fun_eq_iff restrict_map_def)
qed

lemma with_metadata_rule:
  assumes "holds B E V m m P e" "visible B E V e (build_meta_key path)"
    and "\<And>e'. stored_meta E m path = None \<Longrightarrow> holds B E V m m P e' \<Longrightarrow> Q (Inl NotFound) e'"
    and "\<And>meta e'. stored_meta E m path = Some meta \<Longrightarrow> holds B E V m m P e' \<Longrightarrow> wp (h meta) Q e'"
    and "\<And>err e'. fails B E e' err \<Longrightarrow> holds B E V m m P e' \<Longrightarrow> Q (Inl err) e'"
  shows "wp (andthen (read_metadata E path) h) Q e"
  unfolding wp_andthen
  by (rule read_metadata_rule[OF assms(1,2)]) (use assms(3-5) in \<open>cases "stored_meta E m path"; simp\<close>)+

lemma destroy_store_rule:
  assumes "holds B E V m m P e" "custom_metadata meta = Map.empty"
    and "\<And>b e'. holds B E V (m(vk := None, build_meta_key path \<mapsto> b)) (m(vk := None, build_meta_key path \<mapsto> b)) P e' \<Longrightarrow>
      deserialize_metadata E b = Inr meta \<Longrightarrow> Q (Inr ()) e'"
    and "\<And>m' err e'. fails B E e' err \<Longrightarrow> holds B E V m' m' P e' \<Longrightarrow> m' \<in> {m, m(vk := None)} \<Longrightarrow> Q (Inl err) e'"
  shows "wp (andthen (enqueue_or_execute E (Kv_Delete vk)) (\<lambda>_. andthen (cache_remove E vk) (\<lambda>_. store_metadata E path meta))) Q e"
  unfolding wp_andthen
  by (rule write_delete_rule[OF assms(1)], simp, rule cache_remove_rule, assumption, simp, rule store_metadata_rule[OF _ assms(2)])
    (use assms(3,4) in auto)

lemma change_law:
  assumes e: "agrees B E V e" and vis: "visible B E V e (build_meta_key path)"
    and f: "\<And>x y. f x = Inr y \<Longrightarrow> version_id y = version_id x"
    and k: "\<And>m P e meta Q. holds B E V m m P e \<Longrightarrow> custom_metadata meta = Map.empty \<Longrightarrow>
      (\<And>b e'. holds B E V (m'(m, b)) (m'(m, b)) P e' \<Longrightarrow> deserialize_metadata E b = Inr meta \<Longrightarrow> Q (Inr ()) e') \<Longrightarrow>
      (\<And>m'' err e'. fails B E e' err \<Longrightarrow> holds B E V m'' m'' P e' \<Longrightarrow> m'' \<in> F m \<Longrightarrow> Q (Inl err) e') \<Longrightarrow>
      wp (k meta) Q e"
    and st: "\<And>m b meta pl vss. stored E m path = Some (meta, pl) \<Longrightarrow> update_first v f (versions meta) = Inr vss \<Longrightarrow>
      deserialize_metadata E b = Inr (meta\<lparr>versions := vss\<rparr>) \<Longrightarrow>
      stored E (m'(m, b)) = (stored E m)(path \<mapsto> (meta\<lparr>versions := vss\<rparr>, g pl))"
    and T: "\<And>m m'' meta pl. stored E m path = Some (meta, pl) \<Longrightarrow> m'' \<in> F m \<Longrightarrow>
      stored E m'' \<in> torn req (stored E m) \<and> dom (stored E m'') = dom (stored E m)"
  shows "wp (andthen (read_metadata E path) (\<lambda>meta. andthen (lift_result (update_first v f (versions meta))) (\<lambda>vss.
      k (meta\<lparr>versions := vss\<rparr>)))) (\<lambda>r. outcome B E V (spec_change path v f g (effective_store B E V e)) (torn req (effective_store B E V e))
    (map_sum id (\<lambda>_. Done) r)) e"
proof -
  define m where "m = effective B V e"
  define st where "st = stored E m"
  have h: "holds B E V m m (dom st) e" and st_e: "effective_store B E V e = st" using e by (simp_all add: agrees_def effective_store_def m_def st_def)
  let ?res = "spec_change path v f g st"
  let ?Q = "\<lambda>r. outcome B E V ?res (torn req st) (map_sum id (\<lambda>_. Done) r)"
  have same: "has_store B E V st e1" if "holds B E V m m (dom st) e1" for e1
    using has_storeI[OF that] by (simp add: st_def)
  show ?thesis unfolding st_e
  proof (rule with_metadata_rule[OF h vis], goal_cases)
    case (1 e1)
    then have res: "?res = (Inl NotFound, st)" by (simp add: st_def stored_def spec_change_def)
    show ?case unfolding res using same[OF 1(2)] by (simp add: outcome_intros(1))
  next
    case (2 meta e1)
    then obtain pl where pl: "stored E m path = Some (meta, pl)" by (simp add: stored_def)
    show ?case
    proof (cases "update_first v f (versions meta)")
      case (Inl err)
      have res: "?res = (Inl err, st)" using pl Inl by (simp add: spec_change_def st_def)
      show ?thesis unfolding res using same[OF 2(2)] by (simp add: Inl outcome_intros(1))
    next
      case (Inr vss)
      have res: "?res = (Inr Done, st(path \<mapsto> (meta\<lparr>versions := vss\<rparr>, g pl)))"
        using pl Inr by (simp add: spec_change_def st_def)
      have dom: "dom st = dom (snd ?res)" unfolding res using pl by (auto simp: st_def)
      have "wp (k (meta\<lparr>versions := vss\<rparr>)) ?Q e1"
      proof (rule k[OF 2(2)], goal_cases)
        case (2 b e')
        have "stored E (m'(m, b)) = snd ?res" unfolding res snd_conv using st[OF pl Inr 2(2)] by (simp add: st_def)
        then show ?case using has_storeI[OF 2(1) _ dom] by (intro outcome_intros(1)) (simp_all add: res)
      next
        case (3 m'' msg e')
        note t = T[OF pl 3(3), folded st_def]
        show ?case unfolding map_sum.simps id_apply
          by (rule outcome_intros(2)[OF 3(1) has_storeI[OF 3(2) refl conjunct2[OF t, symmetric]] conjunct1[OF t]])
      qed (simp add: stored_meta_custom[OF 2(1)])
      then show ?thesis by (simp add: Inr)
    qed
  next
    case (3 msg e1)
    then show ?case using same[OF 3(2)] by (simp add: outcome_intros(2)[OF 3(1) _ torn_same])
  qed
qed

lemma soft_delete_law:
  "agrees B E V e \<Longrightarrow> visible B E V e (build_meta_key path) \<Longrightarrow> wp (soft_delete E now path v) (\<lambda>r. outcome B E V (spec_step (Soft_Delete now path v) (effective_store B E V e))
    (torn (Soft_Delete now path v) (effective_store B E V e)) (map_sum id (\<lambda>_. Done) r)) e"
  unfolding soft_delete_def spec_step.simps
  by (rule change_law[where m' = "\<lambda>(m, b). m(build_meta_key path \<mapsto> b)" and F = "\<lambda>m. {m}"])
    (auto intro!: store_metadata_rule stored_change(1))

lemma undelete_law:
  "agrees B E V e \<Longrightarrow> visible B E V e (build_meta_key path) \<Longrightarrow> wp (undelete E path v) (\<lambda>r. outcome B E V (spec_step (Undelete path v) (effective_store B E V e))
    (torn (Undelete path v) (effective_store B E V e)) (map_sum id (\<lambda>_. Done) r)) e"
  unfolding undelete_def spec_step.simps
  by (rule change_law[where m' = "\<lambda>(m, b). m(build_meta_key path \<mapsto> b)" and F = "\<lambda>m. {m}"])
    (auto intro!: store_metadata_rule stored_change(1) split: if_splits)

lemma destroy_version_law:
  assumes "agrees B E V e" "visible B E V e (build_meta_key path)"
  shows "wp (destroy_version E path v) (\<lambda>r. outcome B E V (spec_step (Destroy_Version path v) (effective_store B E V e))
    (torn (Destroy_Version path v) (effective_store B E V e)) (map_sum id (\<lambda>_. Done) r)) e"
  unfolding destroy_version_def spec_step.simps
proof (rule change_law[where m' = "\<lambda>(m, b). m(build_version_key path v := None, build_meta_key path \<mapsto> b)"
      and F = "\<lambda>m. {m, m(build_version_key path v := None)}", OF assms], goal_cases)
  case (2 m P e meta Q)
  then show ?case unfolding prod.case by (rule destroy_store_rule)
next
  case (3 m b meta pl vss)
  show ?case unfolding prod.case by (rule stored_change(2)[OF 3(1,2) _ 3(3)]) auto
next
  case (4 m m'' meta pl)
  then show ?case by (auto simp: stored_del_payload split: if_splits)
qed auto

text \<open>The reading methods return what the contract says and leave the store as it is.\<close>

text \<open>A read leaves the disk and the queue as they are, and the entries of the cache too if it finds its key there.\<close>

definition read_leaves :: "('db, 'wb, 'it) env \<Rightarrow> bytes \<Rightarrow> 'db kv_engine \<Rightarrow> 'db kv_engine \<Rightarrow> bool" where
  "read_leaves E k e e' \<longleftrightarrow> rocksdb e' = rocksdb e \<and> async_queue e' = async_queue e
     \<and> (sharded_view (env_sip E) (kv_cache e) k \<noteq> None \<longrightarrow> sharded_view (env_sip E) (kv_cache e') = sharded_view (env_sip E) (kv_cache e))"

lemma read_raw_leaves:
  assumes "sharded_inv (env_sip E) (kv_cache e)" "read_raw_optimistic E k f e = Some (r, e')"
  shows "read_leaves E k e e'"
proof -
  obtain t where t: "sharded_lookup_map (env_sip E) (kv_cache e) k (\<lambda>entry. f (entry_payload entry)) =
      Some (map_option f (sharded_view (env_sip E) (kv_cache e) k), t)"
    "sharded_view (env_sip E) t = sharded_view (env_sip E) (kv_cache e)"
    using sharded_lookup_map_spec[OF assms(1), of k "\<lambda>entry. f (entry_payload entry)"]
    by (auto simp: fresh_entry_def comp_def)
  then show ?thesis using assms(2)
    by (auto simp: read_raw_optimistic_def Let_def read_leaves_def cache_insert_def andthen_def bind_eq_Some_conv
        split: option.splits sum.splits prod.splits)
qed

text \<open>The key of a second read that follows a read of \<open>k\<close> is visible.\<close>

definition visible_after :: "situation \<Rightarrow> ('db, 'wb, 'it) env \<Rightarrow> ('db, 'wb, 'it) rocks_view \<Rightarrow> 'db kv_engine \<Rightarrow> bytes \<Rightarrow> bytes \<Rightarrow> bool" where
  "visible_after B E V e k k' \<longleftrightarrow> disk V (rocksdb e) k' = effective B V e k'
     \<or> sharded_view (env_sip E) (kv_cache e) k \<noteq> None \<and> sharded_view (env_sip E) (kv_cache e) k' \<noteq> None"

lemma visible_after_read: "read_leaves E k e e' \<Longrightarrow> visible_after B E V e k k' \<Longrightarrow> visible B E V e' k'"
  by (auto simp: read_leaves_def visible_after_def visible_def effective_def)

lemma with_raw_rule:
  assumes "holds B E V m m P e" "visible B E V e k"
    and "\<And>e'. holds B E V m m P e' \<Longrightarrow> read_leaves E k e e' \<Longrightarrow> wp (h (map_option f (m k))) Q e'"
    and "\<And>err e'. fails B E e' err \<Longrightarrow> holds B E V m m P e' \<Longrightarrow> Q (Inl err) e'"
  shows "wp (andthen (read_raw_optimistic E k f) h) Q e"
proof -
  have "wp (read_raw_optimistic E k f) (\<lambda>r e'. holds B E V m m P e' \<and> (r = Inr (map_option f (m k)) \<or> (\<exists>err. fails B E e' err \<and> r = Inl err))) e"
    by (rule read_raw_rule[OF assms(1,2)]) auto
  then obtain r e' where r: "read_raw_optimistic E k f e = Some (r, e')" "holds B E V m m P e'"
    "r = Inr (map_option f (m k)) \<or> (\<exists>err. fails B E e' err \<and> r = Inl err)" by (auto simp: wp_def)
  have "read_leaves E k e e'" by (rule read_raw_leaves[OF _ r(1)]) (use assms(1) in \<open>simp add: holds_def\<close>)
  with r(2,3) have "case r of Inl err \<Rightarrow> Q (Inl err) e' | Inr x \<Rightarrow> wp (h x) Q e'" by (auto intro: assms(3,4))
  then show ?thesis unfolding wp_andthen by (auto simp: wp_def[of "read_raw_optimistic E k f"] r(1))
qed

lemma find_version_id: "find (\<lambda>vs. version_id vs = v) vss = Some vs \<Longrightarrow> version_id vs = v \<and> v \<in> version_id ` set vss"
  by (auto simp: find_Some_iff)

lemma rebuilt_state:
  "version_id vs = v \<Longrightarrow> destroyed vs = d \<Longrightarrow>
    \<lparr>created_time_ms = created_time_ms vs, deletion_time_ms = deletion_time_ms vs, version_id = v, destroyed = d\<rparr> = vs"
  by (cases vs) simp

lemma rebuilt_payload: "\<lparr>payload_value = payload_value p, payload_ttl = payload_ttl p\<rparr> = p"
  by (cases p) simp

lemma read_payload_rule:
  assumes "holds B E V m m P e" "visible B E V e (build_version_key path v)" "version_id vs = v" "\<not> destroyed vs"
    and Q: "\<And>e'. holds B E V m m P e' \<Longrightarrow> Q (case stored_payload E m path v of
        None \<Rightarrow> Inl (StorageError ''Missing version payload'') | Some pl \<Rightarrow> Inr (Secret pl vs)) e'"
    and fails: "\<And>err e'. fails B E e' err \<Longrightarrow> holds B E V m m P e' \<Longrightarrow> Q (Inl err) e'"
  shows "wp (andthen (read_raw_optimistic E (build_version_key path v) (\<lambda>bytes.
            let archived = archived_payload (env_rkyv E) bytes
            in \<lparr>payload_value = payload_value archived, payload_ttl = payload_ttl archived\<rparr>)) (\<lambda>payload.
          (case payload of None \<Rightarrow> fail (StorageError ''Missing version payload'')
           | Some res \<Rightarrow> ok (res, \<lparr>created_time_ms = created_time_ms vs, deletion_time_ms = deletion_time_ms vs,
               version_id = v, destroyed = False\<rparr>))))
        (\<lambda>r s'. case r of Inl e \<Rightarrow> Q (Inl e) s' | Inr x \<Rightarrow> wp (case x of (pl, vs) \<Rightarrow> ok (Secret pl vs)) Q s') e"
proof -
  have rb: "\<lparr>created_time_ms = created_time_ms vs, deletion_time_ms = deletion_time_ms vs, version_id = v, destroyed = False\<rparr> = vs"
    using assms(3,4) by (intro rebuilt_state) auto
  show ?thesis using assms(3,4) Q fails
    by (intro with_raw_rule[OF assms(1,2)])
      (cases "m (build_version_key path v)"; simp add: stored_payload_def rb rebuilt_payload Let_def)+
qed

lemma spec_read_stored:
  assumes "stored_meta E m path = Some meta" "v = (if version = 0 then current_version meta else version)"
  shows "spec_read path version (stored E m) = (case find (\<lambda>vs. version_id vs = v) (versions meta) of
      None \<Rightarrow> Inl (InvalidVersion version)
    | Some vs \<Rightarrow> if v = 0 then Inl (InvalidVersion version) else if destroyed vs then Inl Destroyed
        else if deletion_time_ms vs > 0 then Inl SoftDeleted
        else (case stored_payload E m path v of
            None \<Rightarrow> Inl (StorageError ''Missing version payload'') | Some payload \<Rightarrow> Inr (Secret payload vs)))"
proof -
  have st: "stored E m path = Some (meta, stored_payload E m path |` (version_id ` set (versions meta)))"
    using assms(1) by (simp add: stored_def)
  show ?thesis unfolding spec_read_def Let_def st option.case prod.case assms(2)[symmetric]
  proof (cases "find (\<lambda>vs. version_id vs = v) (versions meta)", goal_cases)
    case (2 vs)
    then show ?case using find_version_id[OF 2] by simp
  qed simp
qed

lemma read_version_rule:
  assumes h: "holds B E V m m P e"
    and vis: "visible B E V e (build_meta_key path)"
      "\<And>meta pl vs. stored E m path = Some (meta, pl) \<Longrightarrow>
        find (\<lambda>vs. version_id vs = (if version = 0 then current_version meta else version)) (versions meta) = Some vs \<Longrightarrow>
        \<not> destroyed vs \<Longrightarrow> visible_after B E V e (build_meta_key path) (build_version_key path (version_id vs))"
    and Q: "\<And>e'. holds B E V m m P e' \<Longrightarrow> Q (spec_read path version (stored E m)) e'"
    and fails: "\<And>err e'. fails B E e' err \<Longrightarrow> holds B E V m m P e' \<Longrightarrow> Q (Inl err) e'"
  shows "wp (andthen (read_version E path version) (\<lambda>(pl, vs). ok (Secret pl vs))) Q e"
proof (cases "m (build_meta_key path)")
  case None
  then have "spec_read path version (stored E m) = Inl NotFound"
    by (simp add: spec_read_def stored_def stored_meta_def)
  with None Q fails show ?thesis unfolding read_version_def wp_andthen
    by (intro read_raw_rule[OF h vis(1)]) simp_all
next
  case (Some b)
  obtain meta where meta: "deserialize_metadata E b = Inr meta" "current_version (archived_meta (env_rkyv E) b) = current_version meta"
    "versions (archived_meta (env_rkyv E) b) = versions meta" using deserialize_fields[of E b] by auto
  define v where "v = (if version = 0 then current_version meta else version)"
  have sm: "stored_meta E m path = Some meta" using Some meta(1) by (simp add: stored_meta_def)
  note spec = spec_read_stored[OF sm v_def]
  have scan: "scan_version (archived_meta (env_rkyv E) b) version = (case find (\<lambda>vs. version_id vs = v) (versions meta) of
      None \<Rightarrow> (v, False, False, 0, 0, False)
    | Some vs \<Rightarrow> (v, destroyed vs, deletion_time_ms vs > 0, created_time_ms vs, deletion_time_ms vs, True))"
    unfolding scan_version_def v_def meta(2,3) Let_def ..
  show ?thesis
  proof (cases "find (\<lambda>vs. version_id vs = v) (versions meta)")
    case None
    then show ?thesis using Q fails Some unfolding read_version_def wp_andthen
      by (intro read_raw_rule[OF h vis(1)]) (simp_all add: scan spec)
  next
    case (Some vs)
    have "visible B E V e' (build_version_key path v)" if "read_leaves E (build_meta_key path) e e'" "\<not> destroyed vs" for e'
      using visible_after_read[OF that(1) vis(2)[OF _ Some[unfolded v_def] that(2)]] sm find_version_id[OF Some] by (simp add: stored_def)
    then show ?thesis using Some Q fails \<open>m (build_meta_key path) = Some b\<close> find_version_id[OF Some]
      unfolding read_version_def wp_andthen[of "andthen _ _"]
      by (intro with_raw_rule[OF h vis(1)]) (auto simp: scan spec intro!: read_payload_rule simp del: wp_andthen)
  qed
qed

lemma list_keys_rule [kv_rules]:
  assumes "holds B E V m m P e"
    and "\<And>e'. holds B E V m m P e' \<Longrightarrow> Q (Inr (sorted_list_of_set {name. \<exists>path \<in> P. list_entry prefix path = Some name})) e'"
  shows "wp (list_keys prefix) Q e"
proof -
  have i: "tls_inv (path_index e)" "tls_paths (path_index e) = P" using assms(1) by (simp_all add: holds_def)
  have ps: "tls_get_all_paths (path_index e) = Some (sorted_list_of_set P)" "finite P"
    using tls.enum_sorted[OF i(1)] i(2) by simp_all
  have "set (List.map_filter (list_entry prefix) (sorted_list_of_set P)) = {name. \<exists>path \<in> P. list_entry prefix path = Some name}"
    using ps(2) by (force simp: map_filter_def image_iff)
  then show ?thesis using assms ps(1) by (simp add: wp_def list_keys_def)
qed

section \<open>The engine implements the contract\<close>

fun kv_step :: "('db, 'wb, 'it) env \<Rightarrow> request \<Rightarrow> ('db, answer) kv_call" where
  "kv_step E (Read_Version path version) = andthen (read_version E path version) (\<lambda>(pl, vs). ok (Secret pl vs))"
| "kv_step E (Read_Metadata path) = andthen (read_metadata E path) (\<lambda>meta. ok (Metadata meta))"
| "kv_step E (Put_Version now path payload cas) = andthen (put_version E now path payload cas) (\<lambda>_. ok Done)"
| "kv_step E (Soft_Delete now path version) = andthen (soft_delete E now path version) (\<lambda>_. ok Done)"
| "kv_step E (Undelete path version) = andthen (undelete E path version) (\<lambda>_. ok Done)"
| "kv_step E (Destroy_Version path version) = andthen (destroy_version E path version) (\<lambda>_. ok Done)"
| "kv_step E (List_Keys prefix) = andthen (list_keys prefix) (\<lambda>keys. ok (Keys keys))"

lemma wp_done:
  "wp m (\<lambda>r. Q (map_sum id (\<lambda>_. Done) r)) e \<Longrightarrow> wp (andthen m (\<lambda>_. ok Done)) Q e"
  unfolding wp_andthen by (erule wp_mono) (auto split: sum.splits)

text \<open>The keys that a request reads are visible.\<close>

fun readable :: "situation \<Rightarrow> ('db, 'wb, 'it) env \<Rightarrow> ('db, 'wb, 'it) rocks_view \<Rightarrow> 'db kv_engine \<Rightarrow> request \<Rightarrow> bool" where
  "readable B E V e (Read_Version path version) \<longleftrightarrow> visible B E V e (build_meta_key path)
     \<and> (\<forall>meta pl vs. effective_store B E V e path = Some (meta, pl) \<longrightarrow>
          find (\<lambda>vs. version_id vs = (if version = 0 then current_version meta else version)) (versions meta) = Some vs \<longrightarrow>
          \<not> destroyed vs \<longrightarrow> visible_after B E V e (build_meta_key path) (build_version_key path (version_id vs)))"
| "readable B E V e (Read_Metadata path) \<longleftrightarrow> visible B E V e (build_meta_key path)"
| "readable B E V e (Put_Version now path payload cas) \<longleftrightarrow> visible B E V e (build_meta_key path)"
| "readable B E V e (Soft_Delete now path version) \<longleftrightarrow> visible B E V e (build_meta_key path)"
| "readable B E V e (Undelete path version) \<longleftrightarrow> visible B E V e (build_meta_key path)"
| "readable B E V e (Destroy_Version path version) \<longleftrightarrow> visible B E V e (build_meta_key path)"
| "readable B E V e (List_Keys prefix) \<longleftrightarrow> True"

lemma settled_readable: "disk V (rocksdb e) = effective B V e \<Longrightarrow> readable B E V e req"
  by (cases req) (simp_all add: visible_def visible_after_def)

text \<open>A request whose keys are visible answers as the contract says, or reports an error of the storage.\<close>

lemma step_outcome:
  assumes "agrees B E V e" "readable B E V e req"
  shows "wp (kv_step E req) (outcome B E V (spec_step req (effective_store B E V e)) (torn req (effective_store B E V e))) e"
proof -
  define m where "m = effective B V e"
  have h: "holds B E V m m (dom (stored E m)) e" and st: "effective_store B E V e = stored E m"
    using assms(1) by (simp_all add: agrees_def effective_store_def m_def)
  have same: "outcome B E V (r, stored E m) T r e'" if "holds B E V m m (dom (stored E m)) e'" for r T and e'
    using has_storeI[OF that refl refl] by (simp add: outcome_intros(1))
  have failed: "outcome B E V res (torn req (stored E m)) (Inl err) e'"
    if "fails B E e' err" "holds B E V m m (dom (stored E m)) e'" for res err and e'
    by (rule outcome_intros(2)[OF that(1) has_storeI[OF that(2) refl refl] torn_same])
  show ?thesis
  proof (cases req)
    case (Read_Version path version)
    then show ?thesis using same failed assms(2) by (auto simp: st intro!: read_version_rule[OF h] simp del: wp_andthen torn.simps)
  next
    case (Read_Metadata path)
    have "stored_meta E m path = map_option fst (stored E m path)"
      by (simp add: stored_def option.map_comp comp_def option.map_ident)
    then show ?thesis using same failed Read_Metadata assms(2)
      by (auto simp: st intro!: read_metadata_rule[OF h] split: option.splits simp del: torn.simps)
  next
    case (Put_Version now path payload cas)
    then show ?thesis using wp_done[OF put_version_law[OF assms(1)]] assms(2) by (simp del: torn.simps wp_andthen)
  next
    case (Soft_Delete now path version)
    then show ?thesis using wp_done[OF soft_delete_law[OF assms(1)]] assms(2) by (simp del: torn.simps wp_andthen)
  next
    case (Undelete path version)
    then show ?thesis using wp_done[OF undelete_law[OF assms(1)]] assms(2) by (simp del: torn.simps wp_andthen)
  next
    case (Destroy_Version path version)
    then show ?thesis using wp_done[OF destroy_version_law[OF assms(1)]] assms(2) by (simp del: torn.simps wp_andthen)
  next
    case (List_Keys prefix)
    then show ?thesis using same by (auto simp: st intro!: list_keys_rule[OF h] simp del: torn.simps)
  qed
qed

subsection \<open>The immediate mode\<close>

text \<open>In the immediate mode the engine holds what is on the disk, and everything is visible.\<close>

definition kv_agrees :: "('db, 'wb, 'it) env \<Rightarrow> ('db, 'wb, 'it) rocks_view \<Rightarrow> 'db kv_engine \<Rightarrow> bool" where
  "kv_agrees E V e \<longleftrightarrow> agrees (Immediate, []) E V e"

definition kv_inv :: "('db, 'wb, 'it) env \<Rightarrow> ('db, 'wb, 'it) rocks_view \<Rightarrow> 'db kv_engine \<Rightarrow> bool" where
  "kv_inv E V e \<longleftrightarrow> rocks_reliable (env_rocks E) \<and> kv_agrees E V e"

definition kv_store :: "('db, 'wb, 'it) env \<Rightarrow> ('db, 'wb, 'it) rocks_view \<Rightarrow> 'db kv_engine \<Rightarrow> vstore" where
  "kv_store E V e = stored E (disk V (rocksdb e))"

lemma immediate_effective: "holds (Immediate, []) E V m c P e \<Longrightarrow> effective (Immediate, []) V e = disk V (rocksdb e)"
  by (simp add: holds_def effective_def)

lemma kv_agrees_iff:
  "kv_agrees E V e \<longleftrightarrow> holds (Immediate, []) E V (disk V (rocksdb e)) (disk V (rocksdb e)) (dom (kv_store E V e)) e"
proof
  assume "kv_agrees E V e"
  then have h: "holds (Immediate, []) E V (effective (Immediate, []) V e) (effective (Immediate, []) V e)
      (dom (stored E (effective (Immediate, []) V e))) e" by (simp add: kv_agrees_def agrees_def)
  show "holds (Immediate, []) E V (disk V (rocksdb e)) (disk V (rocksdb e)) (dom (kv_store E V e)) e"
    using h unfolding immediate_effective[OF h] kv_store_def .
next
  assume h: "holds (Immediate, []) E V (disk V (rocksdb e)) (disk V (rocksdb e)) (dom (kv_store E V e)) e"
  then show "kv_agrees E V e" by (simp add: kv_agrees_def agrees_def immediate_effective[OF h] kv_store_def)
qed

lemma has_store_immediate: "has_store (Immediate, []) E V st e \<longleftrightarrow> kv_agrees E V e \<and> kv_store E V e = st"
proof -
  have "effective_store (Immediate, []) E V e = kv_store E V e" if "agrees (Immediate, []) E V e"
    using immediate_effective[OF that[unfolded agrees_def]] by (simp add: effective_store_def kv_store_def)
  then show ?thesis by (auto simp: has_store_def kv_agrees_def)
qed

text \<open>Whether the calls of RocksDB succeed or not, a request answers as the contract says or reports the failed call.\<close>

lemma kv_step_outcome:
  assumes "kv_agrees E V e"
  shows "wp (kv_step E req) (\<lambda>r e'. kv_agrees E V e' \<and> ((r, kv_store E V e') = spec_step req (kv_store E V e)
    \<or> \<not> rocks_reliable (env_rocks E) \<and> (\<exists>msg. r = Inl (StorageError msg)) \<and> kv_store E V e' \<in> torn req (kv_store E V e))) e"
proof -
  have "has_store (Immediate, []) E V (kv_store E V e) e" using assms by (simp add: has_store_immediate)
  then have s: "agrees (Immediate, []) E V e" "effective_store (Immediate, []) E V e = kv_store E V e" by (simp_all add: has_store_def)
  have "readable (Immediate, []) E V e req"
    by (rule settled_readable) (use immediate_effective[OF s(1)[unfolded agrees_def]] in simp)
  from step_outcome[OF s(1) this] show ?thesis unfolding s(2)
    by (rule wp_mono) (auto simp: outcome_def has_store_immediate fails_def prod_eq_iff)
qed

text \<open>When they succeed, as the contract says.\<close>

lemma kv_step_law:
  assumes "kv_inv E V e"
  shows "wp (kv_step E req) (\<lambda>r e'. kv_inv E V e' \<and> (r, kv_store E V e') = spec_step req (kv_store E V e)) e"
  by (rule wp_mono[OF kv_step_outcome]) (use assms in \<open>auto simp: kv_inv_def\<close>)

interpretation kv: secret_engine "kv_inv E V" "kv_store E V" "kv_step E" for E :: "('db, 'wb, 'it) env" and V
  by unfold_locales (rule kv_step_law)

end
