(* ===== verification/Kv_Open.thy ===== *)
theory Kv_Open
  imports Kv_Refinement
begin

text \<open>
  Opening a key-value engine: the index is rebuilt from the keys on disk, and after the switch to the immediate mode
  the engine satisfies the invariant and holds the store that is on the disk.  A concrete environment shows that the
  hypotheses of the engine's theorems can be met.
\<close>

lemma index_key_foldm:
  assumes "tls_inv i"
  shows "\<exists>i'. foldm index_key ks i = Some i' \<and> tls_inv i'
    \<and> tls_paths i' = tls_paths i \<union> {path. build_meta_key path \<in> set ks \<and> utf8_valid path}"
  using assms
proof (induction ks arbitrary: i)
  case (Cons k ks)
  obtain i1 where i1: "index_key k i = Some i1" "tls_inv i1"
    "tls_paths i1 = tls_paths i \<union> {path. build_meta_key path = k \<and> utf8_valid path}"
  proof (cases "take 2 k = ''m:'' \<and> utf8_valid (drop 2 k)")
    case True
    then have k: "build_meta_key path = k \<longleftrightarrow> path = drop 2 k" for path
      using append_take_drop_id[of 2 k] by (auto simp: build_meta_key_def)
    obtain r i1 where "insert_path_if_absent i (drop 2 k) = Some (r, i1)" "tls_inv i1" "tls_paths i1 = insert (drop 2 k) (tls_paths i)"
      using tls.add_law[OF Cons.prems, of "drop 2 k"] by blast
    then show ?thesis using that[of i1] True by (auto simp: index_key_def k)
  next
    case False
    then have "{path. build_meta_key path = k \<and> utf8_valid path} = {}" by (auto simp: build_meta_key_def)
    then have "tls_paths i = tls_paths i \<union> {path. build_meta_key path = k \<and> utf8_valid path}" by blast
    then show ?thesis using that[of i] False Cons.prems by (simp add: index_key_def)
  qed
  then show ?case using Cons.IH[OF i1(2)] by auto
qed simp

lemma queue_new_ok:
  assumes "64 \<le> n" "n \<le> 2 ^ 40"
  shows "\<exists>q :: 'a lfq. lfq_new n 262144 = Some q \<and> lfq_inv q \<and> lfq_items q = []"
proof -
  have "262144 * n \<le> 2 ^ 63 - 1" using assms(2) by simp
  moreover have "is_power_of_two 262144" by (simp add: is_power_of_two.simps)
  ultimately obtain q :: "'a lfq" where q: "lfq_new n 262144 = Some q" by (simp add: lfq_new_def)
  then show ?thesis using lfq_new_spec[OF q assms(1)] queue_ok_inv[of q "[]"] by simp
qed

text \<open>What the engine relies on when it opens a database: the paths on disk are strings.\<close>

definition utf8_paths :: "contents \<Rightarrow> bool" where
  "utf8_paths m \<longleftrightarrow> (\<forall>path. m (build_meta_key path) \<noteq> None \<longrightarrow> utf8_valid path)"

lemma kv_open_agrees:
  assumes "env_sound E V" "db_open (env_rocks E) db_path = Inr d" "utf8_paths (db_contents V d)" "64 \<le> env_node_size E" "env_node_size E \<le> 2 ^ 40"
  shows "\<exists>e. kv_open E db_path = Some (Inr e) \<and> get_sync_mode e = Batch \<and> lfq_inv (async_queue e) \<and> lfq_items (async_queue e) = []
    \<and> disk V (rocksdb e) = db_contents V d \<and> kv_agrees E V (change_sync_mode Immediate e)
    \<and> kv_store E V (change_sync_mode Immediate e) = stored E (db_contents V d)"
proof -
  let ?b = "\<lparr>db_handle = d, sync_flag = False\<rparr>"
  have R: "rocks_ok (env_rocks E) V" using assms(1) by (simp add: env_sound_def)
  obtain c where c: "sharded_new (256 * 1024) = Some c" "sharded_inv (env_sip E) c" "sharded_view (env_sip E) c = Map.empty"
    using sharded_new_spec[of "256 * 1024" "env_sip E"] by auto
  have t: "tls_inv (tls_btree_new 3)" "tls_paths (tls_btree_new 3) = {}"
    using btree_new_spec[of 3] by (simp_all add: tls_inv_def tls_paths_def tls_btree_new_def degree_ok_def)
  have fin: "finite (dom (disk V ?b))" using first_position(4)[of "env_rocks E" V ?b] R by (simp add: rocks_ok_def)
  obtain i where i: "iterate_keys (env_rocks E) ?b index_key (tls_btree_new 3) = Some i" "tls_inv i"
    "tls_paths i = {path. build_meta_key path \<in> dom (disk V ?b) \<and> utf8_valid path}"
    using index_key_foldm[OF t(1), of "sorted_list_of_set (dom (disk V ?b))"] t(2) fin
    unfolding iterate_keys_foldm[OF R] by auto
  obtain q :: "kv_op lfq" where q: "lfq_new (env_node_size E) 262144 = Some q" "lfq_inv q" "lfq_items q = []"
    using queue_new_ok[OF assms(4,5)] by blast
  let ?e = "\<lparr>kv_cache = c, path_index = i, rocksdb = ?b, sync_mode = sync_mode_u8 Batch, async_queue = q, async_running = True\<rparr>"
  have "kv_open E db_path = Some (Inr ?e)"
    using assms(2) c(1) i(1) q(1) by (simp add: kv_open_def backend_open_def)
  moreover have "tls_paths i = dom (stored E (disk V ?b))"
    using assms(3) i(3) by (auto simp: stored_dom utf8_paths_def disk_def)
  then have "holds (Immediate, []) E V (disk V ?b) (disk V ?b) (dom (stored E (disk V ?b))) (change_sync_mode Immediate ?e)"
    using assms(1) c i(2) q by (simp add: holds_def effective_def) (simp add: change_sync_mode_def)
  ultimately show ?thesis using q(2,3)
    by (intro exI[of _ ?e]) (simp add: kv_agrees_iff kv_store_def get_sync_mode_def, simp add: change_sync_mode_def disk_def)
qed

lemma kv_open_spec:
  assumes "env_ok E V" "db_open (env_rocks E) db_path = Inr d" "utf8_paths (db_contents V d)" "64 \<le> env_node_size E" "env_node_size E \<le> 2 ^ 40"
  shows "\<exists>e. kv_open E db_path = Some (Inr e) \<and> get_sync_mode e = Batch \<and> lfq_inv (async_queue e) \<and> lfq_items (async_queue e) = []
    \<and> disk V (rocksdb e) = db_contents V d \<and> kv_inv E V (change_sync_mode Immediate e)
    \<and> kv_store E V (change_sync_mode Immediate e) = stored E (db_contents V d)"
  using kv_open_agrees[OF _ assms(2-)] assms(1) by (auto simp: kv_inv_def env_ok_def env_sound_def)

section \<open>A concrete environment\<close>

fun read_nats :: "string \<Rightarrow> string \<Rightarrow> nat list" where
  "read_nats acc [] = []"
| "read_nats acc (c # cs) = (if c = CHR '';'' then read_digits acc # read_nats [] cs else read_nats (acc @ [c]) cs)"

definition show_nats :: "nat list \<Rightarrow> string" where
  "show_nats ns = concat (map (\<lambda>n. show_nat n @ '';'') ns)"

lemma read_nats_until: "CHR '';'' \<notin> set xs \<Longrightarrow> read_nats acc (xs @ '';'' @ ys) = read_digits (acc @ xs) # read_nats [] ys"
  by (induction xs arbitrary: acc) auto

lemma read_show_nats: "read_nats [] (show_nats ns) = ns"
proof (induction ns)
  case (Cons n ns)
  have "show_nats (n # ns) = show_nat n @ '';'' @ show_nats ns" by (simp add: show_nats_def)
  then show ?case using Cons read_nats_until[of "show_nat n" "[]"] show_nat_no_char[of "CHR '';''" n] by (simp add: read_show_nat)
qed (simp add: show_nats_def)

definition version_nats :: "version_state \<Rightarrow> nat list" where
  "version_nats vs = [unat (created_time_ms vs), unat (deletion_time_ms vs), unat (version_id vs), if destroyed vs then 1 else 0]"

fun nats_versions :: "nat list \<Rightarrow> version_state list" where
  "nats_versions (a # b # c # d # ns) =
     \<lparr>created_time_ms = of_nat a, deletion_time_ms = of_nat b, version_id = of_nat c, destroyed = (d = 1)\<rparr> # nats_versions ns"
| "nats_versions _ = []"

definition meta_nats :: "key_metadata \<Rightarrow> nat list" where
  "meta_nats m = [unat (current_version m), unat (max_versions m), if cas_required m then 1 else 0, unat (delete_version_after_ms m)]
     @ concat (map version_nats (versions m))"

fun nats_meta :: "nat list \<Rightarrow> key_metadata" where
  "nats_meta (a # b # c # d # ns) = \<lparr>current_version = of_nat a, max_versions = of_nat b, cas_required = (c = 1),
     delete_version_after_ms = of_nat d, custom_metadata = Map.empty, versions = nats_versions ns\<rparr>"
| "nats_meta _ = default_metadata"

lemma nats_versions_inverse: "nats_versions (concat (map version_nats vss)) = vss"
  by (induction vss) (simp_all add: version_nats_def)

lemma nats_meta_inverse: "custom_metadata m = Map.empty \<Longrightarrow> nats_meta (meta_nats m) = m"
  by (cases m) (simp add: meta_nats_def nats_versions_inverse)

definition text_rkyv :: rkyv where
  "text_rkyv = \<lparr>to_bytes_payload = (\<lambda>p. Inr (show_nat (unat (payload_ttl p)) @ '':'' @ payload_value p)),
     to_bytes_meta = (\<lambda>m. Inr (show_nats (meta_nats m))),
     archived_payload = (\<lambda>b. \<lparr>payload_value = tl (dropWhile (\<lambda>c. c \<noteq> CHR '':'') b),
        payload_ttl = of_nat (read_digits (takeWhile (\<lambda>c. c \<noteq> CHR '':'') b))\<rparr>),
     archived_meta = (\<lambda>b. nats_meta (read_nats [] b))\<rparr>"

lemma text_rkyv_ok: "rkyv_ok text_rkyv"
proof -
  have tw: "takeWhile (\<lambda>c. c \<noteq> CHR '':'') (show_nat n @ CHR '':'' # xs) = show_nat n" for n xs
    using show_nat_no_char[of "CHR '':''" n] by (subst takeWhile_append2) auto
  have dw: "dropWhile (\<lambda>c. c \<noteq> CHR '':'') (show_nat n @ CHR '':'' # xs) = CHR '':'' # xs" for n xs
    using show_nat_no_char[of "CHR '':''" n] by (subst dropWhile_append2) auto
  show ?thesis unfolding rkyv_ok_def text_rkyv_def
    by (auto simp: read_show_nats nats_meta_inverse tw dw read_show_nat)
qed

definition mem_env :: "((bytes \<times> bytes) list, batch_op list, (bytes \<times> bytes) list) env" where
  "mem_env = \<lparr>env_sip = (\<lambda>k0 k1 s. of_nat (length s)), env_rocks = mem_rocks, env_rkyv = text_rkyv, env_node_size = 64\<rparr>"

lemma mem_env_ok: "env_ok mem_env mem_view"
  by (simp add: env_ok_def mem_env_def mem_rocks_ok text_rkyv_ok)

lemma mem_open:
  obtains e where "kv_open mem_env db_path = Some (Inr e)" "get_sync_mode e = Batch"
    "lfq_inv (async_queue e)" "lfq_items (async_queue e) = []" "disk mem_view (rocksdb e) = Map.empty"
    "kv_inv mem_env mem_view (change_sync_mode Immediate e)"
    "kv_store mem_env mem_view (change_sync_mode Immediate e) = Map.empty"
proof -
  have "db_open (env_rocks mem_env) db_path = Inr []" by (simp add: mem_env_def mem_rocks_def)
  moreover have "db_contents mem_view [] = Map.empty" by (simp add: mem_view_def)
  moreover have "stored mem_env Map.empty = Map.empty" by (simp add: stored_def stored_meta_def fun_eq_iff)
  ultimately show ?thesis
    using kv_open_spec[OF mem_env_ok, of db_path "[]"] that by (auto simp: utf8_paths_def mem_env_def[THEN arg_cong, of env_node_size])
qed

end
