(* ===== verification/Kv_Theorems.thy ===== *)
theory Kv_Theorems
  imports Kv_Open
begin

text \<open>
  What a client of the key-value engine can rely on in the immediate mode, with one request at a time: the engine
  refines the contract, and what the contract gives for writing, deleting and destroying versions.  Two concurrent
  writers can lose an update, and the listing does not respect the segments of a path.
\<close>

section \<open>Consequences of the contract\<close>

lemma secret_at_wf:
  assumes "store_wf st" "secret_at st path = (meta, pl)"
  shows "meta_wf meta" "dom pl \<subseteq> version_id ` set (versions meta)"
proof -
  have "meta_wf default_metadata" by (simp add: meta_wf_def default_metadata_def)
  then show "meta_wf meta" "dom pl \<subseteq> version_id ` set (versions meta)"
    using assms by (auto simp: secret_at_def store_wf_def split: option.splits)
qed

lemma store_wf_put:
  assumes "store_wf st" "unat (current_version (fst (secret_at st path))) < 2 ^ 32 - 1"
  shows "store_wf (st(path \<mapsto> add_version now payload (secret_at st path)))"
proof -
  obtain meta pl where s: "secret_at st path = (meta, pl)" by fastforce
  note wf = secret_at_wf[OF assms(1) s]
  have "unat (current_version meta + 1) = Suc (unat (current_version meta))"
    using assms(2) s unat_word_ariths(1)[of "current_version meta" 1] by simp
  then have "store_wf (st(path \<mapsto> add_version now payload (meta, pl)))"
    using assms(1) wf by (auto simp: store_wf_def meta_wf_def add_version_def Let_def)
  then show ?thesis by (simp add: s)
qed

lemma new_version_fresh:
  assumes "meta_wf meta" "unat (current_version meta) < 2 ^ 32 - 1"
  shows "current_version meta + 1 \<notin> version_id ` set (versions meta)" "current_version meta + 1 \<noteq> 0"
proof -
  have n: "unat (current_version meta + 1) = Suc (unat (current_version meta))"
    using assms(2) unat_word_ariths(1)[of "current_version meta" 1] by simp
  then show "current_version meta + 1 \<noteq> 0" by auto
  have "unat ` version_id ` set (versions meta) = {1..<Suc (unat (current_version meta))}"
    using arg_cong[OF assms(1)[unfolded meta_wf_def], of set] by (simp add: image_comp del: upt_Suc)
  then show "current_version meta + 1 \<notin> version_id ` set (versions meta)" using n by (metis atLeastLessThan_iff imageI less_irrefl)
qed

lemma find_snoc: "find P (xs @ [x]) = (case find P xs of None \<Rightarrow> if P x then Some x else None | Some y \<Rightarrow> Some y)"
  by (induction xs) auto

lemma find_None_version: "v \<notin> version_id ` set vss \<Longrightarrow> find (\<lambda>x. version_id x = v) vss = None"
  by (auto simp: find_None_iff)

lemma read_new_version:
  assumes "meta_wf meta" "unat (current_version meta) < 2 ^ 32 - 1"
    and "st path = Some (add_version now payload (meta, pl))"
  defines "vs \<equiv> \<lparr>created_time_ms = now, deletion_time_ms = 0, version_id = current_version meta + 1, destroyed = False\<rparr>"
  shows "spec_read path 0 st = Inr (Secret payload vs)" "spec_read path (current_version meta + 1) st = Inr (Secret payload vs)"
  using new_version_fresh[OF assms(1,2)] find_None_version[OF new_version_fresh(1)[OF assms(1,2)]]
  by (simp_all add: spec_read_def assms(3) add_version_def Let_def find_snoc vs_def)

lemma read_old_version:
  assumes "st path = Some (meta, pl)" "v \<noteq> 0" "v \<noteq> current_version meta + 1"
  shows "spec_read path v (st(path \<mapsto> add_version now payload (meta, pl))) = spec_read path v st"
  using assms by (auto simp: spec_read_def add_version_def Let_def find_snoc split: option.splits)

text \<open>
  C1: The engine in the immediate mode implements the contract of a versioned store: from any state that satisfies the
  invariant, every sequence of requests returns, answers exactly what the contract says, keeps the cache and
  the path index in agreement with the disk, and leaves on the disk the store the contract says.
\<close>

theorem kv_refines:
  assumes "kv_inv E V e"
  shows "\<exists>e'. engine_run (kv_step E) reqs e = Some (fst (spec_run reqs (kv_store E V e)), e')
    \<and> kv_inv E V e' \<and> kv_store E V e' = snd (spec_run reqs (kv_store E V e))"
  using assms by (rule kv.run_law)

theorem kv_refines_witness:
  "\<exists>e e'. kv_open mem_env ''db'' = Some (Inr e) \<and> engine_run (kv_step mem_env)
      [Put_Version 7 ''a'' \<lparr>payload_value = ''x'', payload_ttl = 0\<rparr> None, Read_Version ''a'' 0, Read_Version ''b'' 0]
      (change_sync_mode Immediate e) = Some ([Inr Done,
        Inr (Secret \<lparr>payload_value = ''x'', payload_ttl = 0\<rparr> \<lparr>created_time_ms = 7, deletion_time_ms = 0, version_id = 1, destroyed = False\<rparr>),
        Inl NotFound], e')"
proof -
  obtain e where e: "kv_open mem_env ''db'' = Some (Inr e)" "kv_inv mem_env mem_view (change_sync_mode Immediate e)"
    "kv_store mem_env mem_view (change_sync_mode Immediate e) = Map.empty" by (rule mem_open)
  show ?thesis
    using kv_refines[OF e(2), of "[Put_Version 7 ''a'' \<lparr>payload_value = ''x'', payload_ttl = 0\<rparr> None, Read_Version ''a'' 0, Read_Version ''b'' 0]"] e(1)
    by (auto simp: e(3) spec_put_def secret_at_def add_version_def default_metadata_def spec_read_def Let_def)
qed



subsection \<open>Deleting and destroying\<close>

lemma update_first_undo:
  assumes "find (\<lambda>vs. version_id vs = v) vss = Some vs" "f vs = Inr vs'" "version_id vs' = v" "g vs' = Inr vs"
  shows "\<exists>vss'. update_first v f vss = Inr vss' \<and> find (\<lambda>vs. version_id vs = v) vss' = Some vs' \<and> update_first v g vss' = Inr vss"
  using assms(1)
proof (induction vss)
  case (Cons x vss)
  then show ?case using assms(2-) by (cases "version_id x = v") auto
qed simp


text \<open>An engine that holds one secret.\<close>

lemma mem_one_secret:
  obtains e where "kv_inv mem_env mem_view e"
    "kv_store mem_env mem_view e = [path \<mapsto> add_version 7 payload (default_metadata, Map.empty)]"
proof -
  obtain e0 where e: "kv_inv mem_env mem_view (change_sync_mode Immediate e0)"
    "kv_store mem_env mem_view (change_sync_mode Immediate e0) = Map.empty" by (rule mem_open)
  show ?thesis
    using kv.run_law[OF e(1), of "[Put_Version 7 path payload None]"] that
    by (auto simp: e(2) spec_put_def secret_at_def)
qed


definition is_destroyed :: "string \<Rightarrow> u32 \<Rightarrow> vstore \<Rightarrow> bool" where
  "is_destroyed path v st \<longleftrightarrow> (\<exists>meta pl vs. st path = Some (meta, pl) \<and> find (\<lambda>vs. version_id vs = v) (versions meta) = Some vs \<and> destroyed vs)"

lemma change_keeps_destroyed:
  assumes "is_destroyed path v st" "\<And>x y. f x = Inr y \<Longrightarrow> version_id y = version_id x \<and> (destroyed x \<longrightarrow> destroyed y)"
  shows "is_destroyed path v (snd (spec_change q w f g st))"
proof (cases "q = path")
  case True
  obtain meta pl vs where st: "st path = Some (meta, pl)" "find (\<lambda>vs. version_id vs = v) (versions meta) = Some vs" "destroyed vs"
    using assms(1) by (auto simp: is_destroyed_def)
  show ?thesis
  proof (cases "update_first w f (versions meta)")
    case (Inr vss)
    have "find (\<lambda>vs. version_id vs = v) vss = (if v = w then Some (projr (f vs)) else Some vs)"
      using find_update_first[OF Inr, of v] assms(2) st(2) by auto
    moreover have "destroyed (projr (f vs))" if "v = w"
      using update_first_found[OF Inr] st(2,3) assms(2)[of vs "projr (f vs)"] that by auto
    ultimately show ?thesis using True st Inr by (auto simp: spec_change_def is_destroyed_def)
  qed (use True st in \<open>auto simp: spec_change_def is_destroyed_def\<close>)
next
  case False
  then show ?thesis using assms(1) by (auto simp: spec_change_def is_destroyed_def split: option.splits sum.splits)
qed

lemma put_keeps_destroyed: "is_destroyed path v st \<Longrightarrow> is_destroyed path v (snd (spec_put now q payload cas st))"
  by (auto simp: is_destroyed_def spec_put_def secret_at_def add_version_def Let_def find_snoc split: option.splits if_splits)

lemma step_keeps_destroyed: "is_destroyed path v st \<Longrightarrow> is_destroyed path v (snd (spec_step req st))"
  by (cases req) (auto intro!: change_keeps_destroyed put_keeps_destroyed split: if_splits)

lemma run_keeps_destroyed: "is_destroyed path v st \<Longrightarrow> is_destroyed path v (snd (spec_run reqs st))"
  by (induction reqs arbitrary: st) (auto simp: case_prod_beta step_keeps_destroyed)

lemma stored_payload_gone:
  assumes "kv_store E V e path = Some (meta, pl)" "v \<in> version_id ` set (versions meta)" "pl v = None"
  shows "disk V (rocksdb e) (build_version_key path v) = None"
  using assms by (auto simp: kv_store_def stored_def stored_payload_def restrict_map_def split: if_splits)



section \<open>Two concurrent writers\<close>

text \<open>
  \<^verbatim>\<open>put_version\<close> reads the metadata and then writes it back without holding a lock.  This is the execution in which
  two callers have both read before either of them writes.
\<close>

definition put_race :: "('db, 'wb, 'it) env \<Rightarrow> u64 \<Rightarrow> u64 \<Rightarrow> string \<Rightarrow> secret_payload \<Rightarrow> secret_payload \<Rightarrow> u32 option
    \<Rightarrow> ('db, (engine_error + unit) \<times> (engine_error + unit)) kv_call" where
  "put_race E now1 now2 path payload1 payload2 cas e = do {
     (r, e) \<leftarrow> read_or_default E path e;
     (r', e) \<leftarrow> read_or_default E path e;
     (a, e) \<leftarrow> (case r of Inl err \<Rightarrow> Some (Inl err, e) | Inr meta \<Rightarrow> put_commit E now1 path payload1 cas meta e);
     (b, e) \<leftarrow> (case r' of Inl err \<Rightarrow> Some (Inl err, e) | Inr meta \<Rightarrow> put_commit E now2 path payload2 cas meta e);
     Some (Inr (a, b), e)
   }"

lemma read_or_default_ok:
  assumes "holds (Immediate, []) E V m m P e" "rocks_reliable (env_rocks E)"
  shows "\<exists>e'. read_or_default E path e = Some (Inr (fst (secret_at (stored E m) path)), e') \<and> holds (Immediate, []) E V m m P e'"
  using assms(2) read_or_default_rule[OF assms(1) visible_immediate[OF assms(1)], of "\<lambda>r e'. r = Inr (fst (secret_at (stored E m) path)) \<and> holds (Immediate, []) E V m m P e'" path]
  unfolding wp_def by auto

lemma put_commit_ok:
  assumes "holds (Immediate, []) E V m m P e" "custom_metadata meta = Map.empty" "cas = None \<or> cas = Some (current_version meta)"
    and "rocks_reliable (env_rocks E)"
  shows "\<exists>m' e'. put_commit E now path payload cas meta e = Some (Inr (), e') \<and> holds (Immediate, []) E V m' m' (insert path P) e'
    \<and> stored E m' = (stored E m)(path \<mapsto> add_version now payload (meta, stored_payload E m path |` (version_id ` set (versions meta))))"
  using put_commit_rule[OF assms(1,2), of cas "\<lambda>r e'. r = Inr () \<and> (\<exists>m'. holds (Immediate, []) E V m' m' (insert path P) e'
    \<and> stored E m' = (stored E m)(path \<mapsto> add_version now payload (meta, stored_payload E m path |` (version_id ` set (versions meta)))))"
    path now payload] assms(3,4)
  unfolding wp_def by auto

lemma stored_secret:
  assumes "secret_at (stored E m) path = (meta, pl)"
  shows "custom_metadata meta = Map.empty" "pl = stored_payload E m path |` (version_id ` set (versions meta))"
  using assms by (auto simp: secret_at_def stored_def default_metadata_def stored_meta_custom split: option.splits)

lemma payloads_before:
  assumes "meta_wf meta" "unat (current_version meta) < 2 ^ 32 - 1" "stored E m path = Some (add_version now payload (meta, pl))"
    and "dom pl \<subseteq> version_id ` set (versions meta)"
  shows "stored_payload E m path |` (version_id ` set (versions meta)) = pl"
proof
  fix v
  let ?c = "current_version meta + 1" and ?ids = "version_id ` set (versions meta)"
  have "stored_payload E m path |` insert ?c ?ids = pl(?c \<mapsto> payload)"
    using assms(3) by (auto simp: stored_def add_version_def Let_def)
  note eq = fun_cong[OF this, of v]
  have fresh: "?c \<notin> ?ids" by (rule new_version_fresh(1)[OF assms(1,2)])
  show "(stored_payload E m path |` ?ids) v = pl v"
  proof (cases "v \<in> ?ids")
    case True
    then have "v \<noteq> ?c" using fresh by metis
    then show ?thesis using eq True by (simp add: restrict_map_def)
  next
    case False
    then have "pl v = None" using assms(4) by blast
    then show ?thesis using False by (simp add: restrict_map_def)
  qed
qed

text \<open>
  C32: Check-and-set does not exclude a concurrent writer: when two callers that expect the current version \<open>c\<close> have both
  read the metadata before either writes, both are told that their write succeeded; afterwards the current version is
  \<open>c + 1\<close> with the payload of the second caller, and the payload of the first is nowhere in the store.
\<close>

theorem cas_race_loses_update:
  assumes "kv_inv E V e" "store_wf (kv_store E V e)" "c = current_version (fst (secret_at (kv_store E V e) path))" "unat c < 2 ^ 32 - 1"
    and "\<And>v. snd (secret_at (kv_store E V e) path) v \<noteq> Some payload1" "payload1 \<noteq> payload2"
  shows "\<exists>e' meta pl. put_race E now1 now2 path payload1 payload2 (Some c) e = Some (Inr (Inr (), Inr ()), e')
    \<and> kv_inv E V e' \<and> kv_store E V e' path = Some (meta, pl) \<and> current_version meta = c + 1
    \<and> pl (c + 1) = Some payload2 \<and> (\<forall>v. pl v \<noteq> Some payload1)"
proof -
  define m where "m = disk V (rocksdb e)"
  define st where "st = stored E m"
  have h: "holds (Immediate, []) E V m m (dom st) e" and rel: "rocks_reliable (env_rocks E)"
    using assms(1) by (simp_all add: kv_inv_def kv_agrees_iff kv_store_def m_def st_def)
  obtain meta pl where s: "secret_at st path = (meta, pl)" by fastforce
  have st_e: "kv_store E V e = st" by (simp add: kv_store_def st_def m_def)
  have c: "c = current_version meta" using assms(3) s by (simp add: st_e)
  note cm = stored_secret(1)[OF s[unfolded st_def]] and pl = stored_secret(2)[OF s[unfolded st_def]]
  note wf = secret_at_wf[OF assms(2)[unfolded st_e] s]
  obtain e1 where e1: "read_or_default E path e = Some (Inr meta, e1)" "holds (Immediate, []) E V m m (dom st) e1"
    using read_or_default_ok[OF h rel, of path] s by (auto simp: st_def)
  obtain e2 where e2: "read_or_default E path e1 = Some (Inr meta, e2)" "holds (Immediate, []) E V m m (dom st) e2"
    using read_or_default_ok[OF e1(2) rel, of path] s by (auto simp: st_def)
  have cc: "Some c = None \<or> Some c = Some (current_version meta)" by (simp add: c)
  obtain m3 e3 where e3: "put_commit E now1 path payload1 (Some c) meta e2 = Some (Inr (), e3)" "holds (Immediate, []) E V m3 m3 (insert path (dom st)) e3"
    "stored E m3 = st(path \<mapsto> add_version now1 payload1 (meta, pl))"
    using put_commit_ok[OF e2(2) cm cc rel, of now1 path payload1] unfolding st_def[symmetric] pl[symmetric] by blast
  obtain m4 e4 where e4: "put_commit E now2 path payload2 (Some c) meta e3 = Some (Inr (), e4)"
    "holds (Immediate, []) E V m4 m4 (insert path (insert path (dom st))) e4"
    "stored E m4 = (stored E m3)(path \<mapsto> add_version now2 payload2 (meta, stored_payload E m3 path |` (version_id ` set (versions meta))))"
    using put_commit_ok[OF e3(2) cm cc rel, of now2 path payload2] by blast
  have "stored_payload E m3 path |` (version_id ` set (versions meta)) = pl"
    using payloads_before[OF wf(1) assms(4)[unfolded c], of E m3 path now1 payload1 pl] wf(2) e3(3) by simp
  then have "stored E m4 = st(path \<mapsto> add_version now2 payload2 (meta, pl))" by (simp add: e4(3) e3(3))
  then have hs: "has_store (Immediate, []) E V (st(path \<mapsto> add_version now2 payload2 (meta, pl))) e4"
    by (intro has_storeI[OF e4(2)]) auto
  have "put_race E now1 now2 path payload1 payload2 (Some c) e = Some (Inr (Inr (), Inr ()), e4)"
    by (simp add: put_race_def e1(1) e2(1) e3(1) e4(1))
  moreover have "\<forall>v. (pl(c + 1 \<mapsto> payload2)) v \<noteq> Some payload1" using assms(5,6) s by (auto simp: st_e)
  ultimately show ?thesis using hs rel by (auto simp: kv_inv_def has_store_immediate add_version_def Let_def c)
qed

theorem cas_race_loses_update_witness:
  "\<exists>e e' meta pl. kv_open mem_env ''db'' = Some (Inr e)
    \<and> put_race mem_env 7 8 ''a'' \<lparr>payload_value = ''x'', payload_ttl = 0\<rparr> \<lparr>payload_value = ''y'', payload_ttl = 0\<rparr> (Some 0)
        (change_sync_mode Immediate e) = Some (Inr (Inr (), Inr ()), e')
    \<and> kv_store mem_env mem_view e' ''a'' = Some (meta, pl) \<and> pl 1 = Some \<lparr>payload_value = ''y'', payload_ttl = 0\<rparr>"
proof -
  obtain e where e: "kv_open mem_env ''db'' = Some (Inr e)" "kv_inv mem_env mem_view (change_sync_mode Immediate e)"
    "kv_store mem_env mem_view (change_sync_mode Immediate e) = Map.empty" by (rule mem_open)
  have "store_wf Map.empty" by (simp add: store_wf_def)
  then show ?thesis
    using cas_race_loses_update[OF e(2), of 0 "''a''" "\<lparr>payload_value = ''x'', payload_ttl = 0\<rparr>"
        "\<lparr>payload_value = ''y'', payload_ttl = 0\<rparr>" 7 8] e(1)
    unfolding e(3) by (auto simp: secret_at_def default_metadata_def)
qed

section \<open>Listing\<close>

lemma split_slash_hd: "\<exists>ps. split_slash s = takeWhile (\<lambda>c. c \<noteq> CHR ''/'') s # ps \<and> (ps = [] \<longleftrightarrow> CHR ''/'' \<notin> set s)"
  by (induction s) (auto split: list.splits)

lemma first_part_spec:
  "first_part s = takeWhile (\<lambda>c. c \<noteq> CHR ''/'') s @ (if CHR ''/'' \<in> set s then ''/'' else [])"
proof -
  obtain ps where "split_slash s = takeWhile (\<lambda>c. c \<noteq> CHR ''/'') s # ps" "ps = [] \<longleftrightarrow> CHR ''/'' \<notin> set s"
    using split_slash_hd[of s] by blast
  then show ?thesis by (auto simp: first_part_def)
qed

lemma list_keys_answer:
  assumes "kv_inv E V e"
  shows "\<exists>e'. list_keys prefix e = Some (Inr (sorted_list_of_set {name. \<exists>path \<in> dom (kv_store E V e). list_entry prefix path = Some name}), e')"
proof -
  have "holds (Immediate, []) E V (disk V (rocksdb e)) (disk V (rocksdb e)) (dom (kv_store E V e)) e"
    using assms by (simp add: kv_inv_def kv_agrees_iff)
  from list_keys_rule[OF this, of "\<lambda>r e'. r = Inr (sorted_list_of_set {name. \<exists>path \<in> dom (kv_store E V e). list_entry prefix path = Some name})" prefix]
  show ?thesis unfolding wp_def by auto
qed

text \<open>
  C28: The listing of a directory \<open>dir/\<close> is right: it is the ascending list, without repetitions, of the names directly below
  it, a path that goes on below contributing the name of its first segment with a slash.
\<close>

theorem list_directory:
  assumes "kv_inv E V e" "dir \<noteq> []"
    and "\<And>r. kv_store E V e (dir @ ''/'' @ r) \<noteq> None \<Longrightarrow> r \<noteq> [] \<and> hd r \<noteq> CHR ''/''"
  shows "\<exists>e'. list_keys (dir @ ''/'') e = Some (Inr (sorted_list_of_set
    {takeWhile (\<lambda>c. c \<noteq> CHR ''/'') r @ (if CHR ''/'' \<in> set r then ''/'' else []) | r. kv_store E V e (dir @ ''/'' @ r) \<noteq> None}), e')"
proof -
  have entry: "list_entry (dir @ ''/'') path = Some name \<longleftrightarrow> (\<exists>r. path = dir @ ''/'' @ r \<and> name = first_part r)"
    if "kv_store E V e path \<noteq> None" for path name
  proof (cases "take (length (dir @ ''/'')) path = dir @ ''/''")
    case True
    then obtain r where r: "path = dir @ ''/'' @ r" by (metis append_assoc append_take_drop_id)
    with that assms(3) have "r \<noteq> []" "hd r \<noteq> CHR ''/''" by auto
    then show ?thesis by (cases r) (auto simp: r list_entry_def)
  next
    case False
    then show ?thesis by (auto simp: list_entry_def)
  qed
  have "{name. \<exists>path \<in> dom (kv_store E V e). list_entry (dir @ ''/'') path = Some name}
      = {first_part r | r. kv_store E V e (dir @ ''/'' @ r) \<noteq> None}"
    using entry by (auto simp: dom_def)
  then show ?thesis using list_keys_answer[OF assms(1), of "dir @ ''/''"] by (simp only: first_part_spec)
qed

theorem list_directory_witness:
  "\<exists>e e'. kv_inv mem_env mem_view e \<and> dom (kv_store mem_env mem_view e) = {''app/db''} \<and> list_keys ''app/'' e = Some (Inr [''db''], e')"
proof -
  obtain e where e: "kv_inv mem_env mem_view e"
    "kv_store mem_env mem_view e = [''app/db'' \<mapsto> add_version 7 \<lparr>payload_value = ''x'', payload_ttl = 0\<rparr> (default_metadata, Map.empty)]"
    by (rule mem_one_secret)
  have d: "kv_store mem_env mem_view e (''app'' @ ''/'' @ r) \<noteq> None \<longleftrightarrow> r = ''db''" for r by (auto simp: e(2))
  have "{takeWhile (\<lambda>c. c \<noteq> CHR ''/'') r @ (if CHR ''/'' \<in> set r then ''/'' else []) | r. r = ''db''} = {''db''}" by simp
  then obtain e' where "list_keys ''app/'' e = Some (Inr [''db''], e')"
    using list_directory[OF e(1), of "''app''"] unfolding d by auto
  moreover have "dom (kv_store mem_env mem_view e) = {''app/db''}" by (simp add: e(2))
  ultimately show ?thesis using e(1) by blast
qed

text \<open>
  Without the trailing slash the listing does not stop at segments: with one secret at \<open>application\<close>, listing \<open>app\<close>
  answers the name \<open>lication\<close>, which no path of the store has as a segment.
\<close>

lemma list_crosses_segments:
  assumes "kv_inv E V e" "dom (kv_store E V e) = {''application''}"
  shows "\<exists>e'. list_keys ''app'' e = Some (Inr [''lication''], e')"
proof -
  have "list_entry ''app'' ''application'' = Some ''lication''"
    by (simp add: list_entry_def first_part_spec)
  then show ?thesis using list_keys_answer[OF assms(1), of "''app''"] by (simp add: assms(2))
qed

end
