(* ===== verification/Kv_Failures.thy ===== *)
theory Kv_Failures
  imports Kv_Theorems
begin

text \<open>
  The key-value engine in the immediate mode over a RocksDB whose calls may fail.  Every error path of the methods is
  taken here: a request that meets a failed call reports it and the engine goes on serving, with the cache and the index
  in agreement with the disk.  \<open>faulty_run\<close> is the contract of such an engine, the locale \<open>faulty_engine\<close> states it, and the
  properties say what survives: the well-formedness of the store, and every write that was acknowledged.  The one
  request that can be left half done is \<^verbatim>\<open>destroy_version\<close>, which removes the payload before it writes the metadata.
\<close>

section \<open>The contract of an engine whose storage may fail\<close>

text \<open>Each request is served or reports one of the errors of the storage.\<close>

inductive faulty_run :: "(engine_error \<Rightarrow> bool) \<Rightarrow> request list \<Rightarrow> vstore \<Rightarrow> (engine_error + answer) list \<Rightarrow> vstore \<Rightarrow> bool" for errors where
  finished: "faulty_run errors [] st [] st"
| served: "spec_step req st = (r, st') \<Longrightarrow> faulty_run errors reqs st' rs st'' \<Longrightarrow> faulty_run errors (req # reqs) st (r # rs) st''"
| failed: "errors err \<Longrightarrow> st' \<in> torn req st \<Longrightarrow> faulty_run errors reqs st' rs st'' \<Longrightarrow> faulty_run errors (req # reqs) st (Inl err # rs) st''"

inductive_cases faulty_run_elims: "faulty_run errors [] st rs st'" "faulty_run errors (req # reqs) st rs st'"

definition storage_error :: "engine_error \<Rightarrow> bool" where
  "storage_error err \<longleftrightarrow> (\<exists>msg. err = StorageError msg)"

lemma faulty_run_cons:
  assumes "(r, st') = spec_step req st \<or> (\<exists>err. errors err \<and> r = Inl err) \<and> st' \<in> torn req st" "faulty_run errors reqs st' rs st''"
  shows "faulty_run errors (req # reqs) st (r # rs) st''"
  using assms by (auto intro: faulty_run.failed faulty_run.served[OF sym])

locale faulty_engine =
  fixes errors :: "engine_error \<Rightarrow> bool"
    and agreement :: "'s \<Rightarrow> bool"
    and allowed :: "'s \<Rightarrow> request \<Rightarrow> bool"
    and store :: "'s \<Rightarrow> vstore"
    and step :: "request \<Rightarrow> ('s, engine_error, answer) call"
  assumes step_law: "agreement s \<Longrightarrow> allowed s req \<Longrightarrow> wp (step req) (\<lambda>r s'. agreement s' \<and> ((r, store s') = spec_step req (store s)
      \<or> (\<exists>err. errors err \<and> r = Inl err) \<and> store s' \<in> torn req (store s))) s"
begin

lemma run_law:
  assumes "\<And>s req. allowed s req"
  shows "agreement s \<Longrightarrow> \<exists>rs s'. engine_run step reqs s = Some (rs, s') \<and> agreement s' \<and> faulty_run errors reqs (store s) rs (store s')"
proof (induction reqs arbitrary: s)
  case (Cons req reqs)
  obtain r s1 where s1: "step req s = Some (r, s1)" "agreement s1"
    "(r, store s1) = spec_step req (store s) \<or> (\<exists>err. errors err \<and> r = Inl err) \<and> store s1 \<in> torn req (store s)"
    using step_law[OF Cons(2) assms, of req] unfolding wp_def by blast
  obtain rs s2 where s2: "engine_run step reqs s1 = Some (rs, s2)" "agreement s2" "faulty_run errors reqs (store s1) rs (store s2)"
    using Cons(1)[OF s1(2)] by blast
  then show ?case using s1(1) faulty_run_cons[OF s1(3) s2(3)] by auto
qed (auto intro: faulty_run.intros)

end

interpretation kvf: faulty_engine storage_error "kv_agrees E V" "\<lambda>s req. True" "kv_store E V" "kv_step E" for E :: "('db, 'wb, 'it) env" and V
  by unfold_locales (rule wp_mono[OF kv_step_outcome], auto simp: storage_error_def)

section \<open>What every request keeps\<close>

text \<open>The version counters can still count \<open>n\<close> new versions.\<close>

definition room :: "nat \<Rightarrow> vstore \<Rightarrow> bool" where
  "room n st \<longleftrightarrow> (\<forall>path. unat (current_version (fst (secret_at st path))) + n < 2 ^ 32)"

lemma room_mono: "room n st \<Longrightarrow> k \<le> n \<Longrightarrow> room k st"
  unfolding room_def by (meson add_left_mono le_less_trans)

lemma room_upd:
  assumes "room n st" "unat (current_version (fst s)) + n < 2 ^ 32"
  shows "room n (st(path \<mapsto> s))"
  using assms by (simp add: room_def secret_at_def)

lemma roomD: "room n st \<Longrightarrow> st path = Some (meta, pl) \<Longrightarrow> unat (current_version meta) + n < 2 ^ 32"
  by (auto simp: room_def secret_at_def dest: spec[of _ path])

definition kept :: "nat \<Rightarrow> vstore \<Rightarrow> bool" where
  "kept n st \<longleftrightarrow> store_wf st \<and> room n st"

lemma kept_upd:
  assumes "kept n st" "st path = Some (meta, pl)" "map version_id vss = map version_id (versions meta)" "dom pl' \<subseteq> dom pl"
  shows "kept n (st(path \<mapsto> (meta\<lparr>versions := vss\<rparr>, pl')))"
proof -
  have "meta_wf meta" "dom pl \<subseteq> version_id ` set (versions meta)" using assms(1,2) by (auto simp: kept_def store_wf_def)
  moreover have "version_id ` set vss = version_id ` set (versions meta)" using arg_cong[OF assms(3), of set] by simp
  moreover have "map (unat \<circ> version_id) vss = map (unat \<circ> version_id) (versions meta)" using arg_cong[OF assms(3), of "map unat"] by simp
  ultimately have "store_wf (st(path \<mapsto> (meta\<lparr>versions := vss\<rparr>, pl')))"
    using assms(1,4) by (auto simp: kept_def store_wf_def meta_wf_def)
  then show ?thesis using assms(1) room_upd[of n st "(meta\<lparr>versions := vss\<rparr>, pl')" path] roomD[of n st path meta pl] assms(2) by (simp add: kept_def)
qed

lemma kept_fresh:
  assumes "kept (Suc n) st" "st path = Some (meta, pl)"
  shows "current_version meta + 1 \<notin> version_id ` set (versions meta)"
proof (rule new_version_fresh(1))
  show "meta_wf meta" using assms by (auto simp: kept_def store_wf_def)
  show "unat (current_version meta) < 2 ^ 32 - 1" using roomD[of "Suc n" st path meta pl] assms by (simp add: kept_def)
qed

lemma kept_change:
  assumes "kept n st" "\<And>x y. f x = Inr y \<Longrightarrow> version_id y = version_id x" "\<And>pl. dom (g pl) \<subseteq> dom pl"
  shows "kept n (snd (spec_change path v f g st))"
  using kept_upd[OF assms(1) _ update_first_ids[OF _ assms(2)] assms(3)] assms(1)
  by (auto simp: spec_change_def split: option.splits sum.splits)

lemma kept_put:
  assumes "kept (Suc n) st"
  shows "kept n (snd (spec_put now path payload cas st))"
proof -
  have less: "kept n st" using assms room_mono[of "Suc n" st n] by (simp add: kept_def)
  have c: "unat (current_version (fst (secret_at st path))) + Suc n < 2 ^ 32" using assms by (simp add: kept_def room_def)
  then have "store_wf (st(path \<mapsto> add_version now payload (secret_at st path)))"
    using assms by (intro store_wf_put) (simp_all add: kept_def)
  moreover have "unat (current_version (fst (add_version now payload (secret_at st path)))) + n < 2 ^ 32"
    using c unat_word_ariths(1)[of "current_version (fst (secret_at st path))" 1]
    by (simp add: add_version_def Let_def case_prod_beta)
  ultimately have "kept n (st(path \<mapsto> add_version now payload (secret_at st path)))"
    using less room_upd[of n st] by (simp add: kept_def)
  then show ?thesis using less by (auto simp: spec_put_def Let_def split: option.splits)
qed

lemma kept_step: "kept (Suc n) st \<Longrightarrow> kept n (snd (spec_step req st))"
proof -
  assume k: "kept (Suc n) st"
  then have "kept n st" using room_mono[of "Suc n" st n] by (simp add: kept_def)
  then show ?thesis using kept_put[OF k] by (cases req) (auto intro!: kept_change split: if_splits)
qed

text \<open>Without an overflow a failed request leaves the store as it was, or without the payload that it had to destroy.\<close>

lemma torn_cases:
  assumes "kept (Suc n) st" "st' \<in> torn req st"
  shows "st' = st \<or> (\<exists>path v meta pl. req = Destroy_Version path v \<and> st path = Some (meta, pl) \<and> st' = st(path \<mapsto> (meta, pl(v := None))))"
proof (cases req)
  case (Put_Version now path payload cas)
  then show ?thesis using assms(2) kept_fresh[OF assms(1)] by (auto simp: Let_def split: option.splits)
qed (use assms(2) in \<open>auto split: option.splits\<close>)

lemma kept_torn: "kept (Suc n) st \<Longrightarrow> st' \<in> torn req st \<Longrightarrow> kept n st'"
proof -
  assume k: "kept (Suc n) st" and t: "st' \<in> torn req st"
  have less: "kept n st" using k room_mono[of "Suc n" st n] by (simp add: kept_def)
  show "kept n st'" using torn_cases[OF k t]
  proof (elim disjE exE conjE)
    fix path v meta pl assume *: "st path = Some (meta, pl)" "st' = st(path \<mapsto> (meta, pl(v := None)))"
    show "kept n st'" using kept_upd[OF less *(1), of "versions meta" "pl(v := None)"] by (auto simp: *(2))
  qed (simp add: less)
qed

lemma faulty_run_kept: "faulty_run errors reqs st rs st' \<Longrightarrow> kept (length reqs + n) st \<Longrightarrow> kept n st'"
proof (induction rule: faulty_run.induct)
  case (served req st r st' reqs rs st'')
  then show ?case using kept_step[of "length reqs + n" st req] by simp
next
  case (failed err st' req st reqs rs st'')
  then show ?case using kept_torn[of "length reqs + n" st st' req] by simp
qed simp

section \<open>What survives of a written version\<close>

text \<open>The requests that take a version away.\<close>

fun takes_away :: "string \<Rightarrow> u32 \<Rightarrow> request \<Rightarrow> bool" where
  "takes_away path v (Soft_Delete now q w) \<longleftrightarrow> q = path \<and> w = v"
| "takes_away path v (Destroy_Version q w) \<longleftrightarrow> q = path \<and> w = v"
| "takes_away path v _ \<longleftrightarrow> False"

lemma spec_read_secret:
  "v \<noteq> 0 \<Longrightarrow> spec_read path v st = Inr (Secret payload vs) \<longleftrightarrow>
    (\<exists>meta pl. st path = Some (meta, pl) \<and> find (\<lambda>vs. version_id vs = v) (versions meta) = Some vs
      \<and> \<not> destroyed vs \<and> deletion_time_ms vs = 0 \<and> pl v = Some payload)"
  by (auto simp: spec_read_def word_gt_0 split: option.splits if_splits)

lemma survives_change:
  assumes "spec_read path v st = Inr (Secret payload vs)" "v \<noteq> 0" "q \<noteq> path \<or> w \<noteq> v \<or> f vs = Inr vs \<and> g = (\<lambda>P. P)"
    and "\<And>x y. f x = Inr y \<Longrightarrow> version_id y = version_id x" "\<And>P. w \<noteq> v \<Longrightarrow> g P v = P v"
  shows "spec_read path v (snd (spec_change q w f g st)) = Inr (Secret payload vs)"
proof -
  obtain meta pl where st: "st path = Some (meta, pl)" "find (\<lambda>vs. version_id vs = v) (versions meta) = Some vs"
    "\<not> destroyed vs" "deletion_time_ms vs = 0" "pl v = Some payload" using assms(1,2) by (auto simp: spec_read_secret)
  show ?thesis
  proof (cases "q = path")
    case True
    show ?thesis
    proof (cases "update_first w f (versions meta)")
      case (Inr vss)
      have "find (\<lambda>vs. version_id vs = v) vss = Some vs" "g pl v = Some payload"
        using find_update_first[OF Inr assms(4), of v] assms(3,5) st(2,5) True by auto
      then show ?thesis using st True Inr assms(2) by (simp add: spec_change_def spec_read_secret)
    qed (use st True assms(1) in \<open>simp add: spec_change_def\<close>)
  next
    case False
    then have "snd (spec_change q w f g st) path = st path" by (auto simp: spec_change_def split: option.splits sum.splits)
    then show ?thesis using assms(1) by (simp add: spec_read_def)
  qed
qed

lemma survives_put:
  assumes "spec_read path v st = Inr (Secret payload vs)" "v \<noteq> 0" "kept (Suc n) st"
  shows "spec_read path v (snd (spec_put now q payload' cas st)) = Inr (Secret payload vs)"
proof (cases "q = path")
  case True
  obtain meta pl where st: "st path = Some (meta, pl)" "find (\<lambda>vs. version_id vs = v) (versions meta) = Some vs"
    using assms(1,2) by (auto simp: spec_read_secret)
  have "v \<noteq> current_version meta + 1" using find_version_id[OF st(2)] kept_fresh[OF assms(3) st(1)] by metis
  then have "spec_read path v (st(path \<mapsto> add_version now payload' (secret_at st path))) = spec_read path v st"
    using read_old_version[of st path meta pl v now payload'] st(1) assms(2) by (auto simp: secret_at_def)
  then show ?thesis using assms(1) True by (auto simp: spec_put_def Let_def split: option.splits)
next
  case False
  then have "snd (spec_put now q payload' cas st) path = st path" by (auto simp: spec_put_def Let_def split: option.splits)
  then show ?thesis using assms(1) by (simp add: spec_read_def)
qed

lemma survives_step:
  assumes "spec_read path v st = Inr (Secret payload vs)" "v \<noteq> 0" "kept (Suc n) st" "\<not> takes_away path v req"
  shows "spec_read path v (snd (spec_step req st)) = Inr (Secret payload vs)"
proof -
  have vs: "\<not> destroyed vs" "vs\<lparr>deletion_time_ms := 0\<rparr> = vs"
    using assms(1,2) by (auto simp: spec_read_secret)
  show ?thesis
  proof (cases req)
    case (Undelete q w)
    then show ?thesis using assms(1,2) vs unfolding Undelete spec_step.simps by (intro survives_change) (auto split: if_splits)
  qed (use assms survives_put[OF assms(1-3)] in \<open>auto intro!: survives_change\<close>)
qed

lemma survives_torn:
  assumes "spec_read path v st = Inr (Secret payload vs)" "v \<noteq> 0" "kept (Suc n) st" "\<not> takes_away path v req" "st' \<in> torn req st"
  shows "spec_read path v st' = Inr (Secret payload vs)"
  using torn_cases[OF assms(3,5)] assms(1,2,4) by (auto simp: spec_read_secret)

lemma survives_run:
  "faulty_run errors reqs st rs st' \<Longrightarrow> kept (length reqs) st \<Longrightarrow> spec_read path v st = Inr (Secret payload vs) \<Longrightarrow> v \<noteq> 0
    \<Longrightarrow> \<forall>req \<in> set reqs. \<not> takes_away path v req \<Longrightarrow> spec_read path v st' = Inr (Secret payload vs)"
proof (induction rule: faulty_run.induct)
  case (served req st r st' reqs rs st'')
  then show ?case using kept_step[of "length reqs" st req] survives_step[of path v st payload vs "length reqs" req] by simp
next
  case (failed err st' req st reqs rs st'')
  then show ?case using kept_torn[of "length reqs" st st' req] survives_torn[of path v st payload vs "length reqs" req st'] by simp
qed simp

text \<open>A version that a \<open>put_version\<close> has added.\<close>

lemma survives_from_put:
  assumes "kept (Suc (length reqs)) st" "spec_step (Put_Version now path payload cas) st = (Inr Done, st1)"
    and "c = current_version (fst (secret_at st path))" "faulty_run errors reqs st1 rs st2"
    and "\<forall>req \<in> set reqs. \<not> takes_away path (c + 1) req"
  shows "spec_read path (c + 1) st2
    = Inr (Secret payload \<lparr>created_time_ms = now, deletion_time_ms = 0, version_id = c + 1, destroyed = False\<rparr>)"
proof -
  obtain meta pl where s: "secret_at st path = (meta, pl)" by fastforce
  have c: "c = current_version meta" using assms(3) s by simp
  have "st1 = st(path \<mapsto> add_version now payload (meta, pl))"
    using assms(2) s by (auto simp: spec_put_def Let_def split: option.splits if_splits)
  then have "st1 path = Some (add_version now payload (meta, pl))" by simp
  moreover have wf: "meta_wf meta" using secret_at_wf(1)[OF _ s] assms(1) by (simp add: kept_def)
  moreover have n: "unat (current_version meta) < 2 ^ 32 - 1" using assms(1) s by (auto simp: kept_def room_def dest: spec[of _ path])
  ultimately have new: "spec_read path (c + 1) st1
      = Inr (Secret payload \<lparr>created_time_ms = now, deletion_time_ms = 0, version_id = c + 1, destroyed = False\<rparr>)"
    using read_new_version(2)[of meta st1 path now payload pl] by (simp add: c)
  have v: "c + 1 \<noteq> 0" using new_version_fresh(2)[OF wf n] by (simp add: c)
  have "kept (length reqs) st1" using kept_step[OF assms(1), of "Put_Version now path payload cas"] assms(2) by simp
  from survives_run[OF assms(4) this new v assms(5)] show ?thesis .
qed

section \<open>A full disk\<close>

text \<open>An environment where the writes of RocksDB fail and its reads and removals succeed.\<close>

definition full_disk :: "string \<Rightarrow> ('db, 'wb, 'it) env \<Rightarrow> ('db, 'wb, 'it) env" where
  "full_disk msg E = E\<lparr>env_rocks := (env_rocks E)\<lparr>put_opt := (\<lambda>d k v s. (Inl msg, d))\<rparr>\<rparr>"

lemma full_disk_sound: "env_sound E V \<Longrightarrow> env_sound (full_disk msg E) V"
  by (auto simp: env_sound_def full_disk_def rocks_ok_def writes_ok_def reads_ok_def iterator_ok_def effect_def Let_def)

lemma full_disk_parts [simp]:
  "env_sip (full_disk msg E) = env_sip E" "env_rkyv (full_disk msg E) = env_rkyv E"
  "get_raw (env_rocks (full_disk msg E)) = get_raw (env_rocks E)" "del_raw (env_rocks (full_disk msg E)) = del_raw (env_rocks E)"
  by (simp_all add: fun_eq_iff full_disk_def get_raw_def del_raw_def)

lemma full_disk_cache [simp]:
  "cache_insert (full_disk msg E) = cache_insert E" "cache_remove (full_disk msg E) = cache_remove E"
  "deserialize_metadata (full_disk msg E) = deserialize_metadata E" "serialize_metadata (full_disk msg E) = serialize_metadata E"
  by (simp_all add: fun_eq_iff cache_insert_def cache_remove_def deserialize_metadata_def serialize_metadata_def)

lemma full_disk_stored [simp]: "stored (full_disk msg E) = stored E"
  by (intro ext) (simp add: stored_def stored_meta_def stored_payload_def[abs_def])

lemma full_disk_agrees: "kv_agrees E V e \<Longrightarrow> kv_agrees (full_disk msg E) V e"
  using full_disk_sound[of E V msg] by (simp add: kv_agrees_iff holds_def kv_store_def)

lemma full_disk_store [simp]: "kv_store (full_disk msg E) V e = kv_store E V e"
  by (simp add: kv_store_def)

lemma full_disk_raw [simp]: "read_raw_optimistic (full_disk msg E) = read_raw_optimistic E"
  by (intro ext) (unfold read_raw_optimistic_def full_disk_parts full_disk_cache, rule refl)

lemma full_disk_reads [simp]:
  "read_metadata (full_disk msg E) path = read_metadata E path" "read_version (full_disk msg E) path v = read_version E path v"
  by (unfold read_metadata_def read_version_def full_disk_parts full_disk_cache full_disk_raw) (rule refl)+

lemma full_disk_removes [simp]:
  "enqueue_or_execute (full_disk msg E) (Kv_Delete k) = enqueue_or_execute E (Kv_Delete k)"
  by (simp add: fun_eq_iff enqueue_or_execute_def)

lemma full_disk_store_metadata:
  assumes "holds (Immediate, []) E V m c P e" "custom_metadata meta = Map.empty" "Q (Inl (StorageError (''Immediate write failed: '' @ msg))) e"
  shows "wp (store_metadata (full_disk msg E) path meta) Q e"
proof -
  obtain b where "serialize_metadata E meta = Inr b" using serialize_ok(1)[of E V meta] assms(1,2) by (auto simp: holds_def)
  then show ?thesis using assms(1,3)
    by (simp add: store_metadata_def holds_def) (simp add: wp_def enqueue_or_execute_def put_raw_def on_db_def full_disk_def)
qed

lemma full_disk_destroy:
  assumes "kv_inv E V e" "kv_store E V e path = Some (meta, pl)" "update_first v (\<lambda>vs. Inr (vs\<lparr>destroyed := True\<rparr>)) (versions meta) = Inr vss"
  shows "wp (destroy_version (full_disk msg E) path v) (\<lambda>r e'. r = Inl (StorageError (''Immediate write failed: '' @ msg))
    \<and> kv_inv E V e' \<and> kv_store E V e' = (kv_store E V e)(path \<mapsto> (meta, pl(v := None)))) e"
proof -
  define m where "m = disk V (rocksdb e)"
  have h: "holds (Immediate, []) E V m m (dom (stored E m)) e" and st: "kv_store E V e = stored E m" and rel: "rocks_reliable (env_rocks E)"
    using assms(1) by (simp_all add: kv_inv_def kv_agrees_iff kv_store_def m_def)
  have sm: "stored_meta E m path = Some meta" using assms(2) by (auto simp: st stored_def)
  let ?m = "m(build_version_key path v := None)"
  have "kv_inv E V e' \<and> kv_store E V e' = (stored E m)(path \<mapsto> (meta, pl(v := None)))"
    if "holds (Immediate, []) E V ?m ?m (dom (stored E m)) e'" for e'
  proof -
    have s: "stored E ?m = (stored E m)(path \<mapsto> (meta, pl(v := None)))" by (rule stored_del_payload) (use assms(2) st in simp)
    have "has_store (Immediate, []) E V (stored E ?m) e'" using has_storeI[OF that refl] by (simp add: stored_dom)
    then show ?thesis using rel s by (simp add: has_store_immediate kv_inv_def)
  qed
  note torn_state = this
  show ?thesis unfolding destroy_version_def full_disk_reads full_disk_removes full_disk_cache st
  proof (rule with_metadata_rule[OF h visible_immediate[OF h fst_conv]], goal_cases)
    case (2 meta' e1)
    have "meta' = meta" using 2(1) sm by simp
    then show ?case using assms(3) stored_meta_custom[OF sm]
      by (auto intro!: write_delete_rule[OF 2(2)] cache_remove_rule full_disk_store_metadata torn_state[THEN conjunct1] torn_state[THEN conjunct2]
        simp: rel)
  qed (use sm rel in auto)
qed

section \<open>The type of the answers\<close>

text \<open>What an answer to a request may be; the queue of the batch mode is not used.\<close>

fun answer_typed :: "request \<Rightarrow> engine_error + answer \<Rightarrow> bool" where
  "answer_typed (Read_Version path v) (Inr (Secret payload vs)) \<longleftrightarrow>
     version_id vs \<noteq> 0 \<and> (v \<noteq> 0 \<longrightarrow> version_id vs = v) \<and> \<not> destroyed vs \<and> deletion_time_ms vs = 0"
| "answer_typed (Read_Metadata path) (Inr (Metadata meta)) \<longleftrightarrow> meta_wf meta"
| "answer_typed (Put_Version now path payload cas) (Inr Done) \<longleftrightarrow> True"
| "answer_typed (Soft_Delete now path v) (Inr Done) \<longleftrightarrow> True"
| "answer_typed (Undelete path v) (Inr Done) \<longleftrightarrow> True"
| "answer_typed (Destroy_Version path v) (Inr Done) \<longleftrightarrow> True"
| "answer_typed (List_Keys prefix) (Inr (Keys names)) \<longleftrightarrow> sorted names \<and> distinct names"
| "answer_typed _ (Inl err) \<longleftrightarrow> err \<noteq> QueueFull"
| "answer_typed _ _ \<longleftrightarrow> False"

lemma typed_failure: "answer_typed req (Inl (StorageError msg))"
  by (cases req) simp_all

lemma update_first_error: "update_first v f vss = Inl err \<Longrightarrow> err = InvalidVersion v \<or> (\<exists>vs. f vs = Inl err)"
  by (induction v f vss rule: update_first.induct) (auto split: if_splits sum.splits)

lemma update_first_total:
  "find (\<lambda>vs. version_id vs = v) vss = Some vs \<Longrightarrow> \<exists>vss'. update_first v (\<lambda>vs. Inr (h vs)) vss = Inr vss'"
  by (induction vss) (auto split: if_splits)

lemma typed_step:
  assumes "store_wf st"
  shows "answer_typed req (fst (spec_step req st))"
proof (cases req)
  case (Read_Version path v)
  then show ?thesis
    by (auto simp: spec_read_def Let_def word_gt_0 find_Some_iff split: option.splits if_splits)
next
  case (Read_Metadata path)
  then show ?thesis using assms by (auto simp: store_wf_def split: option.splits)
next
  case (Put_Version now path payload cas)
  then show ?thesis by (auto simp: spec_put_def Let_def split: option.splits)
qed (auto simp: spec_change_def split: option.splits sum.splits if_splits dest!: update_first_error)

lemma faulty_run_typed: "faulty_run storage_error reqs st rs st' \<Longrightarrow> kept (length reqs) st \<Longrightarrow> list_all2 answer_typed reqs rs"
proof (induction rule: faulty_run.induct)
  case (served req st r st' reqs rs st'')
  then show ?case using kept_step[of "length reqs" st req] typed_step[of st req] by (simp add: kept_def)
next
  case (failed err st' req st reqs rs st'')
  then show ?case using kept_torn[of "length reqs" st st' req] by (auto simp: typed_failure storage_error_def)
qed simp

section \<open>Properties\<close>





text \<open>
  C24: The types are kept: as long as no version counter can overflow, every sequence of requests, with whatever failed
  calls of RocksDB, leaves a store where each secret numbers its versions from one without gaps and has payloads only of
  its own versions, and every answer is one that the method can give: a secret is the live version that was asked
  for, metadata are well-formed, listed names are sorted and distinct, and no error is \<open>QueueFull\<close>.
\<close>

theorem answers_typed:
  assumes "kv_agrees E V e" "store_wf (kv_store E V e)" "room (length reqs) (kv_store E V e)"
  shows "\<exists>rs e'. engine_run (kv_step E) reqs e = Some (rs, e') \<and> store_wf (kv_store E V e') \<and> list_all2 answer_typed reqs rs"
proof -
  obtain rs e' where *: "engine_run (kv_step E) reqs e = Some (rs, e')" "faulty_run storage_error reqs (kv_store E V e) rs (kv_store E V e')"
    using kvf.run_law[OF TrueI assms(1)] by blast
  have "kept (length reqs) (kv_store E V e)" using assms(2,3) by (simp add: kept_def)
  then show ?thesis using * faulty_run_kept[OF *(2), of 0] faulty_run_typed[OF *(2)] by (auto simp: kept_def)
qed

theorem answers_typed_witness:
  "\<exists>e rs e'. engine_run (kv_step (full_disk ''No space left on device'' mem_env)) [Put_Version 8 ''a'' \<lparr>payload_value = ''y'', payload_ttl = 0\<rparr> None,
      Read_Metadata ''a'', List_Keys []] e = Some (rs, e')
    \<and> list_all2 answer_typed [Put_Version 8 ''a'' \<lparr>payload_value = ''y'', payload_ttl = 0\<rparr> None, Read_Metadata ''a'', List_Keys []] rs"
proof -
  let ?F = "full_disk ''No space left on device'' mem_env"
  let ?reqs = "[Put_Version 8 ''a'' \<lparr>payload_value = ''y'', payload_ttl = 0\<rparr> None, Read_Metadata ''a'', List_Keys []]"
  obtain e where e: "kv_inv mem_env mem_view e"
    "kv_store mem_env mem_view e = [''a'' \<mapsto> add_version 7 \<lparr>payload_value = ''x'', payload_ttl = 0\<rparr> (default_metadata, Map.empty)]"
    by (rule mem_one_secret)
  have a: "kv_agrees ?F mem_view e" using e(1) by (intro full_disk_agrees) (simp add: kv_inv_def)
  have w: "store_wf (kv_store ?F mem_view e)"
    by (simp add: e(2) store_wf_def add_version_def default_metadata_def Let_def meta_wf_def)
  have r: "room (length ?reqs) (kv_store ?F mem_view e)"
    by (simp add: e(2) room_def secret_at_def add_version_def default_metadata_def Let_def)
  show ?thesis using answers_typed[OF a w r] by blast
qed

text \<open>
  C30: A failed \<open>destroy_version\<close> is torn: when the removal of the payload succeeds and the write of the metadata fails, the
  request reports the failure, yet the payload is gone: a read of the version, which the metadata still show as
  live, fails with a missing payload instead of reporting the version destroyed.  Once the disk works again, repeating the
  request completes it, and the store is what a single successful request would have left.
\<close>

theorem destroy_torn:
  assumes "kv_inv E V e" "spec_read path v (kv_store E V e) = Inr (Secret payload vs)" "v \<noteq> 0"
  shows "\<exists>e1 e2 e3. kv_step (full_disk msg E) (Destroy_Version path v) e = Some (Inl (StorageError (''Immediate write failed: '' @ msg)), e1)
    \<and> kv_step (full_disk msg E) (Read_Version path v) e1 = Some (Inl (StorageError ''Missing version payload''), e2)
    \<and> kv_step E (Destroy_Version path v) e2 = Some (Inr Done, e3)
    \<and> kv_store E V e3 = snd (spec_step (Destroy_Version path v) (kv_store E V e))"
proof -
  define st where "st = kv_store E V e"
  obtain meta pl where m: "st path = Some (meta, pl)" "find (\<lambda>vs. version_id vs = v) (versions meta) = Some vs"
    "\<not> destroyed vs" "deletion_time_ms vs = 0" using assms(2,3) by (auto simp: spec_read_secret st_def)
  obtain vss where vss: "update_first v (\<lambda>vs. Inr (vs\<lparr>destroyed := True\<rparr>)) (versions meta) = Inr vss"
    using update_first_total[OF m(2)] by blast
  let ?st = "st(path \<mapsto> (meta, pl(v := None)))"
  obtain e1 where e1: "destroy_version (full_disk msg E) path v e = Some (Inl (StorageError (''Immediate write failed: '' @ msg)), e1)"
    "kv_inv E V e1" "kv_store E V e1 = ?st"
    using full_disk_destroy[OF assms(1) m(1)[unfolded st_def] vss, of msg] unfolding wp_def st_def by blast
  have "spec_read path v ?st = Inl (StorageError ''Missing version payload'')"
    using m assms(3) by (simp add: spec_read_def)
  then obtain e2 where e2: "kv_step E (Read_Version path v) e1 = Some (Inl (StorageError ''Missing version payload''), e2)"
    "kv_inv E V e2" "kv_store E V e2 = ?st"
    using kv.step_law[OF e1(2), of "Read_Version path v"] unfolding wp_def e1(3) by auto
  have done1: "spec_step (Destroy_Version path v) st = (Inr Done, st(path \<mapsto> (meta\<lparr>versions := vss\<rparr>, pl(v := None))))"
    using m(1) vss by (simp add: spec_change_def)
  have done2: "spec_step (Destroy_Version path v) ?st = (Inr Done, st(path \<mapsto> (meta\<lparr>versions := vss\<rparr>, pl(v := None))))"
    using vss by (simp add: spec_change_def)
  obtain e3 where e3: "kv_step E (Destroy_Version path v) e2 = Some (Inr Done, e3)"
    "kv_store E V e3 = st(path \<mapsto> (meta\<lparr>versions := vss\<rparr>, pl(v := None)))"
    using kv.step_law[OF e2(2), of "Destroy_Version path v"] unfolding wp_def e2(3) done2 by auto
  have "kv_step (full_disk msg E) (Destroy_Version path v) e = Some (Inl (StorageError (''Immediate write failed: '' @ msg)), e1)"
    using e1(1) by (simp add: andthen_def)
  moreover have "kv_step (full_disk msg E) (Read_Version path v) e1 = Some (Inl (StorageError ''Missing version payload''), e2)"
    using e2(1) by simp
  ultimately show ?thesis using e3 done1 unfolding st_def by (metis snd_conv)
qed

theorem destroy_torn_witness:
  "\<exists>e e1 e2. kv_inv mem_env mem_view e
    \<and> kv_step (full_disk ''No space left on device'' mem_env) (Destroy_Version ''a'' 1) e
        = Some (Inl (StorageError ''Immediate write failed: No space left on device''), e1)
    \<and> kv_step (full_disk ''No space left on device'' mem_env) (Read_Version ''a'' 1) e1 = Some (Inl (StorageError ''Missing version payload''), e2)"
proof -
  obtain e where e: "kv_inv mem_env mem_view e"
    "kv_store mem_env mem_view e = [''a'' \<mapsto> add_version 7 \<lparr>payload_value = ''x'', payload_ttl = 0\<rparr> (default_metadata, Map.empty)]"
    by (rule mem_one_secret)
  have "spec_read ''a'' 1 (kv_store mem_env mem_view e) = Inr (Secret \<lparr>payload_value = ''x'', payload_ttl = 0\<rparr>
      \<lparr>created_time_ms = 7, deletion_time_ms = 0, version_id = 1, destroyed = False\<rparr>)"
    by (simp add: e(2) spec_read_def add_version_def default_metadata_def Let_def)
  from destroy_torn[OF e(1) this, of "''No space left on device''"] e(1) show ?thesis by auto
qed

end
