(* ===== verification/Kv_Worker.thy ===== *)
theory Kv_Worker
  imports Kv_Open
begin

text \<open>
  The engine with its worker thread, in the batch mode as well: no request panics or hangs, whatever RocksDB answers;
  what the engine has queued reaches the disk in order, at the latest when the engine is dropped, and an engine
  opened afterwards holds it.  A switch to the immediate mode lets an older write overwrite a newer one.
\<close>

interpretation wb: write_behind lfq_inv lfq_items lfq_cap lfq_enqueue lfq_dequeue
    "\<lambda>b. rocks_ok R V" "disk V" "put_raw R" "get_raw R" "del_raw R" "apply_batch R" kv_batch_op
  for R :: "('db, 'wb, 'it) rocks" and V
  by unfold_locales

section \<open>What every call keeps\<close>

definition keeps :: "('s \<Rightarrow> bool) \<Rightarrow> ('s, 'e, 'a) call \<Rightarrow> bool" where
  "keeps I m \<longleftrightarrow> (\<forall>s. I s \<longrightarrow> wp m (\<lambda>r. I) s)"

named_theorems keeps_intros \<open>calls that keep an invariant\<close>

lemma keeps_basic [keeps_intros]: "keeps I (ok x)" "keeps I (fail err)" "keeps I (lift_result r)"
  by (simp_all add: keeps_def)

lemma keeps_andthen [keeps_intros]: "keeps I m \<Longrightarrow> (\<And>x. keeps I (f x)) \<Longrightarrow> keeps I (andthen m f)"
  by (auto simp: keeps_def elim!: wp_mono split: sum.splits)

lemma keepsD: "keeps I m \<Longrightarrow> I s \<Longrightarrow> \<exists>r s'. m s = Some (r, s') \<and> I s'"
  by (auto simp: keeps_def wp_def)

lemma keepsI: "(\<And>s. I s \<Longrightarrow> \<exists>r s'. m s = Some (r, s') \<and> I s') \<Longrightarrow> keeps I m"
  by (auto simp: keeps_def wp_def)

text \<open>The parts of the engine satisfy their own invariants.\<close>

definition shape :: "('db, 'wb, 'it) env \<Rightarrow> 'db kv_engine \<Rightarrow> bool" where
  "shape E e \<longleftrightarrow> sharded_inv (env_sip E) (kv_cache e) \<and> tls_inv (path_index e) \<and> lfq_inv (async_queue e)"

text \<open>In the batch mode the disk is as it was, and the queue has only grown.\<close>

definition queueing :: "('db, 'wb, 'it) env \<Rightarrow> 'db rocksdb_backend \<Rightarrow> kv_op list \<Rightarrow> 'db kv_engine \<Rightarrow> bool" where
  "queueing E b xs e \<longleftrightarrow> shape E e \<and> get_sync_mode e = Batch \<and> rocksdb e = b \<and> (\<exists>ops. lfq_items (async_queue e) = xs @ ops)"

text \<open>Both are invariants of this kind: they allow new caches and indexes.\<close>

definition steady :: "('db, 'wb, 'it) env \<Rightarrow> ('db kv_engine \<Rightarrow> bool) \<Rightarrow> bool" where
  "steady E I \<longleftrightarrow> (\<forall>e. I e \<longrightarrow> shape E e)
     \<and> (\<forall>e c. I e \<longrightarrow> sharded_inv (env_sip E) c \<longrightarrow> I (e\<lparr>kv_cache := c\<rparr>))
     \<and> (\<forall>e i. I e \<longrightarrow> tls_inv i \<longrightarrow> I (e\<lparr>path_index := i\<rparr>))
     \<and> (\<forall>op. keeps I (enqueue_or_execute E op))"

lemma cache_insert_keeps [keeps_intros]: assumes "steady E I" shows "keeps I (cache_insert E k v)"
proof (rule keepsI)
  fix e assume e: "I e"
  then have "sharded_inv (env_sip E) (kv_cache e)" using assms by (simp add: steady_def shape_def)
  then obtain r c where "sharded_ins (env_sip E) (kv_cache e) k v = Some (r, c)" "sharded_inv (env_sip E) c"
    using st.ins_law by blast
  then show "\<exists>r e'. cache_insert E k v e = Some (r, e') \<and> I e'"
    using assms e by (auto simp: cache_insert_def sharded_ins_def steady_def)
qed

lemma cache_remove_keeps [keeps_intros]: assumes "steady E I" shows "keeps I (cache_remove E k)"
proof (rule keepsI)
  fix e assume e: "I e"
  then have "sharded_inv (env_sip E) (kv_cache e)" using assms by (simp add: steady_def shape_def)
  then obtain r c where "sharded_remove (env_sip E) (kv_cache e) k = Some (r, c)" "sharded_inv (env_sip E) c"
    using st.rm_law by blast
  then show "\<exists>r e'. cache_remove E k e = Some (r, e') \<and> I e'"
    using assms e by (auto simp: cache_remove_def steady_def)
qed

lemma index_path_keeps [keeps_intros]: assumes "steady E I" shows "keeps I (index_path p)"
proof (rule keepsI)
  fix e assume e: "I e"
  then have "tls_inv (path_index e)" using assms by (simp add: steady_def shape_def)
  then obtain r i where "insert_path_if_absent (path_index e) p = Some (r, i)" "tls_inv i" using tls.add_law by blast
  then show "\<exists>r e'. index_path p e = Some (r, e') \<and> I e'" using assms e by (auto simp: index_path_def steady_def)
qed

lemma list_keys_keeps [keeps_intros]: assumes "steady E I" shows "keeps I (list_keys p)"
proof (rule keepsI)
  fix e assume e: "I e"
  then have "tls_inv (path_index e)" using assms by (simp add: steady_def shape_def)
  then show "\<exists>r e'. list_keys p e = Some (r, e') \<and> I e'"
    using tls.enum_sorted[of "path_index e"] e by (simp add: list_keys_def)
qed

lemma read_raw_keeps [keeps_intros]: assumes "steady E I" shows "keeps I (read_raw_optimistic E k f)"
proof (rule keepsI)
  fix e assume e: "I e"
  then have "sharded_inv (env_sip E) (kv_cache e)" using assms by (simp add: steady_def shape_def)
  then obtain r c where c: "sharded_lookup_map (env_sip E) (kv_cache e) k (\<lambda>entry. f (entry_payload entry)) = Some (r, c)"
    "sharded_inv (env_sip E) c" using sharded_lookup_map_spec by blast
  then have e': "I (e\<lparr>kv_cache := c\<rparr>)" using assms e by (simp add: steady_def)
  have "\<exists>r s'. andthen (cache_insert E k b) (\<lambda>_. ok (Some (f b))) (e\<lparr>kv_cache := c\<rparr>) = Some (r, s') \<and> I s'" for b
    by (rule keepsD[OF keeps_andthen[OF cache_insert_keeps[OF assms] keeps_basic(1)] e'])
  then show "\<exists>r e'. read_raw_optimistic E k f e = Some (r, e') \<and> I e'"
    using c(1) e' by (auto simp: read_raw_optimistic_def Let_def split: option.splits sum.splits)
qed

lemma enqueue_keeps [keeps_intros]: "steady E I \<Longrightarrow> keeps I (enqueue_or_execute E op)"
  by (simp add: steady_def)

lemma read_metadata_keeps [keeps_intros]: "steady E I \<Longrightarrow> keeps I (read_metadata E path)"
  unfolding read_metadata_def by (auto intro!: keeps_intros split: option.splits)

lemma read_or_default_keeps [keeps_intros]: "steady E I \<Longrightarrow> keeps I (read_or_default E path)"
  using keepsD[OF read_metadata_keeps[of E I path]] by (fastforce intro!: keepsI simp: read_or_default_def)

lemma store_metadata_keeps [keeps_intros]: "steady E I \<Longrightarrow> keeps I (store_metadata E path meta)"
  unfolding store_metadata_def by (intro keeps_intros)

lemma put_commit_keeps [keeps_intros]: "steady E I \<Longrightarrow> keeps I (put_commit E now path payload cas meta)"
  unfolding put_commit_def Let_def by (auto intro!: keeps_intros)

lemma read_version_keeps [keeps_intros]: "steady E I \<Longrightarrow> keeps I (read_version E path v)"
  unfolding read_version_def by (auto intro!: keeps_intros split: option.splits)

lemma kv_step_keeps: "steady E I \<Longrightarrow> keeps I (kv_step E req)"
  by (cases req) (auto simp: put_version_def soft_delete_def undelete_def destroy_version_def intro!: keeps_intros)

lemma shape_steady: "steady E (shape E)"
proof -
  have "\<exists>r e'. enqueue_or_execute E op e = Some (r, e') \<and> shape E e'" if "shape E e" for e op
  proof -
    have q: "lfq_inv (async_queue e)" using that by (simp add: shape_def)
    obtain r q' where "lfq_enqueue (async_queue e) op = Some (r, q')" "lfq_inv q'"
      using lfq.enq_law[OF q, of op] by (metis (full_types))
    then show ?thesis using that
      by (auto simp: enqueue_or_execute_def shape_def split: kv_op.splits prod.splits sum.splits)
  qed
  then show ?thesis by (auto simp: steady_def shape_def intro!: keepsI)
qed

lemma queueing_steady: "steady E (queueing E b xs)"
proof -
  have "\<exists>r e'. enqueue_or_execute E op e = Some (r, e') \<and> queueing E b xs e'" if e: "queueing E b xs e" for e op
  proof -
    have q: "lfq_inv (async_queue e)" "get_sync_mode e = Batch" using e by (simp_all add: queueing_def shape_def)
    obtain r q' where "lfq_enqueue (async_queue e) op = Some (r, q')" "lfq_inv q'" "\<exists>ys. lfq_items q' = lfq_items (async_queue e) @ ys"
      using lfq.enq_law[OF q(1), of op] by (metis (full_types) append_Nil2)
    then show ?thesis using e q(2) by (auto simp: enqueue_or_execute_def queueing_def shape_def)
  qed
  then show ?thesis by (auto simp: steady_def intro!: keepsI) (auto simp: queueing_def shape_def)
qed

section \<open>Properties\<close>


lemma mem_batch_engine:
  obtains e where "kv_open mem_env db_path = Some (Inr e)" "shape mem_env e" "get_sync_mode e = Batch" "lfq_items (async_queue e) = []"
    "disk mem_view (rocksdb e) = Map.empty"
proof -
  obtain e where e: "kv_open mem_env db_path = Some (Inr e)" "get_sync_mode e = Batch" "lfq_inv (async_queue e)"
    "lfq_items (async_queue e) = []" "disk mem_view (rocksdb e) = Map.empty" "kv_inv mem_env mem_view (change_sync_mode Immediate e)"
    by (rule mem_open)
  then have "shape mem_env e" by (auto simp: kv_inv_def kv_agrees_iff holds_def shape_def change_sync_mode_def)
  then show ?thesis using e that by blast
qed


text \<open>
  The executions of the engine and its worker in the batch mode: requests and passes of the worker in any order. The
  list holds the operations that the requests have put into the queue.
\<close>

inductive kv_run :: "('db, 'wb, 'it) env \<Rightarrow> 'db kv_engine \<Rightarrow> kv_op list \<Rightarrow> 'db kv_engine \<times> batch_op list \<Rightarrow> bool" for E e0 where
  kv_start: "kv_run E e0 [] (e0, [])"
| kv_request: "kv_run E e0 ops (e, bt) \<Longrightarrow> kv_step E req e = Some (r, e') \<Longrightarrow>
    kv_run E e0 (ops @ drop (length (lfq_items (async_queue e))) (lfq_items (async_queue e'))) (e', bt)"
| kv_worker: "kv_run E e0 ops (e, bt) \<Longrightarrow> async_worker_loop E t (e, bt) = Some (e', bt') \<Longrightarrow> kv_run E e0 ops (e', bt')"

definition flight :: "('db, 'wb, 'it) rocks_view \<Rightarrow> 'db kv_engine \<Rightarrow> batch_op list \<Rightarrow> contents" where
  "flight V e bt = apply_ops (in_flight lfq_items kv_batch_op (async_queue e) bt) (disk V (rocksdb e))"

lemma reliable_apply: "rocks_reliable R \<Longrightarrow> fst (apply_batch R b ops) = Inr ()"
  by (simp add: rocks_reliable_def apply_batch_def on_db_def)

lemma kv_request_flight:
  assumes "shape E e" "get_sync_mode e = Batch" "kv_step E req e = Some (r, e')"
  shows "shape E e' \<and> get_sync_mode e' = Batch \<and> flight V e' bt =
    apply_ops (map kv_batch_op (drop (length (lfq_items (async_queue e))) (lfq_items (async_queue e')))) (flight V e bt)"
proof -
  have q: "queueing E (rocksdb e) (lfq_items (async_queue e)) e" using assms by (simp add: queueing_def)
  then have "queueing E (rocksdb e) (lfq_items (async_queue e)) e'"
    using keepsD[OF kv_step_keeps[OF queueing_steady] q, of req] assms(3) by simp
  then show ?thesis by (auto simp: queueing_def flight_def in_flight_def)
qed

lemma kv_worker_flight:
  assumes "rocks_ok (env_rocks E) V" "rocks_reliable (env_rocks E)" "shape E e" "get_sync_mode e = Batch"
  shows "\<exists>e' bt'. async_worker_loop E t (e, bt) = Some (e', bt') \<and> shape E e' \<and> get_sync_mode e' = Batch \<and> flight V e' bt' = flight V e bt"
proof -
  have q: "lfq_inv (async_queue e)" using assms(3) by (simp add: shape_def)
  have rel: "fst (apply_batch (env_rocks E) b ops) = Inr ()" for b ops by (rule reliable_apply[OF assms(2)])
  show ?thesis using wb.iter_settles[OF q assms(1) rel, where s = "rocksdb e" and n = 1024 and t = t and bt = bt] assms(3,4)
    by (auto simp: async_worker_loop_def flight_def shape_def)
qed

lemma kv_run_flight:
  assumes "rocks_ok (env_rocks E) V" "rocks_reliable (env_rocks E)" "shape E e0" "get_sync_mode e0 = Batch" "kv_run E e0 ops s"
  shows "shape E (fst s) \<and> get_sync_mode (fst s) = Batch \<and> flight V (fst s) (snd s) = apply_ops (map kv_batch_op ops) (flight V e0 [])"
  using assms(5)
proof (induction rule: kv_run.induct)
  case kv_start
  then show ?case using assms by simp
next
  case (kv_request ops e bt req r e')
  then show ?case using kv_request_flight[of E e req r e' V bt] by simp
next
  case (kv_worker ops e bt t e' bt')
  then show ?case using kv_worker_flight[OF assms(1,2), of e t bt] by auto
qed

lemma kv_drop_flight:
  assumes "rocks_ok (env_rocks E) V" "rocks_reliable (env_rocks E)" "shape E e"
  shows "\<exists>e'. kv_drop E (e, bt) = Some e' \<and> disk V (rocksdb e') = flight V e bt \<and> lfq_items (async_queue e') = []"
proof -
  have q: "lfq_inv (async_queue e)" using assms(3) by (simp add: shape_def)
  have rel: "fst (apply_batch (env_rocks E) b ops) = Inr ()" for b ops by (rule reliable_apply[OF assms(2)])
  obtain q' b where x: "worker_exit lfq_dequeue kv_batch_op (apply_batch (env_rocks E)) (async_queue e, bt, rocksdb e) = Some (q', b)"
    "lfq_items q' = []" "disk V b = flight V e bt"
    using wb.exit_settles[OF q assms(1) rel, where s = "rocksdb e" and bt = bt] by (auto simp: flight_def)
  have "disk V (snd (backend_flush (env_rocks E) b)) = disk V b"
    using flush_effect[OF assms(1), of b "fst (backend_flush (env_rocks E) b)"] by simp
  then show ?thesis using x by (simp add: kv_drop_def)
qed



subsection \<open>Switching the mode\<close>

text \<open>An engine in the middle of a write: the operation is queued, the cache not updated yet.\<close>

lemma mem_queued_engine:
  obtains e where "shape mem_env e" "get_sync_mode e = Batch" "lfq_items (async_queue e) = [Kv_Put k v]"
    "sharded_view (env_sip mem_env) (kv_cache e) = Map.empty" "disk mem_view (rocksdb e) = Map.empty"
proof -
  obtain e0 where e0: "kv_open mem_env ''db'' = Some (Inr e0)" "get_sync_mode e0 = Batch" "lfq_inv (async_queue e0)"
    "lfq_items (async_queue e0) = []" "disk mem_view (rocksdb e0) = Map.empty" "kv_inv mem_env mem_view (change_sync_mode Immediate e0)"
    by (rule mem_open)
  have view: "sharded_view (env_sip mem_env) (kv_cache e0) = Map.empty" "shape mem_env e0"
    using e0(3,5,6) by (auto simp: kv_inv_def kv_agrees_iff holds_def shape_def change_sync_mode_def intro!: map_le_antisym[of _ Map.empty])
  have "0 < lfq_cap (async_queue e0)" using e0(3) by (auto simp: lfq_inv_def queue_ok_def ring_size_def lfq_cap_def)
  then obtain q where "lfq_inv q" "lfq_items q = [Kv_Put k v]" using lfq.enq_law[OF e0(3), of "Kv_Put k v"] e0(4) by auto
  then show ?thesis using that[of "e0\<lparr>async_queue := q\<rparr>"] view e0(2,5) by (simp add: shape_def)
qed

text \<open>
  C34: Switching to the immediate mode does not drain the queue: a write that is accepted after the switch goes to the disk at
  once, and when the worker later writes the older queued value of the same key, the newer value is overwritten.
\<close>

theorem mode_switch_reorders:
  assumes "env_ok E V" "shape E e" "get_sync_mode e = Batch" "lfq_items (async_queue e) = [Kv_Put key older]"
  shows "\<exists>e1 e2. enqueue_or_execute E (Kv_Put key newer) (change_sync_mode Immediate e) = Some (Inr (), e1)
    \<and> disk V (rocksdb e1) key = Some newer
    \<and> kv_drop E (e1, []) = Some e2 \<and> disk V (rocksdb e2) key = Some older"
proof -
  have R: "rocks_ok (env_rocks E) V" "rocks_reliable (env_rocks E)" using assms(1) by (simp_all add: env_ok_def)
  obtain r b where b: "put_raw (env_rocks E) (rocksdb e) key newer = (r, b)" by fastforce
  have "r = Inr ()" using R(2) b by (auto simp: put_raw_def on_db_def rocks_reliable_def)
  then have d: "disk V b = (disk V (rocksdb e))(key \<mapsto> newer)" using put_raw_effect[OF R(1) b] by simp
  let ?e1 = "(change_sync_mode Immediate e)\<lparr>rocksdb := b\<rparr>"
  have q: "async_queue ?e1 = async_queue e" "kv_cache ?e1 = kv_cache e" "path_index ?e1 = path_index e"
    "rocksdb (change_sync_mode Immediate e) = rocksdb e" by (simp_all add: change_sync_mode_def)
  have e1: "enqueue_or_execute E (Kv_Put key newer) (change_sync_mode Immediate e) = Some (Inr (), ?e1)"
    using b \<open>r = Inr ()\<close> by (simp add: enqueue_or_execute_def q(4))
  have "shape E ?e1" using assms(2) by (simp add: shape_def q(1-3))
  from kv_drop_flight[OF R this, of "[]"] obtain e2 where "kv_drop E (?e1, []) = Some e2" "disk V (rocksdb e2) = flight V ?e1 []" by blast
  then show ?thesis using e1 d assms(4) by (auto simp: flight_def in_flight_def q(1))
qed

theorem mode_switch_reorders_witness:
  "\<exists>e e1 e2. lfq_items (async_queue e) = [Kv_Put ''k'' ''older'']
    \<and> enqueue_or_execute mem_env (Kv_Put ''k'' ''newer'') (change_sync_mode Immediate e) = Some (Inr (), e1)
    \<and> kv_drop mem_env (e1, []) = Some e2 \<and> disk mem_view (rocksdb e2) ''k'' = Some ''older''"
proof -
  obtain e where e: "shape mem_env e" "get_sync_mode e = Batch" "lfq_items (async_queue e) = [Kv_Put ''k'' ''older'']"
    by (rule mem_queued_engine)
  show ?thesis using mode_switch_reorders[OF mem_env_ok e, of "''newer''"] e(3) by blast
qed

end
