(* ===== verification/Kv_Batch.thy ===== *)
theory Kv_Batch
  imports Kv_Failures Kv_Worker
begin

text \<open>
  The key-value engine in the batch mode, its default: requests are served while the worker thread writes the queued
  operations.  What such an engine holds are the effective contents of \<open>Kv_Refinement\<close>, the disk with everything that is under
  way applied.  As long as the keys that the requests read are cached or not under way, the engine keeps its contract over the
  effective store, with a full queue as its only failure, and what it holds is what the disk has after a shutdown.
  When a key is under way and no longer cached the contract is broken, and an acknowledged history can be lost.
\<close>

section \<open>The engine beside its worker\<close>

lemma stored_rkyv: "env_rkyv E' = env_rkyv E \<Longrightarrow> stored E' = stored E"
  by (intro ext) (simp add: stored_def stored_meta_def stored_payload_def[abs_def] deserialize_metadata_def)

text \<open>A request does not touch what the worker has taken from the queue.\<close>

definition batch_step :: "('db, 'wb, 'it) env \<Rightarrow> request \<Rightarrow> ('db kv_engine \<times> batch_op list, engine_error, answer) call" where
  "batch_step E req = (\<lambda>(e, bt). map_option (\<lambda>(r, e'). (r, e', bt)) (kv_step E req e))"

definition batch_worker :: "('db, 'wb, 'it) env \<Rightarrow> 'db kv_engine \<times> batch_op list \<Rightarrow> 'db kv_engine \<times> batch_op list \<Rightarrow> bool" where
  "batch_worker E s s' \<longleftrightarrow> (\<exists>t. async_worker_loop E t s = Some s')"

definition batch_store :: "('db, 'wb, 'it) env \<Rightarrow> ('db, 'wb, 'it) rocks_view \<Rightarrow> 'db kv_engine \<times> batch_op list \<Rightarrow> vstore" where
  "batch_store E V = (\<lambda>(e, bt). effective_store (Batch, bt) E V e)"

definition batch_agrees :: "('db, 'wb, 'it) env \<Rightarrow> ('db, 'wb, 'it) rocks_view \<Rightarrow> 'db kv_engine \<times> batch_op list \<Rightarrow> bool" where
  "batch_agrees E V = (\<lambda>(e, bt). rocks_reliable (env_rocks E) \<and> agrees (Batch, bt) E V e)"

definition batch_readable :: "('db, 'wb, 'it) env \<Rightarrow> ('db, 'wb, 'it) rocks_view \<Rightarrow> 'db kv_engine \<times> batch_op list \<Rightarrow> request \<Rightarrow> bool" where
  "batch_readable E V = (\<lambda>(e, bt). readable (Batch, bt) E V e)"

lemma wp_batch_step: "wp (batch_step E req) Q (e, bt) \<longleftrightarrow> wp (kv_step E req) (\<lambda>r e'. Q r (e', bt)) e"
  by (auto simp: wp_def batch_step_def)

lemma batch_step_law:
  assumes "batch_agrees E V s" "batch_readable E V s req"
  shows "wp (batch_step E req) (\<lambda>r s'. batch_agrees E V s' \<and> ((r, batch_store E V s') = spec_step req (batch_store E V s)
    \<or> (\<exists>err. err = QueueFull \<and> r = Inl err) \<and> batch_store E V s' \<in> torn req (batch_store E V s))) s"
proof -
  obtain e bt where s: "s = (e, bt)" by fastforce
  have rel: "rocks_reliable (env_rocks E)" and a: "agrees (Batch, bt) E V e" "readable (Batch, bt) E V e req"
    using assms by (simp_all add: s batch_agrees_def batch_readable_def)
  show ?thesis unfolding s wp_batch_step
    by (rule wp_mono[OF step_outcome[OF a]]) (auto simp: outcome_def has_store_def batch_agrees_def batch_store_def rel prod_eq_iff)
qed

section \<open>The work of the thread between the requests\<close>

text \<open>The executions of an engine that is allowed certain requests and works in the background between them.\<close>

inductive interleaved :: "('s \<Rightarrow> request \<Rightarrow> bool) \<Rightarrow> ('s \<Rightarrow> 's \<Rightarrow> bool) \<Rightarrow> (request \<Rightarrow> ('s, engine_error, answer) call)
    \<Rightarrow> request list \<Rightarrow> 's \<Rightarrow> (engine_error + answer) list \<Rightarrow> 's \<Rightarrow> bool" for allowed work step where
  no_more: "interleaved allowed work step [] s [] s"
| request: "allowed s req \<Longrightarrow> step req s = Some (r, s1) \<Longrightarrow> interleaved allowed work step reqs s1 rs s2 \<Longrightarrow>
    interleaved allowed work step (req # reqs) s (r # rs) s2"
| work: "work s s1 \<Longrightarrow> interleaved allowed work step reqs s1 rs s2 \<Longrightarrow> interleaved allowed work step reqs s rs s2"

locale background_engine = faulty_engine +
  fixes work :: "'a \<Rightarrow> 'a \<Rightarrow> bool"
  assumes work_law: "agreement s \<Longrightarrow> work s s' \<Longrightarrow> agreement s' \<and> store s' = store s"
begin

lemma interleaved_law:
  "interleaved allowed work step reqs s rs s' \<Longrightarrow> agreement s \<Longrightarrow> agreement s' \<and> faulty_run errors reqs (store s) rs (store s')"
proof (induction rule: interleaved.induct)
  case (request s req r s1 reqs rs s2)
  have "agreement s1 \<and> ((r, store s1) = spec_step req (store s) \<or> (\<exists>err. errors err \<and> r = Inl err) \<and> store s1 \<in> torn req (store s))"
    using step_law[OF request.prems request.hyps(1)] request.hyps(2) by (auto simp: wp_def)
  then show ?case using request.IH faulty_run_cons[of r "store s1" req "store s" errors reqs rs "store s2"] by blast
next
  case (work s s1 reqs rs s2)
  then show ?case using work_law[of s s1] by simp
qed (auto intro: faulty_run.intros)

end

lemma effective_flight: "effective B V e = flight V e (snd B)"
  by (simp add: effective_def flight_def in_flight_def)

lemma worker_parts:
  "async_worker_loop E t (e, bt) = Some (e', bt') \<Longrightarrow> kv_cache e' = kv_cache e \<and> path_index e' = path_index e \<and> sync_mode e' = sync_mode e"
  by (auto simp: async_worker_loop_def bind_eq_Some_conv split: prod.splits)

lemma batch_work_law:
  assumes "batch_agrees E V s" "batch_worker E s s'"
  shows "batch_agrees E V s' \<and> batch_store E V s' = batch_store E V s"
proof -
  obtain e bt e' bt' where s: "s = (e, bt)" "s' = (e', bt')" by fastforce
  obtain t where t: "async_worker_loop E t (e, bt) = Some (e', bt')" using assms(2) by (auto simp: batch_worker_def s)
  have rel: "rocks_reliable (env_rocks E)" and a: "agrees (Batch, bt) E V e" using assms(1) by (simp_all add: s batch_agrees_def)
  then have "rocks_ok (env_rocks E) V" "shape E e" "get_sync_mode e = Batch" by (auto simp: agrees_def holds_def env_sound_def shape_def)
  from kv_worker_flight[OF this(1) rel this(2,3), of t bt]
  have w: "shape E e'" "get_sync_mode e' = Batch" "effective (Batch, bt') V e' = effective (Batch, bt) V e"
    using t by (auto simp: effective_flight)
  have "agrees (Batch, bt') E V e'" using a w worker_parts[OF t] by (simp add: agrees_def holds_def shape_def)
  then show ?thesis using rel w(3) by (simp add: s batch_agrees_def batch_store_def effective_store_def)
qed

interpretation kvb: background_engine "\<lambda>err. err = QueueFull" "batch_agrees E V" "batch_readable E V" "batch_store E V" "batch_step E" "batch_worker E"
  for E :: "('db, 'wb, 'it) env" and V
  by unfold_locales (fact batch_step_law batch_work_law)+

section \<open>How much a request queues\<close>

text \<open>\<open>adds n m\<close>: the call puts at most \<open>n\<close> operations into the queue.\<close>

definition adds :: "nat \<Rightarrow> ('db, 'a) kv_call \<Rightarrow> bool" where
  "adds n m \<longleftrightarrow> (\<forall>e r e'. lfq_inv (async_queue e) \<longrightarrow> m e = Some (r, e') \<longrightarrow> lfq_inv (async_queue e')
     \<and> lfq_cap (async_queue e') = lfq_cap (async_queue e)
     \<and> length (lfq_items (async_queue e')) \<le> length (lfq_items (async_queue e)) + n)"

named_theorems adds_intros \<open>how many operations the calls queue\<close>

lemma adds_same: "(\<And>e r e'. m e = Some (r, e') \<Longrightarrow> async_queue e' = async_queue e) \<Longrightarrow> adds n m"
  unfolding adds_def by (metis le_add1)

lemma adds_basic [adds_intros]: "adds n (ok x)" "adds n (fail err)" "adds n (lift_result res)"
  by (intro adds_same; simp add: ok_def fail_def lift_result_def split: sum.splits)+

lemma adds_andthen:
  assumes "adds k m" "\<And>x. adds n (f x)"
  shows "adds (k + n) (andthen m f)"
  unfolding adds_def
proof (intro allI impI)
  fix e r e' assume e: "lfq_inv (async_queue e)" "andthen m f e = Some (r, e')"
  then obtain r1 e1 where e1: "m e = Some (r1, e1)" "(case r1 of Inl err \<Rightarrow> Some (Inl err, e1) | Inr x \<Rightarrow> f x e1) = Some (r, e')"
    by (auto simp: andthen_def bind_eq_Some_conv)
  have q: "lfq_inv (async_queue e1)" "lfq_cap (async_queue e1) = lfq_cap (async_queue e)"
    "length (lfq_items (async_queue e1)) \<le> length (lfq_items (async_queue e)) + k"
    using assms(1) e(1) e1(1) unfolding adds_def by blast+
  show "lfq_inv (async_queue e') \<and> lfq_cap (async_queue e') = lfq_cap (async_queue e)
     \<and> length (lfq_items (async_queue e')) \<le> length (lfq_items (async_queue e)) + (k + n)"
  proof (cases r1)
    case (Inr x)
    then show ?thesis using assms(2)[of x, unfolded adds_def] q e1(2) by fastforce
  qed (use e1(2) q in auto)
qed

lemmas adds_read = adds_andthen[where k = 0, unfolded add_0] and adds_write = adds_andthen[where k = 1, unfolded plus_1_eq_Suc]

lemma adds_parts [adds_intros]:
  "adds 0 (cache_insert E k v)" "adds 0 (cache_remove E k)" "adds 0 (index_path p)" "adds n (list_keys p)"
  by (rule adds_same; auto simp: cache_insert_def cache_remove_def index_path_def list_keys_def bind_eq_Some_conv split: prod.splits)+

lemma adds_raw [adds_intros]: "adds 0 (read_raw_optimistic E k f)"
  by (rule adds_same) (auto simp: read_raw_optimistic_def cache_insert_def andthen_def ok_def Let_def bind_eq_Some_conv
    split: option.splits sum.splits prod.splits)

lemma adds_enqueue [adds_intros]: "adds 1 (enqueue_or_execute E op)"
proof -
  have "lfq_inv q' \<and> lfq_cap q' = lfq_cap q \<and> length (lfq_items q') \<le> Suc (length (lfq_items q))"
    if "lfq_inv q" "lfq_enqueue q op = Some (r, q')" for q q' r
    using lfq.enq_law[OF that(1), of op] that(2) by (auto split: if_splits)
  then show ?thesis by (auto simp: adds_def enqueue_or_execute_def bind_eq_Some_conv split: kv_op.splits prod.splits sum.splits if_splits)
qed

lemma adds_read_metadata [adds_intros]: "adds 0 (read_metadata E path)"
  unfolding read_metadata_def by (intro adds_read adds_intros) (auto intro!: adds_intros split: option.splits)

lemma adds_read_or_default [adds_intros]: "adds 0 (read_or_default E path)"
  using adds_read_metadata[of E path] by (fastforce simp: adds_def read_or_default_def bind_eq_Some_conv)

lemma adds_store_metadata [adds_intros]: "adds 1 (store_metadata E path meta)"
  unfolding store_metadata_def One_nat_def by (intro adds_read adds_write[unfolded One_nat_def] adds_intros[unfolded One_nat_def])

lemma adds_mono: "adds k m \<Longrightarrow> k \<le> n \<Longrightarrow> adds n m"
  by (fastforce simp: adds_def)

lemma adds_put_commit [adds_intros]: "adds 2 (put_commit E now path payload cas meta)"
proof -
  have "adds (Suc (Suc 0)) (andthen (lift_result res) (\<lambda>bytes. andthen (enqueue_or_execute E (op bytes)) (\<lambda>_.
      andthen (cache_insert E k bytes) (\<lambda>_. andthen (store_metadata E path meta') (\<lambda>_. index_path path)))))" for res op k meta'
    by (rule adds_read[OF adds_basic(3)], rule adds_write[OF adds_enqueue], rule adds_read[OF adds_parts(1)],
      rule adds_write[OF adds_store_metadata], rule adds_parts(3))
  then show ?thesis by (auto simp: put_commit_def Let_def numeral_2_eq_2 intro: adds_basic)
qed

lemma adds_destroy_version [adds_intros]: "adds 2 (destroy_version E path v)"
  unfolding destroy_version_def numeral_2_eq_2
  by (rule adds_read[OF adds_read_metadata], rule adds_read[OF adds_basic(3)], rule adds_write[OF adds_enqueue],
    rule adds_read[OF adds_parts(2)], rule adds_store_metadata[unfolded One_nat_def])

lemma adds_read_version [adds_intros]: "adds 0 (read_version E path v)"
  unfolding read_version_def
  by (rule adds_read[OF adds_raw]) (auto intro!: adds_intros adds_read[OF adds_raw] split: option.splits)

lemma adds_then_answer: "adds n m \<Longrightarrow> (\<And>x. adds 0 (f x)) \<Longrightarrow> adds n (andthen m f)"
  using adds_andthen[of n m 0 f] by simp

lemma adds_kv_step: "adds 2 (kv_step E req)"
proof -
  have "adds 2 (andthen (read_metadata E path) (\<lambda>meta. andthen (lift_result (g meta)) (\<lambda>vss. store_metadata E path (h meta vss))))" for path g h
    by (rule adds_mono[OF adds_read[OF adds_read_metadata adds_read[OF adds_basic(3) adds_store_metadata]]]) simp
  then have "adds 2 (soft_delete E now path v)" "adds 2 (undelete E path v)" for now path v
    by (simp_all add: soft_delete_def undelete_def)
  moreover have "adds 2 (put_version E now path payload cas)" for now path payload cas
    unfolding put_version_def by (rule adds_read[OF adds_read_or_default adds_put_commit])
  moreover have "adds 2 (read_version E path v)" "adds 2 (read_metadata E path)" for path v
    by (rule adds_mono[OF adds_read_version], simp, rule adds_mono[OF adds_read_metadata], simp)
  ultimately show ?thesis
    by (cases req) (auto intro!: adds_then_answer adds_intros)
qed

text \<open>With three free places in the queue a request is never refused.\<close>

lemma batch_accepts:
  assumes "rocks_reliable (env_rocks E)" "agrees (Batch, bt) E V e" "readable (Batch, bt) E V e req"
    and "length (lfq_items (async_queue e)) + 2 < lfq_cap (async_queue e)"
  shows "\<exists>r e'. kv_step E req e = Some (r, e') \<and> agrees (Batch, bt) E V e'
    \<and> (r, effective_store (Batch, bt) E V e') = spec_step req (effective_store (Batch, bt) E V e)"
proof -
  obtain r e' where e': "kv_step E req e = Some (r, e')"
    "outcome (Batch, bt) E V (spec_step req (effective_store (Batch, bt) E V e)) (torn req (effective_store (Batch, bt) E V e)) r e'"
    using step_outcome[OF assms(2,3)] by (auto simp: wp_def)
  have "lfq_inv (async_queue e)" using assms(2) by (simp add: agrees_def holds_def)
  then have "\<not> queue_full e'" using adds_kv_step[of E req] e'(1) assms(4) unfolding adds_def queue_full_def by fastforce
  then show ?thesis using e' assms(1) by (auto simp: outcome_def has_store_def prod_eq_iff)
qed

section \<open>An engine in memory\<close>

lemma kv_open_room: "kv_open E db_path = Some (Inr e) \<Longrightarrow> lfq_cap (async_queue e) = 262144"
  by (auto simp: kv_open_def lfq_new_def lfq_cap_def bind_eq_Some_conv Let_def split: sum.splits if_splits option.splits)

lemma batch_open:
  assumes "kv_agrees E V (change_sync_mode Immediate e)" "get_sync_mode e = Batch" "lfq_items (async_queue e) = []"
  shows "agrees (Batch, []) E V e" "effective (Batch, []) V e = disk V (rocksdb e)"
proof -
  show "effective (Batch, []) V e = disk V (rocksdb e)" using assms(3) by (simp add: effective_def)
  then show "agrees (Batch, []) E V e" using assms by (simp add: kv_agrees_iff agrees_def holds_def kv_store_def) (simp add: change_sync_mode_def)
qed

text \<open>An acknowledged write that is still in the queue.\<close>

lemma mem_batch_put:
  obtains e0 e1 where "kv_open mem_env ''db'' = Some (Inr e0)" "agrees (Batch, []) mem_env mem_view e0"
    "effective_store (Batch, []) mem_env mem_view e0 = Map.empty" "readable (Batch, []) mem_env mem_view e0 (Put_Version now path payload None)"
    "kv_step mem_env (Put_Version now path payload None) e0 = Some (Inr Done, e1)" "agrees (Batch, []) mem_env mem_view e1"
    "effective_store (Batch, []) mem_env mem_view e1 = [path \<mapsto> add_version now payload (default_metadata, Map.empty)]"
    "disk mem_view (rocksdb e1) = Map.empty" "length (lfq_items (async_queue e1)) + 2 < lfq_cap (async_queue e1)"
proof -
  obtain e0 where e0: "kv_open mem_env ''db'' = Some (Inr e0)" "get_sync_mode e0 = Batch" "lfq_inv (async_queue e0)"
    "lfq_items (async_queue e0) = []" "disk mem_view (rocksdb e0) = Map.empty" "kv_inv mem_env mem_view (change_sync_mode Immediate e0)"
    "kv_store mem_env mem_view (change_sync_mode Immediate e0) = Map.empty" by (rule mem_open)
  have rel: "rocks_reliable (env_rocks mem_env)" using e0(6) by (simp add: kv_inv_def)
  note b = batch_open[OF _ e0(2,4), of mem_env mem_view]
  have a: "agrees (Batch, []) mem_env mem_view e0" using b(1) e0(6) by (simp add: kv_inv_def)
  have st: "effective_store (Batch, []) mem_env mem_view e0 = Map.empty"
    using b(2) e0(6,7) by (simp add: kv_inv_def effective_store_def kv_store_def) (simp add: change_sync_mode_def)
  have rd: "readable (Batch, []) mem_env mem_view e0 req" for req by (rule settled_readable) (use b(2) e0(6) in \<open>simp add: kv_inv_def\<close>)
  let ?put = "Put_Version now path payload None"
  obtain e1 where e1: "kv_step mem_env ?put e0 = Some (Inr Done, e1)" "agrees (Batch, []) mem_env mem_view e1"
    "effective_store (Batch, []) mem_env mem_view e1 = [path \<mapsto> add_version now payload (default_metadata, Map.empty)]"
    using batch_accepts[OF rel a rd, of ?put] e0(4) kv_open_room[OF e0(1)] by (auto simp: st spec_put_def secret_at_def)
  have q: "queueing mem_env (rocksdb e0) [] e0" using a e0(2) by (simp add: queueing_def shape_def agrees_def holds_def)
  have "rocksdb e1 = rocksdb e0" using keepsD[OF kv_step_keeps[OF queueing_steady] q, of ?put] e1(1) by (simp add: queueing_def)
  moreover have "length (lfq_items (async_queue e1)) + 2 < lfq_cap (async_queue e1)"
    using adds_kv_step[of mem_env ?put] e0(3,4) e1(1) kv_open_room[OF e0(1)] unfolding adds_def by fastforce
  ultimately show ?thesis using that[OF e0(1) a st rd e1] e0(5) by simp
qed

text \<open>A read of the metadata that misses what is under way.\<close>

lemma missed_read:
  assumes "env_ok E V" "sharded_inv (env_sip E) (kv_cache e)"
    and "sharded_view (env_sip E) (kv_cache e) (build_meta_key path) = None" "disk V (rocksdb e) (build_meta_key path) = None"
  shows "\<exists>t. read_or_default E path e = Some (Inr default_metadata, e\<lparr>kv_cache := t\<rparr>) \<and> sharded_inv (env_sip E) t
    \<and> sharded_view (env_sip E) t = sharded_view (env_sip E) (kv_cache e)"
proof -
  obtain t where t: "sharded_lookup_map (env_sip E) (kv_cache e) (build_meta_key path) (\<lambda>entry. deserialize_metadata E (entry_payload entry)) = Some (None, t)"
    "sharded_inv (env_sip E) t" "sharded_view (env_sip E) t = sharded_view (env_sip E) (kv_cache e)"
    using sharded_lookup_map_spec[OF assms(2), of "build_meta_key path"] assms(3) by fastforce
  moreover have "get_raw (env_rocks E) (rocksdb e) (build_meta_key path) = Inr None"
    using get_raw_ok[of "env_rocks E" V] assms(1,4) unfolding env_ok_def rocks_reliable_def get_raw_def by metis
  ultimately show ?thesis by (intro exI[of _ t]) (simp add: read_or_default_def read_metadata_def read_raw_optimistic_def andthen_def fail_def)
qed

text \<open>A pass of the worker and then a listing.\<close>

lemma pass_and_list:
  assumes "env_ok E V" "agrees (Batch, bt) E V e"
  shows "\<exists>rs e' bt'. interleaved (batch_readable E V) (batch_worker E) (batch_step E) [List_Keys prefix] (e, bt) rs (e', bt')
    \<and> effective_store (Batch, bt') E V e' = effective_store (Batch, bt) E V e"
proof -
  have R: "rocks_ok (env_rocks E) V" "rocks_reliable (env_rocks E)" using assms(1) by (simp_all add: env_ok_def)
  have a: "batch_agrees E V (e, bt)" using assms(2) R(2) by (simp add: batch_agrees_def)
  have "shape E e" "get_sync_mode e = Batch" using assms(2) by (simp_all add: agrees_def holds_def shape_def)
  then obtain s1 where s1: "batch_worker E (e, bt) s1" using kv_worker_flight[OF R, of e True bt] by (auto simp: batch_worker_def)
  have b: "batch_agrees E V s1" "batch_store E V s1 = batch_store E V (e, bt)" using batch_work_law[OF a s1] by simp_all
  have rd: "batch_readable E V s1 (List_Keys prefix)" by (simp add: batch_readable_def case_prod_beta)
  obtain r e2 bt2 where s2: "batch_step E (List_Keys prefix) s1 = Some (r, e2, bt2)" "batch_store E V (e2, bt2) = batch_store E V s1"
    using batch_step_law[OF b(1) rd] by (auto simp: wp_def)
  have "interleaved (batch_readable E V) (batch_worker E) (batch_step E) [List_Keys prefix] (e, bt) [r] (e2, bt2)"
    by (rule interleaved.work, rule s1, rule interleaved.request, rule rd, rule s2(1), rule interleaved.no_more)
  moreover have "effective_store (Batch, bt2) E V e2 = effective_store (Batch, bt) E V e" using s2(2) b(2) by (simp add: batch_store_def)
  ultimately show ?thesis by blast
qed

section \<open>Properties\<close>

text \<open>
  C2: The engine keeps its contract in the batch mode: for every interleaving of requests and passes of the worker, with a
  database whose writes succeed, as long as the keys that a request reads are in the cache or not under way, each request
  answers and changes the store as the contract says, or reports a full queue and leaves one of the stores of \<open>torn\<close>.
  The store is the disk with everything that is under way applied; the cache and the index agree with it, and
  it is what the disk holds when the engine is dropped.
\<close>

theorem batch_keeps_contract:
  assumes "env_ok E V" "agrees (Batch, bt) E V e"
    and "interleaved (batch_readable E V) (batch_worker E) (batch_step E) reqs (e, bt) rs (e', bt')"
  shows "agrees (Batch, bt') E V e'
    \<and> faulty_run (\<lambda>err. err = QueueFull) reqs (effective_store (Batch, bt) E V e) rs (effective_store (Batch, bt') E V e')
    \<and> (\<exists>e''. kv_drop E (e', bt') = Some e'' \<and> stored E (disk V (rocksdb e'')) = effective_store (Batch, bt') E V e')"
proof -
  have R: "rocks_ok (env_rocks E) V" "rocks_reliable (env_rocks E)" using assms(1) by (simp_all add: env_ok_def)
  have "batch_agrees E V (e, bt)" using assms(2) R(2) by (simp add: batch_agrees_def)
  note run = kvb.interleaved_law[OF assms(3) this, unfolded batch_agrees_def batch_store_def prod.case]
  then have "shape E e'" by (simp add: shape_def agrees_def holds_def)
  from kv_drop_flight[OF R this, of bt'] show ?thesis using run by (auto simp: effective_store_def effective_flight)
qed

theorem batch_keeps_contract_witness:
  "\<exists>e rs e' bt' e''. kv_open mem_env ''db'' = Some (Inr e)
    \<and> interleaved (batch_readable mem_env mem_view) (batch_worker mem_env) (batch_step mem_env)
        [Put_Version 7 ''a'' \<lparr>payload_value = ''x'', payload_ttl = 0\<rparr> None, List_Keys []] (e, []) (Inr Done # rs) (e', bt')
    \<and> faulty_run (\<lambda>err. err = QueueFull) [Put_Version 7 ''a'' \<lparr>payload_value = ''x'', payload_ttl = 0\<rparr> None, List_Keys []]
        Map.empty (Inr Done # rs) (effective_store (Batch, bt') mem_env mem_view e')
    \<and> kv_drop mem_env (e', bt') = Some e''
    \<and> stored mem_env (disk mem_view (rocksdb e'')) = effective_store (Batch, bt') mem_env mem_view e'"
proof -
  let ?put = "Put_Version 7 ''a'' \<lparr>payload_value = ''x'', payload_ttl = 0\<rparr> None"
  obtain e0 e1 where e: "kv_open mem_env ''db'' = Some (Inr e0)" "agrees (Batch, []) mem_env mem_view e0"
    "effective_store (Batch, []) mem_env mem_view e0 = Map.empty" "readable (Batch, []) mem_env mem_view e0 ?put"
    "kv_step mem_env ?put e0 = Some (Inr Done, e1)" "agrees (Batch, []) mem_env mem_view e1" by (rule mem_batch_put)
  obtain rs e2 bt where run: "interleaved (batch_readable mem_env mem_view) (batch_worker mem_env) (batch_step mem_env) [List_Keys []] (e1, []) rs (e2, bt)"
    using pass_and_list[OF mem_env_ok e(6)] by blast
  have "interleaved (batch_readable mem_env mem_view) (batch_worker mem_env) (batch_step mem_env) [?put, List_Keys []] (e0, []) (Inr Done # rs) (e2, bt)"
    by (rule interleaved.request[OF _ _ run]) (simp_all only: batch_readable_def batch_step_def prod.case e(4,5) option.map)
  then show ?thesis using batch_keeps_contract[OF mem_env_ok e(2)] e(1,3) by metis
qed


text \<open>The environment after a restart on the database \<open>d\<close>.\<close>

definition reopened :: "'db \<Rightarrow> ('db, 'wb, 'it) env \<Rightarrow> ('db, 'wb, 'it) env" where
  "reopened d E = E\<lparr>env_rocks := (env_rocks E)\<lparr>db_open := (\<lambda>_. Inr d)\<rparr>\<rparr>"

lemma reopened_ok:
  assumes "env_ok E V"
  shows "env_ok (reopened d E) V" "env_rkyv (reopened d E) = env_rkyv E" "env_node_size (reopened d E) = env_node_size E"
    "db_open (env_rocks (reopened d E)) db_path = Inr d"
  using assms by (auto simp: env_ok_def reopened_def rocks_ok_def rocks_reliable_def writes_ok_def reads_ok_def iterator_ok_def effect_def Let_def)


text \<open>
  C33: In the batch mode an acknowledged history can be lost: when the metadata of a path are under way to the disk and no longer in
  the cache, \<open>put_version\<close> takes the path for a new one.  Even with check-and-set at version 0 it succeeds, and queues
  metadata with the one version 1 after those that hold the history; all versions written before are gone.
\<close>

theorem batch_put_loses_history:
  assumes "env_ok E V" "agrees (Batch, bt) E V e" "effective_store (Batch, bt) E V e path = Some (meta, pl)"
    and "sharded_view (env_sip E) (kv_cache e) (build_meta_key path) = None" "disk V (rocksdb e) (build_meta_key path) = None"
    and "length (lfq_items (async_queue e)) + 2 < lfq_cap (async_queue e)"
  shows "\<exists>e'. kv_step E (Put_Version now path payload (Some 0)) e = Some (Inr Done, e') \<and> agrees (Batch, bt) E V e'
    \<and> effective_store (Batch, bt) E V e' = (effective_store (Batch, bt) E V e)(path \<mapsto> add_version now payload (default_metadata, Map.empty))"
proof -
  define m where "m = effective (Batch, bt) V e"
  have h: "holds (Batch, bt) E V m m (dom (stored E m)) e" and rel: "rocks_reliable (env_rocks E)" and st: "effective_store (Batch, bt) E V e = stored E m"
    using assms(1,2) by (simp_all add: agrees_def m_def env_ok_def effective_store_def)
  have p: "path \<in> dom (stored E m)" using assms(3) by (auto simp: st)
  obtain t where t: "read_or_default E path e = Some (Inr default_metadata, e\<lparr>kv_cache := t\<rparr>)" "sharded_inv (env_sip E) t"
      "sharded_view (env_sip E) t = sharded_view (env_sip E) (kv_cache e)"
    using missed_read[OF assms(1) _ assms(4,5)] h by (auto simp: holds_def)
  have e1: "holds (Batch, bt) E V m m (dom (stored E m)) (e\<lparr>kv_cache := t\<rparr>)" using h t(2,3) by (simp add: holds_def)
  let ?Q = "\<lambda>r e'. r = Inr () \<and> has_store (Batch, bt) E V ((stored E m)(path \<mapsto> add_version now payload (default_metadata, Map.empty))) e' \<or> queue_full e'"
  have "wp (put_commit E now path payload (Some 0) default_metadata) ?Q (e\<lparr>kv_cache := t\<rparr>)"
  proof (rule put_commit_rule[OF e1], goal_cases)
    case (3 m' e')
    have "has_store (Batch, bt) E V (stored E m') e'" by (rule has_storeI[OF 3(2) refl]) (use 3(3) p in auto)
    then show ?case using 3(3) by (simp add: default_metadata_def)
  qed (auto simp: default_metadata_def rel)
  then obtain r e' where e': "put_commit E now path payload (Some 0) default_metadata (e\<lparr>kv_cache := t\<rparr>) = Some (r, e')" "?Q r e'"
    by (auto simp: wp_def)
  have step: "kv_step E (Put_Version now path payload (Some 0)) e = Some (map_sum id (\<lambda>_. Done) r, e')"
    using t(1) e'(1) by (cases r) (simp_all add: put_version_def andthen_def ok_def)
  have "lfq_inv (async_queue e)" using h by (simp add: holds_def)
  then have "\<not> queue_full e'" using adds_kv_step[of E "Put_Version now path payload (Some 0)"] step assms(6) unfolding adds_def queue_full_def by fastforce
  then show ?thesis using e'(2) step by (auto simp: has_store_def st)
qed

theorem batch_put_loses_history_witness:
  "\<exists>e e'. effective_store (Batch, []) mem_env mem_view e
      = [''a'' \<mapsto> add_version 7 \<lparr>payload_value = ''x'', payload_ttl = 0\<rparr> (default_metadata, Map.empty)]
    \<and> kv_step mem_env (Put_Version 8 ''a'' \<lparr>payload_value = ''y'', payload_ttl = 0\<rparr> (Some 0)) e = Some (Inr Done, e')
    \<and> effective_store (Batch, []) mem_env mem_view e'
      = [''a'' \<mapsto> add_version 8 \<lparr>payload_value = ''y'', payload_ttl = 0\<rparr> (default_metadata, Map.empty)]"
proof -
  obtain e1 where e: "agrees (Batch, []) mem_env mem_view e1"
    "effective_store (Batch, []) mem_env mem_view e1 = [''a'' \<mapsto> add_version 7 \<lparr>payload_value = ''x'', payload_ttl = 0\<rparr> (default_metadata, Map.empty)]"
    "disk mem_view (rocksdb e1) = Map.empty" "length (lfq_items (async_queue e1)) + 2 < lfq_cap (async_queue e1)" by (rule mem_batch_put)
  obtain c where c: "sharded_inv (env_sip mem_env) c" "sharded_view (env_sip mem_env) c = Map.empty"
    using sharded_new_spec[of "256 * 1024" "env_sip mem_env"] by auto
  let ?e = "e1\<lparr>kv_cache := c\<rparr>"
  have a: "agrees (Batch, []) mem_env mem_view ?e" using e(1) c by (simp add: agrees_def holds_def)
  have st: "effective_store (Batch, []) mem_env mem_view ?e = [''a'' \<mapsto> add_version 7 \<lparr>payload_value = ''x'', payload_ttl = 0\<rparr> (default_metadata, Map.empty)]"
    using e(2) by (simp add: effective_store_def)
  obtain meta pl where s: "effective_store (Batch, []) mem_env mem_view ?e ''a'' = Some (meta, pl)" by (simp add: st add_version_def Let_def)
  have "\<exists>e'. kv_step mem_env (Put_Version 8 ''a'' \<lparr>payload_value = ''y'', payload_ttl = 0\<rparr> (Some 0)) ?e = Some (Inr Done, e')
    \<and> effective_store (Batch, []) mem_env mem_view e' = [''a'' \<mapsto> add_version 8 \<lparr>payload_value = ''y'', payload_ttl = 0\<rparr> (default_metadata, Map.empty)]"
    using batch_put_loses_history[OF mem_env_ok a s, of 8 "\<lparr>payload_value = ''y'', payload_ttl = 0\<rparr>"] c(2) e(3,4)
    by (auto simp: st simp del: kv_step.simps)
  then show ?thesis using st by blast
qed

end
