(* ===== verification/Engine_Registry.thy ===== *)
theory Engine_Registry
  imports Kv_Engine "HOL-Library.AList"
begin

text \<open>
  The mounted engines (\<^verbatim>\<open>src/engine/engine_registry.rs\<close>) and the core of the server (\<^verbatim>\<open>src/lib.rs\<close>).  An
  \<^verbatim>\<open>Arc<dyn SecretEngine>\<close> is an address in a heap of engines, so that two holders of the same \<^verbatim>\<open>Arc\<close> see each
  other's changes; the methods of the trait are the record \<open>engine_ops\<close>.  The map of a registry is an
  association list with one entry for each prefix, whose order is the unspecified order of iteration of a \<^verbatim>\<open>HashMap\<close>.
\<close>

record 's engine_ops =
  op_read_version :: "string \<Rightarrow> u32 \<Rightarrow> ('s, engine_error, secret_payload \<times> version_state) call"
  op_read_metadata :: "string \<Rightarrow> ('s, engine_error, key_metadata) call"
  op_put_version :: "u64 \<Rightarrow> string \<Rightarrow> secret_payload \<Rightarrow> u32 option \<Rightarrow> ('s, engine_error, unit) call"
  op_soft_delete :: "u64 \<Rightarrow> string \<Rightarrow> u32 \<Rightarrow> ('s, engine_error, unit) call"
  op_undelete :: "string \<Rightarrow> u32 \<Rightarrow> ('s, engine_error, unit) call"
  op_destroy_version :: "string \<Rightarrow> u32 \<Rightarrow> ('s, engine_error, unit) call"
  op_list_keys :: "string \<Rightarrow> ('s, engine_error, string list) call"
  op_force_flush :: "('s, engine_error, unit) call"

definition kv_ops :: "('db, 'wb, 'it) env \<Rightarrow> 'db kv_engine engine_ops" where
  "kv_ops E = \<lparr>op_read_version = read_version E, op_read_metadata = read_metadata E, op_put_version = put_version E,
     op_soft_delete = soft_delete E, op_undelete = undelete E, op_destroy_version = destroy_version E,
     op_list_keys = list_keys, op_force_flush = force_flush E\<rparr>"

lemma kv_ops_sel [simp]:
  "op_read_version (kv_ops E) = read_version E" "op_read_metadata (kv_ops E) = read_metadata E"
  "op_put_version (kv_ops E) = put_version E" "op_soft_delete (kv_ops E) = soft_delete E" "op_undelete (kv_ops E) = undelete E"
  "op_destroy_version (kv_ops E) = destroy_version E" "op_list_keys (kv_ops E) = list_keys" "op_force_flush (kv_ops E) = force_flush E"
  by (simp_all add: kv_ops_def)

record 's engine_registry =
  engines :: "(string \<times> nat) list"
  heap :: "nat \<Rightarrow> 's option"

definition registry_new :: "'s engine_registry" where
  "registry_new = \<lparr>engines = [], heap = Map.empty\<rparr>"

definition mount :: "string \<Rightarrow> nat \<Rightarrow> 's engine_registry \<Rightarrow> 's engine_registry" where
  "mount prefix engine reg = (let new_map = AList.update prefix engine (engines reg) in reg\<lparr>engines := new_map\<rparr>)"

definition resolve :: "string \<Rightarrow> 's engine_registry \<Rightarrow> nat option" where
  "resolve prefix reg = map_of (engines reg) prefix"

definition mounted_prefixes :: "'s engine_registry \<Rightarrow> string list" where
  "mounted_prefixes reg = map fst (engines reg)"

text \<open>The errors of the single flushes are ignored.\<close>

definition flush_one :: "'s engine_ops \<Rightarrow> nat \<Rightarrow> 's engine_registry \<Rightarrow> 's engine_registry option" where
  "flush_one K engine reg = do {
     s \<leftarrow> heap reg engine;
     (r, s') \<leftarrow> op_force_flush K s;
     Some (reg\<lparr>heap := (heap reg)(engine \<mapsto> s')\<rparr>)
   }"

definition flush_all :: "'s engine_ops \<Rightarrow> 's engine_registry \<Rightarrow> 's engine_registry option" where
  "flush_all K reg = foldm (flush_one K) (map snd (engines reg)) reg"

section \<open>The core\<close>

record 's kallisto_core =
  registry :: "'s engine_registry"
  default_kv :: nat

definition core_new :: "('db, 'wb, 'it) env \<Rightarrow> string \<Rightarrow> (engine_error + 'db kv_engine kallisto_core) option" where
  "core_new E db_path = do {
     let reg = registry_new;
     r \<leftarrow> kv_open E db_path;
     Some (case r of
       Inl err \<Rightarrow> Inl err
     | Inr kv \<Rightarrow>
         (let reg = reg\<lparr>heap := (heap reg)(0 \<mapsto> kv)\<rparr>;
              reg = mount ''secret'' 0 reg
          in Inr \<lparr>registry = reg, default_kv = 0\<rparr>))
   }"

definition core_change_sync_mode :: "sync_mode \<Rightarrow> 'db kv_engine kallisto_core \<Rightarrow> 'db kv_engine kallisto_core option" where
  "core_change_sync_mode mode c = do {
     kv \<leftarrow> heap (registry c) (default_kv c);
     Some (c\<lparr>registry := (registry c)\<lparr>heap := (heap (registry c))(default_kv c \<mapsto> change_sync_mode mode kv)\<rparr>\<rparr>)
   }"

definition core_force_flush :: "('db, 'wb, 'it) env \<Rightarrow> 'db kv_engine kallisto_core \<Rightarrow> 'db kv_engine kallisto_core option" where
  "core_force_flush E c = do {
     reg \<leftarrow> flush_all (kv_ops E) (registry c);
     Some (c\<lparr>registry := reg\<rparr>)
   }"

section \<open>Laws\<close>

definition registry_wf :: "'s engine_registry \<Rightarrow> bool" where
  "registry_wf reg \<longleftrightarrow> distinct (map fst (engines reg)) \<and> snd ` set (engines reg) \<subseteq> dom (heap reg)"

lemma registry_new_wf: "registry_wf registry_new"
  by (simp add: registry_wf_def registry_new_def)

lemma update_snd: "snd ` set (AList.update k v al) \<subseteq> insert v (snd ` set al)"
  by (induction al) auto

lemma mount_wf: "registry_wf reg \<Longrightarrow> r \<in> dom (heap reg) \<Longrightarrow> registry_wf (mount p r reg)"
  using update_snd[of p r "engines reg"] by (auto simp: registry_wf_def mount_def distinct_update)

lemma resolve_mount [simp]: "resolve q (mount p r reg) = (if q = p then Some r else resolve q reg)"
  by (simp add: resolve_def mount_def update_conv')

lemma mounted_iff: "p \<in> set (mounted_prefixes reg) \<longleftrightarrow> resolve p reg \<noteq> None"
  by (auto simp: mounted_prefixes_def resolve_def map_of_eq_None_iff)

lemma resolve_live: "registry_wf reg \<Longrightarrow> resolve p reg = Some r \<Longrightarrow> \<exists>s. heap reg r = Some s"
  by (auto simp: registry_wf_def resolve_def dest!: map_of_SomeD)

text \<open>Flushing reaches every mounted engine and returns, whatever the single flushes answer.\<close>

lemma foldm_flush:
  assumes "\<And>s. I s \<Longrightarrow> \<exists>r s'. op_force_flush K s = Some (r, s') \<and> I s' \<and> P s s'" "\<And>s. P s s" "\<And>a b c. P a b \<Longrightarrow> P b c \<Longrightarrow> P a c"
    and "set rs \<subseteq> dom (heap reg)" "\<forall>s \<in> ran (heap reg). I s"
  shows "\<exists>reg'. foldm (flush_one K) rs reg = Some reg' \<and> engines reg' = engines reg \<and> (\<forall>s \<in> ran (heap reg'). I s)
    \<and> (\<forall>r. rel_option P (heap reg r) (heap reg' r))"
  using assms(4,5)
proof (induction rs arbitrary: reg)
  case Nil
  then show ?case using assms(2) by (auto simp: option.rel_refl)
next
  case (Cons a rs)
  obtain s where s: "heap reg a = Some s" "I s" using Cons.prems by (auto simp: ran_def)
  obtain x s' where s': "op_force_flush K s = Some (x, s')" "I s'" "P s s'" using assms(1)[OF s(2)] by blast
  let ?reg = "reg\<lparr>heap := (heap reg)(a \<mapsto> s')\<rparr>"
  have one: "flush_one K a reg = Some ?reg" using s s' by (simp add: flush_one_def)
  have live: "\<forall>s \<in> ran (heap ?reg). I s" using Cons.prems(2) s'(2) by (auto simp: ran_def)
  have "set rs \<subseteq> dom (heap ?reg)" using Cons.prems(1) by auto
  from Cons.IH[OF this live] obtain reg' where reg': "foldm (flush_one K) rs ?reg = Some reg'" "engines reg' = engines reg"
    "\<forall>s \<in> ran (heap reg'). I s" "\<forall>r. rel_option P (heap ?reg r) (heap reg' r)" by auto
  have "rel_option P (heap reg r) (heap reg' r)" for r
  proof (cases "r = a")
    case True
    then show ?thesis using reg'(4)[rule_format, of a] s(1) s'(3) assms(3) by (auto simp: option_rel_Some1)
  next
    case False
    then show ?thesis using reg'(4)[rule_format, of r] by simp
  qed
  then show ?case using one reg' by auto
qed

end
