(* ===== verification/Sys_Handler.thy ===== *)
theory Sys_Handler
  imports Engine_Registry
begin

text \<open>
  The endpoints with fixed answers (\<^verbatim>\<open>src/server/sys_handler.rs\<close>, \<^verbatim>\<open>src/server/admin_handler.rs\<close>) and the administration
  endpoints over the core (\<^verbatim>\<open>kallisto_cluster/src/admin_http.rs\<close>).  The documents built with \<^verbatim>\<open>json!\<close> are values of
  the datatype \<open>document\<close>; \<^verbatim>\<open>axum\<close> and \<^verbatim>\<open>serde_json\<close> turn them into text.
\<close>

datatype document = D_Bool bool | D_Nat nat | D_Str string | D_Obj "(string \<times> document) list"

definition health_check :: document where
  "health_check = D_Obj [
     (''initialized'', D_Bool True),
     (''sealed'', D_Bool False),
     (''standby'', D_Bool False),
     (''performance_standby'', D_Bool False),
     (''replication_performance_mode'', D_Str ''disabled''),
     (''replication_dr_mode'', D_Str ''disabled''),
     (''server_time_utc'', D_Nat 0),
     (''version'', D_Str ''1.13.0''),
     (''cluster_name'', D_Str ''kallisto-cluster''),
     (''cluster_id'', D_Str ''mock-cluster-id'')]"

definition get_mounts :: document where
  "get_mounts = D_Obj [
     (''secret/'', D_Obj [
        (''accessor'', D_Str ''kv_mock''),
        (''config'', D_Obj [
           (''default_lease_ttl'', D_Nat 0),
           (''force_no_cache'', D_Bool False),
           (''max_lease_ttl'', D_Nat 0)]),
        (''description'', D_Str ''key/value secret storage''),
        (''local'', D_Bool False),
        (''options'', D_Obj [(''version'', D_Str ''2'')]),
        (''seal_wrap'', D_Bool False),
        (''type'', D_Str ''kv''),
        (''uuid'', D_Str ''mock-uuid'')])]"

definition get_internal_ui_mounts :: document where
  "get_internal_ui_mounts = D_Obj [
     (''options'', D_Obj [(''version'', D_Str ''2'')]),
     (''path'', D_Str ''secret/''),
     (''type'', D_Str ''kv'')]"

definition seal_status :: document where
  "seal_status = D_Obj [
     (''type'', D_Str ''shamir''),
     (''initialized'', D_Bool True),
     (''sealed'', D_Bool False),
     (''t'', D_Nat 1),
     (''n'', D_Nat 1),
     (''progress'', D_Nat 0),
     (''nonce'', D_Str ''''),
     (''version'', D_Str ''1.13.0''),
     (''migration'', D_Bool False),
     (''cluster_name'', D_Str ''kallisto-cluster''),
     (''cluster_id'', D_Str ''mock-cluster-id''),
     (''recovery_seal'', D_Bool False)]"

section \<open>Administration\<close>

text \<open>The endpoints of \<^verbatim>\<open>admin_handler.rs\<close> answer without looking at the engines.\<close>

definition set_batch_mode :: document where
  "set_batch_mode = D_Str ''OK''"

definition set_immediate_mode :: document where
  "set_immediate_mode = D_Str ''OK''"

text \<open>The endpoints of the administration server: status code and document.\<close>

definition handle_save :: "('db, 'wb, 'it) env \<Rightarrow> 'db kv_engine kallisto_core \<Rightarrow> ((nat \<times> document) \<times> 'db kv_engine kallisto_core) option" where
  "handle_save E c = do {
     c \<leftarrow> core_force_flush E c;
     Some ((200, D_Obj [(''status'', D_Str ''OK''), (''message'', D_Str ''Database flushed to disk.'')]), c)
   }"

definition handle_mode_batch :: "'db kv_engine kallisto_core \<Rightarrow> ((nat \<times> document) \<times> 'db kv_engine kallisto_core) option" where
  "handle_mode_batch c = do {
     c \<leftarrow> core_change_sync_mode Batch c;
     Some ((200, D_Obj [(''status'', D_Str ''OK''), (''message'', D_Str ''Mode changed to BATCH.'')]), c)
   }"

definition handle_mode_immediate :: "'db kv_engine kallisto_core \<Rightarrow> ((nat \<times> document) \<times> 'db kv_engine kallisto_core) option" where
  "handle_mode_immediate c = do {
     c \<leftarrow> core_change_sync_mode Immediate c;
     Some ((200, D_Obj [(''status'', D_Str ''OK''), (''message'', D_Str ''Mode changed to IMMEDIATE.'')]), c)
   }"

definition handle_status :: "string \<Rightarrow> nat \<times> document" where
  "handle_status pkg_version =
     (200, D_Obj [
        (''status'', D_Str ''OK''),
        (''version'', D_Str pkg_version),
        (''features'', D_Obj [
           (''control_plane_port'', D_Nat 8202),
           (''data_plane_port'', D_Nat 8200)])])"

datatype admin_request = Admin_Flush | Admin_Mode_Batch | Admin_Mode_Immediate | Admin_Status

fun admin_serve :: "('db, 'wb, 'it) env \<Rightarrow> string \<Rightarrow> admin_request \<Rightarrow> 'db kv_engine kallisto_core
    \<Rightarrow> ((nat \<times> document) \<times> 'db kv_engine kallisto_core) option" where
  "admin_serve E pkg_version Admin_Flush c = handle_save E c"
| "admin_serve E pkg_version Admin_Mode_Batch c = handle_mode_batch c"
| "admin_serve E pkg_version Admin_Mode_Immediate c = handle_mode_immediate c"
| "admin_serve E pkg_version Admin_Status c = Some (handle_status pkg_version, c)"

end
