(* ===== verification/Sonic_Json.thy ===== *)
theory Sonic_Json
  imports Engine_Types "HOL-Library.AList"
begin

text \<open>
  The two routines of \<^verbatim>\<open>src/server/http_handler.rs\<close> that change JSON values: the merge patch and the reduction of a secret
  to its keys.  The values belong to the package \<^verbatim>\<open>sonic_rs\<close>: their type and their operations are the record
  \<open>sonic\<close>, a parameter of the definitions, and \<open>sonic_ok\<close> states what its documentation says of objects.
\<close>

record 'v sonic =
  v_is_object :: "'v \<Rightarrow> bool"
  v_is_null :: "'v \<Rightarrow> bool"
  v_null :: 'v
  v_empty :: 'v
  v_entries :: "'v \<Rightarrow> (string \<times> 'v) list"
  v_members :: "'v \<Rightarrow> (string \<times> 'v) list \<Rightarrow> 'v"
  v_get :: "'v \<Rightarrow> string \<Rightarrow> 'v option"
  v_insert :: "string \<Rightarrow> 'v \<Rightarrow> 'v \<Rightarrow> 'v"
  v_assign :: "string \<Rightarrow> 'v \<Rightarrow> 'v \<Rightarrow> 'v"
  v_remove :: "string \<Rightarrow> 'v \<Rightarrow> 'v"
  v_array :: "'v \<Rightarrow> 'v list option"
  v_u64 :: "'v \<Rightarrow> u64 option"
  v_parse :: "bytes \<Rightarrow> 'v option"
  v_print :: "'v \<Rightarrow> string option"
  v_print_map :: "(string \<Rightarrow> string option) \<Rightarrow> string option"
  v_raw :: "bytes \<Rightarrow> string \<Rightarrow> string option"

text \<open>
  \<open>v_entries\<close> are the members in the order of iteration, \<open>v_members v es\<close> is the object \<open>v\<close> after a loop over
  \<^verbatim>\<open>iter_mut\<close> has assigned the members \<open>es\<close>, \<open>v_assign k x v\<close> is \<open>v\<close> after an assignment through \<^verbatim>\<open>get_mut(k)\<close>, and
  \<open>v_raw b k\<close> is the text of the member \<open>k\<close> in the document \<open>b\<close>.  Objects with repeated keys can come from a parsed
  document; the laws of lookup are for objects without.
\<close>

definition plain_object :: "'v sonic \<Rightarrow> 'v \<Rightarrow> bool" where
  "plain_object J v \<longleftrightarrow> v_is_object J v \<and> distinct (map fst (v_entries J v))"

definition sonic_ok :: "'v sonic \<Rightarrow> bool" where
  "sonic_ok J \<longleftrightarrow>
     plain_object J (v_empty J) \<and> v_entries J (v_empty J) = [] \<and> v_is_null J (v_null J) \<and> \<not> v_is_object J (v_null J)
     \<and> (\<forall>v. plain_object J v \<longrightarrow> v_get J v = map_of (v_entries J v))
     \<and> (\<forall>v k x. plain_object J v \<longrightarrow> plain_object J (v_insert J k x v) \<and> v_get J (v_insert J k x v) = (v_get J v)(k \<mapsto> x))
     \<and> (\<forall>v k x. plain_object J v \<and> v_get J v k \<noteq> None \<longrightarrow> plain_object J (v_assign J k x v) \<and> v_get J (v_assign J k x v) = (v_get J v)(k \<mapsto> x))
     \<and> (\<forall>v k. plain_object J v \<longrightarrow> plain_object J (v_remove J k v) \<and> v_get J (v_remove J k v) = (v_get J v)(k := None))
     \<and> (\<forall>v es. v_is_object J v \<and> map fst es = map fst (v_entries J v) \<longrightarrow> v_is_object J (v_members J v es) \<and> v_entries J (v_members J v es) = es)"

text \<open>A value is a finite tree; here no object of it repeats a key.\<close>

inductive plain :: "'v sonic \<Rightarrow> 'v \<Rightarrow> bool" for J where
  plain_leaf: "\<not> v_is_object J v \<Longrightarrow> plain J v"
| plain_node: "plain_object J v \<Longrightarrow> (\<And>k x. (k, x) \<in> set (v_entries J v) \<Longrightarrow> plain J x) \<Longrightarrow> plain J v"

section \<open>Definitions\<close>

partial_function (option) json_merge_patch :: "'v sonic \<Rightarrow> 'v \<Rightarrow> 'v \<Rightarrow> 'v option" where
  "json_merge_patch J target_value patch =
     (if \<not> v_is_object J patch then Some patch
      else foldm (\<lambda>kv obj.
          if v_is_null J (snd kv) then Some (v_remove J (fst kv) obj)
          else do {
            let obj = (if v_get J obj (fst kv) = None then v_insert J (fst kv) (v_empty J) obj else obj);
            place \<leftarrow> v_get J obj (fst kv);
            merged \<leftarrow> json_merge_patch J place (snd kv);
            Some (v_assign J (fst kv) merged obj)
          })
        (v_entries J patch) (if v_is_object J target_value then target_value else v_empty J))"

partial_function (option) strip_to_subkeys :: "'v sonic \<Rightarrow> 'v \<Rightarrow> u32 \<Rightarrow> u32 \<Rightarrow> 'v option" where
  "strip_to_subkeys J val current_depth max_depth =
     (if max_depth > 0 \<and> current_depth \<ge> max_depth then Some (v_null J)
      else if v_is_object J val then do {
        es \<leftarrow> foldm (\<lambda>kv es. do {
            x \<leftarrow> (if v_is_object J (snd kv) then strip_to_subkeys J (snd kv) (current_depth + 1) max_depth else Some (v_null J));
            Some (es @ [(fst kv, x)])
          }) (v_entries J val) [];
        Some (v_members J val es)
      }
      else Some (v_null J))"

section \<open>Plain objects\<close>

inductive_cases plain_objectE: "plain J v"

lemma sonic_null: "sonic_ok J \<Longrightarrow> v_is_null J (v_null J)" "sonic_ok J \<Longrightarrow> \<not> v_is_object J (v_null J)"
  by (simp_all add: sonic_ok_def)

lemma sonic_get: "sonic_ok J \<Longrightarrow> plain_object J v \<Longrightarrow> v_get J v = map_of (v_entries J v)"
  by (simp add: sonic_ok_def)

lemma sonic_empty:
  assumes "sonic_ok J" shows "plain J (v_empty J)" "v_is_object J (v_empty J)" "v_get J (v_empty J) = Map.empty"
proof -
  have e: "plain_object J (v_empty J)" "v_entries J (v_empty J) = []" using assms by (simp_all add: sonic_ok_def)
  then show "plain J (v_empty J)" "v_is_object J (v_empty J)" "v_get J (v_empty J) = Map.empty"
    using plain_node[OF e(1)] sonic_get[OF assms e(1)] by (simp_all add: plain_object_def)
qed

lemma sonic_update:
  assumes "sonic_ok J" "plain_object J v"
  shows "plain_object J (v_insert J k x v)" "v_get J (v_insert J k x v) = (v_get J v)(k \<mapsto> x)"
    "v_get J v k \<noteq> None \<Longrightarrow> plain_object J (v_assign J k x v)" "v_get J v k \<noteq> None \<Longrightarrow> v_get J (v_assign J k x v) = (v_get J v)(k \<mapsto> x)"
    "plain_object J (v_remove J k v)" "v_get J (v_remove J k v) = (v_get J v)(k := None)"
  using assms unfolding sonic_ok_def by blast+

lemma plainD:
  assumes "plain J v" "v_is_object J v"
  shows "plain_object J v" "(k, x) \<in> set (v_entries J v) \<Longrightarrow> plain J x"
  using assms by (auto elim: plain_objectE)

lemma plain_getD: "sonic_ok J \<Longrightarrow> plain J v \<Longrightarrow> v_is_object J v \<Longrightarrow> v_get J v k = Some x \<Longrightarrow> plain J x"
  using plainD(1)[of J v] plainD(2)[of J v k x] sonic_get[of J v] map_of_SomeD[of "v_entries J v" k x] by simp

lemma plain_getI:
  assumes "sonic_ok J" "plain_object J v" "\<And>k x. v_get J v k = Some x \<Longrightarrow> plain J x"
  shows "plain J v"
proof (rule plain_node[OF assms(2)])
  fix k x assume "(k, x) \<in> set (v_entries J v)"
  then have "v_get J v k = Some x" using assms(2) sonic_get[OF assms(1,2)] by (simp add: plain_object_def)
  then show "plain J x" by (rule assms(3))
qed

section \<open>The merge patch\<close>

definition merge_member :: "'v sonic \<Rightarrow> string \<times> 'v \<Rightarrow> 'v \<Rightarrow> 'v option" where
  "merge_member J kv obj =
     (if v_is_null J (snd kv) then Some (v_remove J (fst kv) obj)
      else do {
        let obj = (if v_get J obj (fst kv) = None then v_insert J (fst kv) (v_empty J) obj else obj);
        place \<leftarrow> v_get J obj (fst kv);
        merged \<leftarrow> json_merge_patch J place (snd kv);
        Some (v_assign J (fst kv) merged obj)
      })"

lemma json_merge_patch_fold:
  "json_merge_patch J t p = (if \<not> v_is_object J p then Some p
     else foldm (merge_member J) (v_entries J p) (if v_is_object J t then t else v_empty J))"
proof -
  have "merge_member J = (\<lambda>kv obj.
          if v_is_null J (snd kv) then Some (v_remove J (fst kv) obj)
          else do {
            let obj = (if v_get J obj (fst kv) = None then v_insert J (fst kv) (v_empty J) obj else obj);
            place \<leftarrow> v_get J obj (fst kv);
            merged \<leftarrow> json_merge_patch J place (snd kv);
            Some (v_assign J (fst kv) merged obj)
          })" by (intro ext) (simp add: merge_member_def)
  then show ?thesis by (subst json_merge_patch.simps) simp
qed

text \<open>What the member \<open>k\<close> becomes when the patch says \<open>x\<close> and the target has \<open>old\<close>, where \<open>none\<close> stands for no value.\<close>

definition patched :: "'v sonic \<Rightarrow> 'v \<Rightarrow> 'v option \<Rightarrow> 'v option \<Rightarrow> 'v option" where
  "patched J none old x = (case x of
     None \<Rightarrow> old
   | Some x \<Rightarrow> if v_is_null J x then None else json_merge_patch J (case old of None \<Rightarrow> none | Some t \<Rightarrow> t) x)"

lemma merge_member_ok:
  assumes "sonic_ok J" "plain J obj" "v_is_object J obj" and IH: "\<And>t. plain J t \<Longrightarrow> \<exists>r. json_merge_patch J t x = Some r \<and> plain J r"
  shows "\<exists>r. merge_member J (k, x) obj = Some r \<and> plain J r \<and> v_is_object J r
    \<and> v_get J r = (v_get J obj)(k := patched J (v_empty J) (v_get J obj k) (Some x))"
proof -
  note obj = plainD(1)[OF assms(2,3)] and gets = plain_getD[OF assms(1-3)]
  show ?thesis
  proof (cases "v_is_null J x")
    case True
    note upd = sonic_update(5,6)[OF assms(1) obj, of k]
    have "plain J (v_remove J k obj)" by (rule plain_getI[OF assms(1) upd(1)]) (auto simp: upd(2) split: if_splits intro: gets)
    then show ?thesis using True upd by (simp add: merge_member_def patched_def plain_object_def)
  next
    case False
    define place where "place = (case v_get J obj k of None \<Rightarrow> v_empty J | Some t \<Rightarrow> t)"
    define obj' where "obj' = (if v_get J obj k = None then v_insert J k (v_empty J) obj else obj)"
    have obj': "plain_object J obj'" "v_get J obj' = (v_get J obj)(k \<mapsto> place)"
      using obj sonic_update(1,2)[OF assms(1) obj] by (auto simp: obj'_def place_def)
    have "plain J place" using gets sonic_empty(1)[OF assms(1)] by (auto simp: place_def split: option.splits)
    then obtain m where m: "json_merge_patch J place x = Some m" "plain J m" using IH by blast
    note upd = sonic_update(3,4)[OF assms(1) obj'(1), of k m, unfolded obj'(2), simplified]
    have "plain J (v_assign J k m obj')" by (rule plain_getI[OF assms(1) upd(1)]) (auto simp: upd(2) m(2) split: if_splits intro: gets)
    moreover have "merge_member J (k, x) obj = Some (v_assign J k m obj')"
      using False m(1) unfolding merge_member_def Let_def fst_conv snd_conv obj'_def[symmetric] obj'(2) by simp
    moreover have "patched J (v_empty J) (v_get J obj k) (Some x) = Some m"
      using False m(1) by (simp add: patched_def place_def)
    ultimately show ?thesis using upd by (simp add: plain_object_def)
  qed
qed

lemma merge_fold_ok:
  assumes "sonic_ok J" "distinct (map fst es)" "plain J obj" "v_is_object J obj"
    and "\<And>k x t. (k, x) \<in> set es \<Longrightarrow> plain J t \<Longrightarrow> \<exists>r. json_merge_patch J t x = Some r \<and> plain J r"
  shows "\<exists>r. foldm (merge_member J) es obj = Some r \<and> plain J r \<and> v_is_object J r
    \<and> (\<forall>k. v_get J r k = patched J (v_empty J) (v_get J obj k) (map_of es k))"
  using assms(2-)
proof (induction es arbitrary: obj)
  case (Cons e es)
  obtain k x where e: "e = (k, x)" by fastforce
  obtain o1 where o1: "merge_member J e obj = Some o1" "plain J o1" "v_is_object J o1"
    "v_get J o1 = (v_get J obj)(k := patched J (v_empty J) (v_get J obj k) (Some x))"
    using merge_member_ok[OF assms(1) Cons.prems(2,3), of x k] Cons.prems(4)[of k x] e by auto
  obtain r where r: "foldm (merge_member J) es o1 = Some r" "plain J r" "v_is_object J r"
    "\<forall>k. v_get J r k = patched J (v_empty J) (v_get J o1 k) (map_of es k)"
  proof -
    have "\<exists>r. foldm (merge_member J) es o1 = Some r \<and> plain J r \<and> v_is_object J r
        \<and> (\<forall>k. v_get J r k = patched J (v_empty J) (v_get J o1 k) (map_of es k))"
      by (rule Cons.IH[OF _ o1(2,3)]) (use Cons.prems(1) in simp, rule Cons.prems(4)[OF list.set_intros(2)])
    then show ?thesis using that by blast
  qed
  have "map_of es k = None" using Cons.prems(1) e by (auto simp: map_of_eq_None_iff)
  then have "v_get J r j = patched J (v_empty J) (v_get J obj j) (map_of (e # es) j)" for j
    using r(4)[rule_format, of j] unfolding o1(4) e by (cases "j = k") (simp_all add: patched_def[where x = None])
  moreover have "foldm (merge_member J) (e # es) obj = Some r" using o1(1) r(1) by simp
  ultimately show ?case using r(2,3) by blast
qed (simp add: patched_def)

lemma merge_total:
  assumes J: "sonic_ok J" and "plain J p" "plain J t"
  shows "\<exists>r. json_merge_patch J t p = Some r \<and> plain J r"
  using assms(2,3)
proof (induction p arbitrary: t rule: plain.induct)
  case (plain_leaf v)
  then show ?case by (subst json_merge_patch_fold) (simp add: plain.plain_leaf)
next
  case (plain_node v)
  let ?t = "if v_is_object J t then t else v_empty J"
  have t: "plain J ?t" "v_is_object J ?t" using plain_node.prems sonic_empty[OF J] by auto
  have "\<exists>r. foldm (merge_member J) (v_entries J v) ?t = Some r \<and> plain J r \<and> v_is_object J r
      \<and> (\<forall>k. v_get J r k = patched J (v_empty J) (v_get J ?t k) (map_of (v_entries J v) k))"
    by (rule merge_fold_ok[OF J _ t]) (use plain_node in \<open>auto simp: plain_object_def\<close>)
  then show ?case using plain_node(1) by (subst json_merge_patch_fold) (auto simp: plain_object_def)
qed

lemma merge_no_object:
  "sonic_ok J \<Longrightarrow> \<not> v_is_object J t \<Longrightarrow> json_merge_patch J t x = json_merge_patch J (v_empty J) x"
  using sonic_empty(2)[of J] by (subst (1 2) json_merge_patch_fold) simp

lemma patched_none:
  assumes "sonic_ok J" shows "patched J (v_empty J) old x = patched J (v_null J) old x"
  using merge_no_object[OF assms sonic_null(2)[OF assms]] by (simp add: patched_def split: option.splits)

text \<open>
  C17: The patch of a secret is the JSON merge patch of RFC 7396: for values without repeated keys \<open>json_merge_patch\<close>
  returns; a patch that is not an object replaces the target; a patch that is an object gives an object in which
  every member the patch does not name is the target's (none, if the target is no object), every member the patch
  sets to null is gone, and every other member the patch names is the merge of the target's member, or of nothing, with
  the patch's.
\<close>

theorem merge_patch_rfc7396:
  assumes "sonic_ok J" "plain J t" "plain J p"
  shows "\<exists>r. json_merge_patch J t p = Some r \<and> plain J r \<and>
    (if v_is_object J p
     then v_is_object J r \<and> (\<forall>k. v_get J r k =
       (let old = (if v_is_object J t then v_get J t k else None) in
        case v_get J p k of
          None \<Rightarrow> old
        | Some x \<Rightarrow> if v_is_null J x then None else json_merge_patch J (case old of None \<Rightarrow> v_null J | Some y \<Rightarrow> y) x))
     else r = p)"
proof (cases "v_is_object J p")
  case True
  let ?t = "if v_is_object J t then t else v_empty J"
  have t: "plain J ?t" "v_is_object J ?t" "\<And>k. v_get J ?t k = (if v_is_object J t then v_get J t k else None)"
    using assms(2) sonic_empty[OF assms(1)] by auto
  note p = plainD[OF assms(3) True]
  have "\<exists>r. foldm (merge_member J) (v_entries J p) ?t = Some r \<and> plain J r \<and> v_is_object J r
      \<and> (\<forall>k. v_get J r k = patched J (v_empty J) (v_get J ?t k) (map_of (v_entries J p) k))"
    by (rule merge_fold_ok[OF assms(1) _ t(1,2)]) (use p merge_total[OF assms(1)] in \<open>auto simp: plain_object_def\<close>)
  then obtain r where r: "foldm (merge_member J) (v_entries J p) ?t = Some r" "plain J r" "v_is_object J r"
      "\<forall>k. v_get J r k = patched J (v_null J) (if v_is_object J t then v_get J t k else None) (v_get J p k)"
    unfolding patched_none[OF assms(1)] sonic_get[OF assms(1) p(1), symmetric] t(3) by blast
  have "json_merge_patch J t p = Some r" using True r(1) by (subst json_merge_patch_fold) simp
  moreover note r(2,3) r(4)[unfolded patched_def]
  ultimately show ?thesis unfolding Let_def if_P[OF True] by blast
next
  case False
  then show ?thesis using assms(3) by (subst json_merge_patch_fold) simp
qed

section \<open>The keys of a secret\<close>

text \<open>Nothing but objects and nulls; objects nested at most \<open>n\<close> deep.\<close>

inductive only_keys :: "'v sonic \<Rightarrow> 'v \<Rightarrow> bool" for J where
  only_null: "v_is_null J v \<Longrightarrow> only_keys J v"
| only_object: "v_is_object J v \<Longrightarrow> (\<And>k x. (k, x) \<in> set (v_entries J v) \<Longrightarrow> only_keys J x) \<Longrightarrow> only_keys J v"

inductive nested :: "'v sonic \<Rightarrow> nat \<Rightarrow> 'v \<Rightarrow> bool" for J where
  nested_leaf: "\<not> v_is_object J v \<Longrightarrow> nested J n v"
| nested_object: "(\<And>k x. (k, x) \<in> set (v_entries J v) \<Longrightarrow> nested J n x) \<Longrightarrow> nested J (Suc n) v"

lemma foldm_collect:
  assumes "\<And>kv. kv \<in> set es \<Longrightarrow> \<exists>x. g kv = Some x \<and> P x"
  shows "\<exists>ys. foldm (\<lambda>kv acc. do { x \<leftarrow> g kv; Some (acc @ [(fst kv, x)]) }) es acc = Some (acc @ ys)
    \<and> map fst ys = map fst es \<and> (\<forall>(k, x) \<in> set ys. P x)"
  using assms
proof (induction es arbitrary: acc)
  case (Cons kv es)
  obtain x where x: "g kv = Some x" "P x" using Cons.prems[of kv] by auto
  obtain ys where "foldm (\<lambda>kv acc. do { x \<leftarrow> g kv; Some (acc @ [(fst kv, x)]) }) es (acc @ [(fst kv, x)]) = Some ((acc @ [(fst kv, x)]) @ ys)"
    "map fst ys = map fst es" "\<forall>(k, x) \<in> set ys. P x" 
    using Cons.IH[OF Cons.prems[OF list.set_intros(2)], of "acc @ [(fst kv, x)]"] by blast
  then show ?case using x by (intro exI[of _ "(fst kv, x) # ys"]) simp
qed simp

definition stripped :: "'v sonic \<Rightarrow> u32 \<Rightarrow> u32 \<Rightarrow> 'v \<Rightarrow> bool" where
  "stripped J cd md r \<longleftrightarrow> only_keys J r \<and> (0 < md \<longrightarrow> nested J (unat md - unat cd) r)"

lemma stripped_null: "sonic_ok J \<Longrightarrow> stripped J cd md (v_null J)"
  by (simp add: stripped_def only_null nested_leaf sonic_null)

lemma stripped_members:
  assumes "sonic_ok J" "v_is_object J v" "\<not> (max_d > 0 \<and> cd \<ge> max_d)" "map fst es = map fst (v_entries J v)"
    and "\<forall>(k, x) \<in> set es. stripped J (cd + 1) max_d x"
  shows "stripped J cd max_d (v_members J v es)" "v_entries J (v_members J v es) = es" "v_is_object J (v_members J v es)"
proof -
  show m: "v_entries J (v_members J v es) = es" "v_is_object J (v_members J v es)"
    using assms(1,2,4) unfolding sonic_ok_def by blast+
  have "nested J (unat max_d - unat cd) (v_members J v es)" if "0 < max_d"
  proof -
    have less: "unat cd < unat max_d" using assms(3) that by (simp add: word_less_nat_alt not_le)
    then have "unat (cd + 1) = Suc (unat cd)" using unsigned_less[of max_d, where ?'a = nat] by (simp add: unat_word_ariths)
    then have "unat max_d - unat cd = Suc (unat max_d - unat (cd + 1))" using less by simp
    moreover have "nested J (Suc (unat max_d - unat (cd + 1))) (v_members J v es)"
      by (rule nested_object) (use assms(5) that m(1) in \<open>auto simp: stripped_def\<close>)
    ultimately show ?thesis by simp
  qed
  moreover have "only_keys J (v_members J v es)" 
    by (rule only_object[OF m(2)]) (use assms(5) m(1) in \<open>auto simp: stripped_def\<close>)
  ultimately show "stripped J cd max_d (v_members J v es)" by (simp add: stripped_def)
qed

lemma strip_object:
  assumes "sonic_ok J" "v_is_object J v" "\<not> (max_d > 0 \<and> cd \<ge> max_d)"
    and "\<And>k x. (k, x) \<in> set (v_entries J v) \<Longrightarrow> \<exists>r. strip_to_subkeys J x (cd + 1) max_d = Some r \<and> stripped J (cd + 1) max_d r"
  shows "\<exists>r. strip_to_subkeys J v cd max_d = Some r \<and> stripped J cd max_d r \<and> v_is_object J r
    \<and> map fst (v_entries J r) = map fst (v_entries J v)"
proof -
  let ?g = "\<lambda>kv. if v_is_object J (snd kv) then strip_to_subkeys J (snd kv) (cd + 1) max_d else Some (v_null J)"
  have "\<exists>x. ?g kv = Some x \<and> stripped J (cd + 1) max_d x" if "kv \<in> set (v_entries J v)" for kv
    using assms(4)[of "fst kv" "snd kv"] that stripped_null[OF assms(1)] by simp
  from foldm_collect[of "v_entries J v" ?g, OF this, where acc = "[]"]
  obtain ys where ys: "foldm (\<lambda>kv acc. do { x \<leftarrow> ?g kv; Some (acc @ [(fst kv, x)]) }) (v_entries J v) [] = Some ys"
    "map fst ys = map fst (v_entries J v)" "\<forall>(k, x) \<in> set ys. stripped J (cd + 1) max_d x" by auto
  have "strip_to_subkeys J v cd max_d = Some (v_members J v ys)"
    using ys(1) unfolding strip_to_subkeys.simps[of J v] if_not_P[OF assms(3)] if_P[OF assms(2)] by simp
  then show ?thesis using stripped_members[OF assms(1-3) ys(2,3)] ys(2) by simp
qed

lemma strip_ok:
  assumes J: "sonic_ok J" and "plain J v"
  shows "\<exists>r. strip_to_subkeys J v cd max_d = Some r \<and> stripped J cd max_d r"
  using assms(2)
proof (induction v arbitrary: cd)
  case (plain_leaf v)
  then show ?case using stripped_null[OF J] by (subst strip_to_subkeys.simps) simp
next
  case (plain_node v)
  show ?case
  proof (cases "max_d > 0 \<and> cd \<ge> max_d")
    case True
    then show ?thesis using stripped_null[OF J] by (subst strip_to_subkeys.simps) simp
  next
    case False
    have "v_is_object J v" using plain_node(1) by (simp add: plain_object_def)
    then show ?thesis using strip_object[OF J _ False, of v] plain_node.IH by blast
  qed
qed

text \<open>
  C18: The subkeys of a secret reveal no value: for every finite JSON value and every depth \<open>strip_to_subkeys\<close> returns, its
  result consists of objects and nulls only, a positive depth bounds how deep the objects are nested, and a
  secret that is an object keeps all the keys of its first level, in their order.
\<close>

theorem subkeys_hide_values:
  assumes "sonic_ok J" "plain J v"
  shows "\<exists>r. strip_to_subkeys J v 0 d = Some r \<and> only_keys J r \<and> (0 < d \<longrightarrow> nested J (unat d) r)
    \<and> (v_is_object J v \<longrightarrow> v_is_object J r \<and> map fst (v_entries J r) = map fst (v_entries J v))"
proof (cases "v_is_object J v")
  case True
  have "\<not> (d > 0 \<and> 0 \<ge> d)" by auto
  from strip_object[OF assms(1) True this] show ?thesis
    using strip_ok[OF assms(1)] plainD(2)[OF assms(2) True] unfolding stripped_def by fastforce
next
  case False
  then show ?thesis using strip_ok[OF assms, of 0 d] by (auto simp: stripped_def)
qed

section \<open>An instance\<close>

text \<open>JSON values as a datatype, for concrete examples; it parses no documents.\<close>

datatype json = JNull | JBool bool | JNum nat | JStr string | JArr "json list" | JObj "(string \<times> json) list"

fun obj_entries :: "json \<Rightarrow> (string \<times> json) list" where
  "obj_entries (JObj es) = es"
| "obj_entries _ = []"

definition is_obj :: "json \<Rightarrow> bool" where
  "is_obj v = (case v of JObj _ \<Rightarrow> True | _ \<Rightarrow> False)"

definition json_raw :: "bytes \<Rightarrow> string \<Rightarrow> string option" where
  "json_raw b k = (let start = ''{'' @ [CHR 0x22] @ k @ [CHR 0x22] @ '':'' in
     if take (length start) b = start then Some (butlast (drop (length start) b)) else None)"

definition json_sonic :: "json sonic" where
  "json_sonic = \<lparr>v_is_object = is_obj, v_is_null = (\<lambda>v. v = JNull), v_null = JNull, v_empty = JObj [], v_entries = obj_entries,
     v_members = (\<lambda>_ es. JObj es), v_get = (\<lambda>v. map_of (obj_entries v)), v_insert = (\<lambda>k x v. JObj (AList.update k x (obj_entries v))),
     v_assign = (\<lambda>k x v. JObj (AList.update k x (obj_entries v))), v_remove = (\<lambda>k v. JObj (AList.delete k (obj_entries v))),
     v_array = (\<lambda>v. case v of JArr vs \<Rightarrow> Some vs | _ \<Rightarrow> None), v_u64 = (\<lambda>v. case v of JNum n \<Rightarrow> Some (of_nat n) | _ \<Rightarrow> None),
     v_parse = (\<lambda>_. None), v_print = (\<lambda>_. Some ''{}''), v_print_map = (\<lambda>_. Some ''{}''), v_raw = json_raw\<rparr>"

lemma json_sonic_sel [simp]:
  "v_is_object json_sonic = is_obj" "v_is_null json_sonic v = (v = JNull)" "v_null json_sonic = JNull" "v_empty json_sonic = JObj []"
  "v_entries json_sonic = obj_entries" "v_members json_sonic v es = JObj es" "v_get json_sonic v = map_of (obj_entries v)"
  "v_insert json_sonic k x v = JObj (AList.update k x (obj_entries v))"
  "v_assign json_sonic k x v = JObj (AList.update k x (obj_entries v))" "v_remove json_sonic k v = JObj (AList.delete k (obj_entries v))"
  "v_print json_sonic v = Some ''{}''" "v_print_map json_sonic m = Some ''{}''" "v_raw json_sonic = json_raw"
  by (simp_all add: json_sonic_def)

lemma json_plain_object: "plain_object json_sonic v \<longleftrightarrow> is_obj v \<and> distinct (map fst (obj_entries v))"
  by (simp add: plain_object_def)

lemma json_sonic_ok: "sonic_ok json_sonic"
  unfolding sonic_ok_def json_plain_object
  by (auto simp: is_obj_def distinct_update distinct_delete update_conv' delete_conv')

lemma json_plain_leaf [simp]: "plain json_sonic (JNum n)" "plain json_sonic (JStr t)" "plain json_sonic JNull"
  by (auto intro!: plain_leaf simp: is_obj_def)

lemma json_plain_obj: "distinct (map fst es) \<Longrightarrow> \<forall>(k, x) \<in> set es. plain json_sonic x \<Longrightarrow> plain json_sonic (JObj es)"
  by (rule plain_node) (auto simp: json_plain_object is_obj_def)

theorem merge_patch_rfc7396_witness:
  "\<exists>r. json_merge_patch json_sonic (JObj [(''a'', JNum 1), (''b'', JNum 2)]) (JObj [(''b'', JNull), (''c'', JNum 3)]) = Some r
    \<and> map_of (obj_entries r) ''a'' = Some (JNum 1) \<and> map_of (obj_entries r) ''b'' = None"
proof -
  have p: "plain json_sonic (JObj [(''a'', JNum 1), (''b'', JNum 2)])" "plain json_sonic (JObj [(''b'', JNull), (''c'', JNum 3)])"
    by (auto intro!: json_plain_obj)
  obtain r where r: "json_merge_patch json_sonic (JObj [(''a'', JNum 1), (''b'', JNum 2)]) (JObj [(''b'', JNull), (''c'', JNum 3)]) = Some r"
    "\<forall>k. v_get json_sonic r k = (let old = v_get json_sonic (JObj [(''a'', JNum 1), (''b'', JNum 2)]) k in
        case v_get json_sonic (JObj [(''b'', JNull), (''c'', JNum 3)]) k of None \<Rightarrow> old
        | Some x \<Rightarrow> if v_is_null json_sonic x then None
            else json_merge_patch json_sonic (case old of None \<Rightarrow> v_null json_sonic | Some y \<Rightarrow> y) x)"
    using merge_patch_rfc7396[OF json_sonic_ok p] by (auto simp: is_obj_def)
  have "map_of (obj_entries r) ''a'' = Some (JNum 1)" "map_of (obj_entries r) ''b'' = None"
    using r(2)[rule_format, of "''a''"] r(2)[rule_format, of "''b''"] by simp_all
  with r(1) show ?thesis by blast
qed

theorem subkeys_hide_values_witness:
  "\<exists>r. strip_to_subkeys json_sonic (JObj [(''user'', JStr ''root''), (''db'', JObj [(''pass'', JStr ''x'')])]) 0 1 = Some r
    \<and> only_keys json_sonic r \<and> nested json_sonic 1 r \<and> map fst (obj_entries r) = [''user'', ''db'']"
proof -
  have "plain json_sonic (JObj [(''user'', JStr ''root''), (''db'', JObj [(''pass'', JStr ''x'')])])"
    by (auto intro!: json_plain_obj)
  from subkeys_hide_values[OF json_sonic_ok this, of 1] show ?thesis by (auto simp: is_obj_def)
qed

end
