(* ===== verification/Calendar.thy ===== *)
theory Calendar
  imports Main
begin

text \<open>
  The Gregorian calendar as a reference: the leap years, the lengths of the months, and the number of days from
  1 January 1970 to a date as the sum of the years and months in between.  The lemmas are the arithmetic behind the
  conversion of a number of days to a date in \<^verbatim>\<open>src/server/time_format.rs\<close>, which counts years from March.
\<close>

definition leap :: "int \<Rightarrow> bool" where
  "leap y \<longleftrightarrow> (4 dvd y \<and> \<not> 100 dvd y) \<or> 400 dvd y"

definition year_length :: "int \<Rightarrow> int" where
  "year_length y = (if leap y then 366 else 365)"

definition month_length :: "int \<Rightarrow> int \<Rightarrow> int" where
  "month_length y m = (if m = 2 then (if leap y then 29 else 28) else if m \<in> {4, 6, 9, 11} then 30 else 31)"

definition day_number :: "int \<Rightarrow> int \<Rightarrow> int \<Rightarrow> int" where
  "day_number y m d = sum year_length {1970..<y} + sum (month_length y) {1..<m} + (d - 1)"

definition valid_date :: "int \<Rightarrow> int \<Rightarrow> int \<Rightarrow> bool" where
  "valid_date y m d \<longleftrightarrow> 1 \<le> m \<and> m \<le> 12 \<and> 1 \<le> d \<and> d \<le> month_length y m"

section \<open>Leap years\<close>

definition leaps :: "int \<Rightarrow> int" where
  "leaps y = y div 4 - y div 100 + y div 400"

lemma div_step: "0 < n \<Longrightarrow> (y + 1) div n = y div n + (if n dvd y + 1 then 1 else 0)" for y n :: int
proof -
  assume n: "0 < n"
  have y: "y = n * (y div n) + y mod n" by simp
  have r: "0 \<le> y mod n" "y mod n < n" using n by simp_all
  show ?thesis
  proof (cases "y mod n = n - 1")
    case True
    then have "y + 1 = n * (y div n + 1)" using y by (simp add: distrib_left)
    then show ?thesis using n by (metis dvd_triv_left nonzero_mult_div_cancel_left less_irrefl)
  next
    case False
    then have e: "y + 1 = n * (y div n) + (y mod n + 1)" "0 \<le> y mod n + 1" "y mod n + 1 < n" using y r by simp_all
    then have "(y + 1) div n = y div n" "(y + 1) mod n = y mod n + 1" by (rule int_div_pos_eq, rule int_mod_pos_eq)
    then show ?thesis using r by (simp add: dvd_eq_mod_eq_0)
  qed
qed

lemma leaps_step: "leaps (y + 1) = leaps y + (if leap (y + 1) then 1 else 0)"
proof -
  have "400 dvd y + 1 \<Longrightarrow> 100 dvd y + 1" by (rule dvd_trans[of 100 400]) simp_all
  moreover have "100 dvd y + 1 \<Longrightarrow> 4 dvd y + 1" by (rule dvd_trans[of 4 100]) simp_all
  ultimately have "400 dvd y + 1 \<Longrightarrow> 100 dvd y + 1" "100 dvd y + 1 \<Longrightarrow> 4 dvd y + 1" by blast+
  then show ?thesis unfolding leaps_def leap_def by (simp add: div_step)
qed

lemma years_sum: "1970 \<le> y \<Longrightarrow> sum year_length {1970..<y} = 365 * (y - 1970) + leaps (y - 1) - 477"
proof (induction y rule: int_ge_induct)
  case base
  show ?case by (simp add: leaps_def)
next
  case (step y)
  have "{1970..<y + 1} = insert y {1970..<y}" using step(1) by auto
  then show ?case using step leaps_step[of "y - 1"] by (simp add: year_length_def)
qed

lemma sub_div_mono: "a \<le> b \<Longrightarrow> 0 < n \<Longrightarrow> a - a div n \<le> b - b div n" for a b n :: int
proof -
  assume ab: "a \<le> b" and n: "0 < n"
  have "b - a \<le> n * (b - a)" using ab n mult_right_mono[of 1 n "b - a"] by simp
  then have "b div n \<le> (a + n * (b - a)) div n" using n by (intro zdiv_mono1) simp_all
  also have "\<dots> = a div n + (b - a)" using n by (simp add: add.commute)
  finally show ?thesis by simp
qed

lemma leaps_mono:
  assumes "a \<le> b" shows "leaps a \<le> leaps b"
proof -
  have d: "x div 100 = x div 4 div 25" for x :: int by (simp add: zdiv_zmult2_eq[symmetric])
  show ?thesis using sub_div_mono[OF zdiv_mono1[OF assms, of 4], of 25] zdiv_mono1[OF assms, of 400]
    unfolding leaps_def d by simp
qed

section \<open>The era of 400 years, counted from 1 March\<close>

definition year_start :: "int \<Rightarrow> int" where
  "year_start y = 365 * y + y div 4 - y div 100"

definition scaled :: "int \<Rightarrow> int" where
  "scaled doe = doe - doe div 1460 + doe div 36524 - doe div 146096"

lemma scaled_mono: "a \<le> b \<Longrightarrow> scaled a \<le> scaled b"
proof -
  assume ab: "a \<le> b"
  have d: "x div 146096 = x div 36524 div 4" for x :: int by (simp add: zdiv_zmult2_eq[symmetric])
  show ?thesis using sub_div_mono[OF ab, of 1460] sub_div_mono[OF zdiv_mono1[OF ab, of 36524], of 4]
    unfolding scaled_def d by simp
qed

lemma scaled_table:
  "\<forall>y \<in> set [0..399]. 365 * y \<le> scaled (year_start y)
     \<and> scaled (if y = 399 then 146096 else year_start (y + 1) - 1) < 365 * (y + 1)"
  by code_simp

lemma month_table:
  "\<forall>doy \<in> set [0..365::int]. let mp = (5 * doy + 2) div 153 in
     0 \<le> mp \<and> mp \<le> 11 \<and> (153 * mp + 2) div 5 \<le> doy
     \<and> doy < (if mp = 11 then 366 else (153 * (mp + 1) + 2) div 5)"
  by code_simp

lemma year_of_era:
  assumes "0 \<le> doe" "doe \<le> 146096"
  defines "y \<equiv> scaled doe div 365"
  shows "0 \<le> y" "y \<le> 399" "year_start y \<le> doe" "doe < year_start (y + 1) + (if y = 399 then 1 else 0)"
proof -
  have table: "365 * x \<le> scaled (year_start x)" "scaled (if x = 399 then 146096 else year_start (x + 1) - 1) < 365 * (x + 1)"
    if "0 \<le> x" "x \<le> 399" for x using scaled_table that by auto
  have y: "365 * y \<le> scaled doe" "scaled doe < 365 * (y + 1)" unfolding y_def by simp_all
  have "scaled 0 = 0" by (simp add: scaled_def)
  then show y0: "0 \<le> y" using scaled_mono[OF assms(1)] y by simp
  show y1: "y \<le> 399" using scaled_mono[OF assms(2)] table(2)[of 399] y by simp
  show "year_start y \<le> doe"
  proof (cases "y = 0")
    case True
    then show ?thesis using assms(1) by (simp add: year_start_def)
  next
    case False
    then show ?thesis using table(2)[of "y - 1"] y0 y1 y scaled_mono[of doe "year_start y - 1"] by (cases "doe \<le> year_start y - 1") auto
  qed
  show "doe < year_start (y + 1) + (if y = 399 then 1 else 0)"
  proof (cases "y = 399")
    case True
    then show ?thesis using assms(2) by (simp add: year_start_def)
  next
    case False
    then show ?thesis using table(1)[of "y + 1"] y0 y1 y scaled_mono[of "year_start (y + 1)" doe] by (cases "year_start (y + 1) \<le> doe") auto
  qed
qed

lemma year_start_leaps: "0 \<le> y \<Longrightarrow> y \<le> 399 \<Longrightarrow> 365 * (400 * era + y) + leaps (400 * era + y) = 146097 * era + year_start y"
proof -
  assume "0 \<le> y" "y \<le> 399"
  then have "y div 400 = 0" by simp
  moreover have "(400 * era + y) div 4 = 100 * era + y div 4" "(400 * era + y) div 100 = 4 * era + y div 100"
    "(400 * era + y) div 400 = era + y div 400" by linarith+
  ultimately show ?thesis by (simp add: leaps_def year_start_def)
qed

lemma year_start_step:
  "0 \<le> y \<Longrightarrow> y \<le> 399 \<Longrightarrow> year_start (y + 1) + (if y = 399 then 1 else 0) = year_start y + 365 + (if leap (400 * era + y + 1) then 1 else 0)"
  using year_start_leaps[of y era] year_start_leaps[of "y + 1" era] year_start_leaps[of 0 "era + 1"] leaps_step[of "400 * era + y"]
  by (cases "y = 399") (auto simp: year_start_def add.assoc)

lemma months_before:
  assumes "1 \<le> m" "m \<le> 12"
  shows "sum (month_length y) {1..<m} =
    (if m = 1 then 0 else if m = 2 then 31 else (if leap y then 60 else 59) + (153 * (m - 3) + 2) div 5)"
proof -
  have s: "sum (month_length y) {1..<m} = sum_list (map (month_length y) [1..m - 1])"
    unfolding sum_set_upto_conv_sum_list_int[symmetric] by (rule sum.cong) auto
  have "m = 1 \<or> m = 2 \<or> m = 3 \<or> m = 4 \<or> m = 5 \<or> m = 6 \<or> m = 7 \<or> m = 8 \<or> m = 9 \<or> m = 10 \<or> m = 11 \<or> m = 12"
    using assms by presburger
  then show ?thesis unfolding s by (elim disjE) (simp_all add: month_length_def upto_rec1)
qed

section \<open>The date of a number of days\<close>

definition civil_int :: "int \<Rightarrow> int \<times> int \<times> int" where
  "civil_int days =
     (let z = days + 719468;
          era = z div 146097;
          doe = z - era * 146097;
          yoe = scaled doe div 365;
          doy = doe - year_start yoe;
          mp = (5 * doy + 2) div 153;
          d = doy - (153 * mp + 2) div 5 + 1;
          month = mp + (if mp < 10 then 3 else - 9)
      in (yoe + era * 400 + (if month \<le> 2 then 1 else 0), month, d))"

lemma civil_int_correct:
  assumes "0 \<le> days" "civil_int days = (y, m, d)"
  shows "valid_date y m d" "day_number y m d = days" "1970 \<le> y"
proof -
  define era where "era = (days + 719468) div 146097"
  define doe where "doe = days + 719468 - era * 146097"
  define yoe where "yoe = scaled doe div 365"
  define doy where "doy = doe - year_start yoe"
  define mp where "mp = (5 * doy + 2) div 153"
  define y' where "y' = 400 * era + yoe"
  have doe: "0 \<le> doe" "doe \<le> 146096" unfolding doe_def era_def by (simp_all add: minus_div_mult_eq_mod)
  note yoe = year_of_era[OF doe, folded yoe_def]
  have doy: "0 \<le> doy" "doy < 365 + (if leap (y' + 1) then 1 else 0)"
    using yoe year_start_step[OF yoe(1,2), of era] by (simp_all add: doy_def y'_def)
  have mp: "0 \<le> mp" "mp \<le> 11" "(153 * mp + 2) div 5 \<le> doy" "doy < (if mp = 11 then 366 else (153 * (mp + 1) + 2) div 5)"
    using month_table doy by (auto simp: Let_def mp_def split: if_splits)
  have date: "y = y' + (if m \<le> 2 then 1 else 0)" "m = mp + (if mp < 10 then 3 else - 9)" "d = doy - (153 * mp + 2) div 5 + 1"
    using assms(2) unfolding civil_int_def Let_def era_def[symmetric] doe_def[symmetric] yoe_def[symmetric] doy_def[symmetric]
      mp_def[symmetric] prod.inject by (auto simp: y'_def)
  have m: "1 \<le> m" "m \<le> 12" using mp date(2) by (auto split: if_splits)
  have days: "days = 365 * y' + leaps y' + doy - 719468"
    using year_start_leaps[OF yoe(1,2), of era] by (simp add: y'_def doy_def doe_def)
  have doy_m: "doy \<le> 305" if "2 < m" using mp that date(2) by (auto split: if_splits)
  show year: "1970 \<le> y"
  proof (rule ccontr)
    assume "\<not> 1970 \<le> y"
    then have "y' \<le> 1969" "m \<le> 2 \<Longrightarrow> y' \<le> 1968" using date(1) by (auto split: if_splits)
    then show False using leaps_mono[of y' 1969] doy_m doy(2) days assms(1) by (cases "2 < m") (auto simp: leaps_def split: if_splits)
  qed
  have cases: "mp = 0 \<or> mp = 1 \<or> mp = 2 \<or> mp = 3 \<or> mp = 4 \<or> mp = 5 \<or> mp = 6 \<or> mp = 7 \<or> mp = 8 \<or> mp = 9 \<or> mp = 10 \<or> mp = 11"
    using mp(1,2) by presburger
  show "valid_date y m d"
    using cases mp(3,4) doy(2) unfolding valid_date_def date
    by (elim disjE) (auto simp: month_length_def split: if_splits)
  show "day_number y m d = days"
    using cases days leaps_step[of "y - 1"] leaps_step[of y'] years_sum[OF year] months_before[OF m, of y]
    unfolding day_number_def date(3) by (elim disjE) (auto simp: date(1,2))
qed

end
