(* ===== verification/Time_Format.thy ===== *)
theory Time_Format
  imports Engine_Types Calendar "HOL-Library.Signed_Division"
begin

text \<open>
  Times and durations in the API (\<^verbatim>\<open>src/server/time_format.rs\<close>): the conversion of a time stamp to a calendar date, and the
  durations of hours, minutes and seconds.  The 64-bit and 32-bit unsigned values are words; the signed ones are
  integers, which stay far below their bounds.
\<close>

text \<open>\<^verbatim>\<open>{:0w}\<close> pads an unsigned number with zeros.\<close>

definition pad :: "nat \<Rightarrow> nat \<Rightarrow> string" where
  "pad w n = (let s = show_nat n in replicate (w - length s) CHR ''0'' @ s)"

text \<open>The date of a number of days: year, month and day.\<close>

definition civil :: "u64 \<Rightarrow> int \<times> int \<times> u32" where
  "civil days =
     (let z = uint days + 719468;
          era = (if z \<ge> 0 then z else z - 146096) sdiv 146097;
          doe = (word_of_int (z - era * 146097) :: u32);
          yoe = (doe - doe div 1460 + doe div 36524 - doe div 146096) div 365;
          y = uint yoe + era * 400;
          doy = doe - (365 * yoe + yoe div 4 - yoe div 100);
          mp = (5 * doy + 2) div 153;
          d = doy - (153 * mp + 2) div 5 + 1;
          month = uint mp + (if mp < 10 then 3 else - 9);
          year = y + (if month \<le> 2 then 1 else 0)
      in (year, month, d))"

definition show_time :: "nat \<Rightarrow> nat \<Rightarrow> nat \<Rightarrow> nat \<Rightarrow> nat \<Rightarrow> nat \<Rightarrow> nat \<Rightarrow> string" where
  "show_time year month d h m s fraction_ms =
     pad 4 year @ ''-'' @ pad 2 month @ ''-'' @ pad 2 d @ ''T'' @ pad 2 h @ '':'' @ pad 2 m @ '':'' @ pad 2 s
     @ (if fraction_ms > 0 then ''.'' @ pad 3 fraction_ms else []) @ ''Z''"

definition epoch_ms_to_rfc3339 :: "u64 \<Rightarrow> string" where
  "epoch_ms_to_rfc3339 ms =
     (if ms = 0 then ''1970-01-01T00:00:00Z''
      else
        let total_secs = ms div 1000;
            days = total_secs div 86400;
            rem_secs = total_secs mod 86400;
            h = rem_secs div 3600;
            m = (rem_secs mod 3600) div 60;
            s = rem_secs mod 60;
            fraction_ms = ms mod 1000;
            (year, month, d) = civil days
        in show_time (nat year) (nat month) (unat d) (unat h) (unat m) (unat s) (unat fraction_ms))"

text \<open>The scanner of durations: total, current number, and whether a number is open.\<close>

datatype duration_error = Invalid_Character | Missing_Unit

definition digit_value :: "char \<Rightarrow> u64" where
  "digit_value b = of_nat (of_char b - 48)"

fun scan_duration :: "string \<Rightarrow> u64 \<Rightarrow> u64 \<Rightarrow> bool \<Rightarrow> duration_error + u64" where
  "scan_duration [] ms num has_num = (if has_num then Inl Missing_Unit else Inr ms)"
| "scan_duration (b # bs) ms num has_num =
     (if 48 \<le> (of_char b :: nat) \<and> (of_char b :: nat) \<le> 57 then scan_duration bs ms (num * 10 + digit_value b) True
      else if b = CHR ''h'' then scan_duration bs (ms + num * 3600000) 0 False
      else if b = CHR ''m'' then scan_duration bs (ms + num * 60000) 0 False
      else if b = CHR ''s'' then scan_duration bs (ms + num * 1000) 0 False
      else Inl Invalid_Character)"

definition parse_vault_duration :: "string \<Rightarrow> duration_error + u64" where
  "parse_vault_duration s = (if s = [] then Inr 0 else scan_duration s 0 0 False)"

definition ms_to_vault_duration :: "u64 \<Rightarrow> string" where
  "ms_to_vault_duration ms =
     (if ms = 0 then ''0s''
      else
        let secs = ms div 1000;
            h = secs div 3600;
            m = (secs mod 3600) div 60;
            s = secs mod 60
        in (if h > 0 then show_nat (unat h) @ ''h'' else [])
         @ (if m > 0 then show_nat (unat m) @ ''m'' else [])
         @ (if s > 0 \<or> (h = 0 \<and> m = 0) then show_nat (unat s) @ ''s'' else []))"

section \<open>Durations\<close>

lemma scan_digits:
  assumes "set ds \<subseteq> char_of ` {48..57::nat}" "ds \<noteq> []"
  shows "scan_duration (ds @ bs) ms (of_nat n) f = scan_duration bs ms (of_nat (foldl (\<lambda>n c. 10 * n + (of_char c - 48)) n ds)) True"
  using assms
proof (induction ds arbitrary: n f)
  case (Cons c ds)
  then obtain d :: nat where "48 \<le> d" "d \<le> 57" "c = char_of d" by auto
  then have c: "48 \<le> (of_char c :: nat)" "(of_char c :: nat) \<le> 57" by simp_all
  have "of_nat n * 10 + digit_value c = (of_nat (10 * n + (of_char c - 48)) :: u64)" by (simp add: digit_value_def mult.commute)
  then have step: "scan_duration ((c # ds) @ bs) ms (of_nat n) f = scan_duration (ds @ bs) ms (of_nat (10 * n + (of_char c - 48))) True"
    by (simp only: append_Cons scan_duration.simps c simp_thms if_True)
  show ?case
  proof (cases "ds = []")
    case False
    then show ?thesis using step Cons.IH[of "10 * n + (of_char c - 48)" True] Cons.prems by simp
  qed (use step in simp)
qed simp

lemma scan_number: "scan_duration (show_nat n @ bs) ms 0 f = scan_duration bs ms (of_nat n) True"
  using scan_digits[OF show_nat_digits show_nat_nonempty, of n bs ms 0 f] read_show_nat[of n] by (simp add: read_digits_def)

lemma scan_unit:
  "scan_duration (CHR ''h'' # bs) ms num f = scan_duration bs (ms + num * 3600000) 0 False"
  "scan_duration (CHR ''m'' # bs) ms num f = scan_duration bs (ms + num * 60000) 0 False"
  "scan_duration (CHR ''s'' # bs) ms num f = scan_duration bs (ms + num * 1000) 0 False"
  by simp_all

lemma split_seconds:
  fixes secs :: u64
  shows "secs div 3600 * 3600000 + (secs mod 3600) div 60 * 60000 + secs mod 60 * 1000 = secs * 1000"
proof -
  have "secs mod 3600 mod 60 = secs mod 60"
    by (simp add: word_unat_eq_iff unat_mod_distrib mod_mod_cancel)
  then have "secs div 3600 * 3600 + ((secs mod 3600) div 60 * 60 + secs mod 60) = secs"
    using div_mult_mod_eq[of secs 3600] div_mult_mod_eq[of "secs mod 3600" 60] by simp
  from arg_cong[OF this, of "\<lambda>x. x * 1000"] show ?thesis by (simp add: distrib_right mult.assoc add.assoc)
qed

text \<open>
  C20: Durations survive printing and parsing: parsing what \<open>ms_to_vault_duration\<close> prints gives the number of milliseconds
  back, rounded down to whole seconds, for every 64-bit value.
\<close>

theorem duration_roundtrip: "parse_vault_duration (ms_to_vault_duration ms) = Inr (ms div 1000 * 1000)"
proof (cases "ms = 0")
  case True
  have "parse_vault_duration ''0s'' = Inr 0" by code_simp
  then show ?thesis using True by (simp add: ms_to_vault_duration_def)
next
  case False
  define secs where "secs = ms div 1000"
  define h m s where "h = secs div 3600" and "m = (secs mod 3600) div 60" and "s = secs mod 60"
  define ph pm ps where "ph = (if h > 0 then show_nat (unat h) @ ''h'' else [])" and "pm = (if m > 0 then show_nat (unat m) @ ''m'' else [])"
    and "ps = (if s > 0 \<or> (h = 0 \<and> m = 0) then show_nat (unat s) @ ''s'' else [])"
  have p: "ms_to_vault_duration ms = ph @ pm @ ps"
    using False by (simp add: ms_to_vault_duration_def Let_def ph_def pm_def ps_def h_def m_def s_def secs_def)
  have "scan_duration (ph @ bs) t 0 False = scan_duration bs (t + h * 3600000) 0 False" for bs t
    by (auto simp: ph_def scan_number word_gt_0 simp del: scan_duration.simps simp add: scan_unit)
  moreover have "scan_duration (pm @ bs) t 0 False = scan_duration bs (t + m * 60000) 0 False" for bs t
    by (auto simp: pm_def scan_number word_gt_0 simp del: scan_duration.simps simp add: scan_unit)
  moreover have "scan_duration (ps @ bs) t 0 False = scan_duration bs (t + s * 1000) 0 False" for bs t
    by (auto simp: ps_def scan_number word_gt_0 simp del: scan_duration.simps simp add: scan_unit)
  ultimately have "scan_duration (ph @ pm @ ps @ []) 0 0 False = scan_duration [] (0 + h * 3600000 + m * 60000 + s * 1000) 0 False"
    by (simp only:)
  then have "scan_duration (ph @ pm @ ps) 0 0 False = Inr (secs * 1000)"
    using split_seconds[of secs] by (simp add: h_def m_def s_def)
  moreover have "ph @ pm @ ps \<noteq> []" by (auto simp: ph_def pm_def ps_def word_gt_0)
  ultimately show ?thesis by (auto simp: parse_vault_duration_def p secs_def)
qed

text \<open>The parser adds and multiplies modulo \<open>2 ^ 64\<close>, so a number that is too large is accepted as another one.\<close>

lemma duration_wraps: "parse_vault_duration ''18446744073709551617s'' = Inr 1000"
  by code_simp

section \<open>Dates\<close>

text \<open>The 32-bit arithmetic of the conversion does not wrap.\<close>

lemma u32_ariths:
  fixes x y :: u32
  shows "uint x + uint y < 4294967296 \<Longrightarrow> uint (x + y) = uint x + uint y"
    and "uint y \<le> uint x \<Longrightarrow> uint (x - y) = uint x - uint y"
    and "uint x * uint y < 4294967296 \<Longrightarrow> uint (x * y) = uint x * uint y"
    and "uint (x div y) = uint x div uint y"
  using uint_add_lem[of x y] uint_sub_lem[of y x] uint_mult_lem[of x y] by (simp_all add: uint_div_distrib)

lemma word_year:
  fixes doe :: u32
  assumes "uint doe \<le> 146096"
  shows "uint ((doe - doe div 1460 + doe div 36524 - doe div 146096) div 365) = scaled (uint doe) div 365"
proof -
  define x where "x = uint doe"
  have d: "uint (doe div 1460) = x div 1460" "uint (doe div 36524) = x div 36524" "uint (doe div 146096) = x div 146096"
    by (simp_all add: u32_ariths x_def)
  have x: "0 \<le> x" "x \<le> 146096" using assms by (simp_all add: x_def)
  have b: "x div 1460 \<le> x" "0 \<le> x div 36524" "x div 36524 \<le> 4" "x div 146096 \<le> 1" "x div 146096 \<le> x - x div 1460 + x div 36524"
    "0 \<le> x div 1460" using x by linarith+
  have 1: "uint (doe - doe div 1460) = x - x div 1460" using u32_ariths(2)[of "doe div 1460" doe] d b by (simp add: x_def)
  have 2: "uint (doe - doe div 1460 + doe div 36524) = x - x div 1460 + x div 36524"
    using u32_ariths(1)[of "doe - doe div 1460" "doe div 36524"] 1 d b x by simp
  have 3: "uint (doe - doe div 1460 + doe div 36524 - doe div 146096) = scaled x"
    using u32_ariths(2)[of "doe div 146096" "doe - doe div 1460 + doe div 36524"] 2 d b by (simp add: scaled_def)
  show ?thesis by (simp add: u32_ariths(4) 3 x_def[symmetric])
qed

lemma word_day_of_year:
  fixes doe yoe :: u32
  assumes "uint doe \<le> 146096" "uint yoe = y" "0 \<le> y" "y \<le> 399" "year_start y \<le> uint doe"
  shows "uint (doe - (365 * yoe + yoe div 4 - yoe div 100)) = uint doe - year_start y"
proof -
  have 1: "uint (365 * yoe) = 365 * y" by (subst u32_ariths(3)) (use assms in simp_all)
  have 2: "uint (yoe div 4) = y div 4" "uint (yoe div 100) = y div 100" using assms(2) by (simp_all add: u32_ariths(4))
  have b: "y div 4 \<le> 100" "0 \<le> y div 4" "y div 100 \<le> 365 * y + y div 4" using assms(3,4) by linarith+
  have 3: "uint (365 * yoe + yoe div 4) = 365 * y + y div 4"
    using u32_ariths(1)[of "365 * yoe" "yoe div 4"] assms(3,4) 1 2 b by simp
  have 4: "uint (365 * yoe + yoe div 4 - yoe div 100) = year_start y"
    using u32_ariths(2)[of "yoe div 100" "365 * yoe + yoe div 4"] 2 3 b by (simp add: year_start_def)
  show ?thesis by (subst u32_ariths(2)) (use assms 4 in simp_all)
qed

lemma word_month:
  fixes doy :: u32
  assumes "uint doy \<le> 365"
  shows "uint ((5 * doy + 2) div 153) = (5 * uint doy + 2) div 153"
proof -
  have "uint (5 * doy) = 5 * uint doy" by (subst u32_ariths(3)) (use assms in simp_all)
  then have "uint (5 * doy + 2) = 5 * uint doy + 2" by (subst u32_ariths(1)) (use assms in simp_all)
  then show ?thesis by (simp add: u32_ariths(4))
qed

lemma word_day:
  fixes doy mp :: u32
  assumes "uint doy \<le> 365" "uint mp \<le> 11" "(153 * uint mp + 2) div 5 \<le> uint doy"
  shows "uint (doy - (153 * mp + 2) div 5 + 1) = uint doy - (153 * uint mp + 2) div 5 + 1"
proof -
  have "uint (153 * mp) = 153 * uint mp" by (subst u32_ariths(3)) (use assms in simp_all)
  then have "uint (153 * mp + 2) = 153 * uint mp + 2" by (subst u32_ariths(1)) (use assms in simp_all)
  then have 1: "uint ((153 * mp + 2) div 5) = (153 * uint mp + 2) div 5" by (simp add: u32_ariths(4))
  then have "uint (doy - (153 * mp + 2) div 5) = uint doy - (153 * uint mp + 2) div 5"
    by (subst u32_ariths(2)) (use assms in simp_all)
  moreover have "0 \<le> (153 * uint mp + 2) div 5" using uint_ge_0[of mp] by linarith
  ultimately show ?thesis using u32_ariths(1)[of "doy - (153 * mp + 2) div 5" 1] assms by simp
qed

lemma civil_correct:
  assumes "civil days = (y, m, d)"
  shows "civil_int (uint days) = (y, m, uint d)"
proof -
  define z where "z = uint days + 719468"
  define era where "era = z div 146097"
  define x where "x = z - era * 146097"
  have z: "0 \<le> z" by (simp add: z_def)
  have x: "0 \<le> x" "x \<le> 146096" unfolding x_def era_def by (simp_all add: minus_div_mult_eq_mod)
  define doe where "doe = (word_of_int x :: u32)"
  have doe: "uint doe = x" using x by (simp add: doe_def uint_word_of_int)
  define yoe where "yoe = (doe - doe div 1460 + doe div 36524 - doe div 146096) div 365"
  have yoe: "uint yoe = scaled x div 365" using word_year[of doe] x doe by (simp add: yoe_def)
  note yr = year_of_era[OF x]
  define doy where "doy = doe - (365 * yoe + yoe div 4 - yoe div 100)"
  have doy: "uint doy = x - year_start (scaled x div 365)"
    using word_day_of_year[of doe yoe "scaled x div 365"] yoe yr x doe by (simp add: doy_def)
  have doy365: "uint doy \<le> 365" using yr(4) year_start_step[OF yr(1,2), of 0] doy by (auto split: if_splits)
  define mp where "mp = (5 * doy + 2) div 153"
  have mp: "uint mp = (5 * uint doy + 2) div 153" using word_month[OF doy365] by (simp add: mp_def)
  have tab: "uint mp \<le> 11" "(153 * uint mp + 2) div 5 \<le> uint doy"
    using month_table doy365 mp by (auto simp: Let_def)
  have d: "uint (doy - (153 * mp + 2) div 5 + 1) = uint doy - (153 * uint mp + 2) div 5 + 1" by (rule word_day[OF doy365 tab])
  have ten: "mp < 10 \<longleftrightarrow> uint mp < 10" by (simp add: word_less_def)
  have era': "z sdiv 146097 = era" using z by (cases "z = 0") (simp_all add: era_def signed_divide_int_def)
  have "civil days = (uint yoe + era * 400 + (if uint mp + (if mp < 10 then 3 else - 9) \<le> 2 then 1 else 0),
      uint mp + (if mp < 10 then 3 else - 9), doy - (153 * mp + 2) div 5 + 1)"
    using z unfolding civil_def Let_def z_def[symmetric] by (simp add: era' x_def[symmetric] doe_def[symmetric] yoe_def[symmetric]
        doy_def[symmetric] mp_def[symmetric])
  moreover have "x - year_start (uint yoe) = uint doy" using doy yoe by simp
  ultimately show ?thesis using assms d ten unfolding civil_int_def Let_def
    by (simp only: z_def[symmetric] era_def[symmetric] x_def[symmetric] yoe[symmetric] mp[symmetric] prod.inject)
qed

lemma clock_split:
  fixes t :: nat
  shows "t div 3600 < 24 \<longleftrightarrow> t < 86400" "(t mod 3600) div 60 < 60" "t mod 60 < 60"
    "t div 3600 * 3600 + (t mod 3600) div 60 * 60 + t mod 60 = t"
proof -
  have "(t mod 3600) mod 60 = t mod 60" by (simp add: mod_mod_cancel)
  then show "t div 3600 * 3600 + (t mod 3600) div 60 * 60 + t mod 60 = t"
    using div_mult_mod_eq[of t 3600] div_mult_mod_eq[of "t mod 3600" 60] by linarith
  have "t mod 3600 < 3600" by simp
  then show "(t mod 3600) div 60 < 60" by linarith
qed auto

text \<open>
  C19: A time stamp is printed as the right moment: the text that \<open>epoch_ms_to_rfc3339\<close> returns for any 64-bit number of
  milliseconds shows a date that exists in the Gregorian calendar and a time of day, which together lie exactly that many
  seconds after the start of 1970, with the milliseconds as the fraction.  The arithmetic on 32-bit words never wraps.
\<close>

theorem rfc3339_correct:
  "\<exists>y m d h mi s. epoch_ms_to_rfc3339 ms = show_time (nat y) (nat m) (nat d) h mi s (unat ms mod 1000)
     \<and> valid_date y m d \<and> 1970 \<le> y \<and> h < 24 \<and> mi < 60 \<and> s < 60
     \<and> day_number y m d * 86400 + int (h * 3600 + mi * 60 + s) = int (unat ms div 1000)"
proof (cases "ms = 0")
  case True
  show ?thesis
    by (rule exI[of _ 1970], rule exI[of _ 1], rule exI[of _ 1], rule exI[of _ 0], rule exI[of _ 0], rule exI[of _ 0])
      (simp add: True epoch_ms_to_rfc3339_def, code_simp)
next
  case False
  define t where "t = unat ms div 1000"
  define days where "days = ms div 1000 div 86400"
  obtain y m w where civil: "civil days = (y, m, w)" by (cases "civil days")
  have days: "uint days = int (t div 86400)" by (simp add: days_def t_def uint_nat unat_div_distrib)
  note date = civil_int_correct[OF _ civil_correct[OF civil], simplified]
  define r where "r = t mod 86400"
  have words: "unat (ms div 1000 mod 86400 div 3600) = r div 3600" "unat (ms div 1000 mod 86400 mod 3600 div 60) = (r mod 3600) div 60"
    "unat (ms div 1000 mod 86400 mod 60) = r mod 60" "unat (ms mod 1000) = unat ms mod 1000"
    by (simp_all add: r_def t_def unat_div_distrib unat_mod_distrib)
  have "epoch_ms_to_rfc3339 ms = show_time (nat y) (nat m) (nat (uint w)) (r div 3600) ((r mod 3600) div 60) (r mod 60) (unat ms mod 1000)"
    using False civil unfolding epoch_ms_to_rfc3339_def Let_def words days_def[symmetric]
    by (simp only: if_False prod.case unat_eq_nat_uint[symmetric])
  moreover have "r < 86400" by (simp add: r_def)
  moreover have "day_number y m (uint w) * 86400 + int r = int t"
    using date(2) days div_mult_mod_eq[of t 86400] unfolding r_def by linarith
  ultimately show ?thesis using date clock_split[of r] unfolding t_def[symmetric] by metis
qed

end
