(* ===== verification/Http_Handler.thy ===== *)
theory Http_Handler
  imports Sys_Handler Sonic_Json Time_Format
begin

text \<open>
  The HTTP interface (\<^verbatim>\<open>src/server/http_handler.rs\<close>): the routes, the extraction of mount, path and parameters from the
  URI, the handlers, the texts of the answers and the errors.  The packages are parameters: \<open>sonic\<close> for JSON
  documents, \<open>axum\<close> for the choice of the route and the answers without a handler.  A URI is its path and its query;
  the clock is a function from the number of the call within the request.
\<close>

record uri =
  uri_path :: string
  uri_query :: "string option"

datatype http_method = GET | POST | PUT | DELETE | PATCH | OTHER

record http_request =
  req_method :: http_method
  req_uri :: uri
  req_body :: bytes

record response =
  status :: nat
  content_type :: "string option"
  resp_body :: string

record axum =
  ax_route :: "string list \<Rightarrow> string \<Rightarrow> string option"
  ax_not_found :: response
  ax_not_allowed :: response
  ax_json :: "document \<Rightarrow> response"

datatype app_error = MountNotFound | Engine engine_error

section \<open>Parameters of a request\<close>

definition strip_prefix :: "string \<Rightarrow> string \<Rightarrow> string option" where
  "strip_prefix p s = (if take (length p) s = p then Some (drop (length p) s) else None)"

fun splitn :: "nat \<Rightarrow> string \<Rightarrow> string list" where
  "splitn 0 s = []"
| "splitn (Suc 0) s = [s]"
| "splitn (Suc (Suc n)) s = (case dropWhile (\<lambda>c. c \<noteq> CHR ''/'') s of
     [] \<Rightarrow> [s]
   | _ # rest \<Rightarrow> takeWhile (\<lambda>c. c \<noteq> CHR ''/'') s # splitn (Suc n) rest)"

definition extract_mount_and_path :: "string \<Rightarrow> string \<Rightarrow> (string \<times> string) option" where
  "extract_mount_and_path path expected_action = do {
     path_without_version \<leftarrow> strip_prefix ''/v1/'' path;
     (case splitn 3 path_without_version of
        mnt # action # rest \<Rightarrow>
          if action \<noteq> expected_action then None
          else (case rest of [] \<Rightarrow> None | secret_path # _ \<Rightarrow> Some (mnt, secret_path))
      | _ \<Rightarrow> None)
   }"

text \<open>The text after the first occurrence of a pattern, as \<^verbatim>\<open>find\<close> and slicing give it.\<close>

fun after_first :: "string \<Rightarrow> string \<Rightarrow> string option" where
  "after_first pat s = (if take (length pat) s = pat then Some (drop (length pat) s)
     else (case s of [] \<Rightarrow> None | _ # s' \<Rightarrow> after_first pat s'))"

declare after_first.simps [simp del]

text \<open>\<^verbatim>\<open>str::parse::<u32>\<close>: decimal digits, an optional plus sign, no overflow.\<close>

definition parse_u32 :: "string \<Rightarrow> u32 option" where
  "parse_u32 s = (let ds = (case s of c # cs \<Rightarrow> if c = CHR ''+'' then cs else s | [] \<Rightarrow> s) in
     if ds = [] \<or> \<not> list_all (\<lambda>c. 48 \<le> (of_char c :: nat) \<and> (of_char c :: nat) \<le> 57) ds \<or> 2 ^ 32 \<le> read_digits ds then None
     else Some (of_nat (read_digits ds)))"

definition number_param :: "string \<Rightarrow> uri \<Rightarrow> u32" where
  "number_param name u = (case do {
       q \<leftarrow> uri_query u;
       s \<leftarrow> after_first name q;
       parse_u32 (takeWhile (\<lambda>c. c \<noteq> CHR ''&'') s)
     } of None \<Rightarrow> 0 | Some n \<Rightarrow> n)"

definition extract_version_param :: "uri \<Rightarrow> u32" where
  "extract_version_param u = number_param ''version='' u"

definition extract_depth_param :: "uri \<Rightarrow> u32" where
  "extract_depth_param u = number_param ''depth='' u"

definition extract_list_param :: "uri \<Rightarrow> bool" where
  "extract_list_param u = (case uri_query u of None \<Rightarrow> False | Some q \<Rightarrow> after_first ''list=true'' q \<noteq> None)"

text \<open>The conversion \<^verbatim>\<open>num as u32\<close> keeps the low 32 bits.\<close>

definition parse_versions_list :: "'v sonic \<Rightarrow> bytes \<Rightarrow> u32 list" where
  "parse_versions_list J body = (case do {
       root \<leftarrow> v_parse J body;
       v \<leftarrow> v_get J root ''versions'';
       v_array J v
     } of None \<Rightarrow> [] | Some arr \<Rightarrow> map ucast (List.map_filter (v_u64 J) arr))"

text \<open>\<^verbatim>\<open>String::from_utf8_lossy\<close>: each maximal ill-formed sequence becomes U+FFFD.\<close>

definition replacement :: bytes where
  "replacement = [CHR 0xEF, CHR 0xBF, CHR 0xBD]"

definition second_ok :: "char \<Rightarrow> char \<Rightarrow> bool" where
  "second_ok a b =
     ((byte_in 0xC2 0xDF a \<and> byte_in 0x80 0xBF b) \<or> (byte_in 0xE0 0xE0 a \<and> byte_in 0xA0 0xBF b) \<or> (byte_in 0xE1 0xEC a \<and> byte_in 0x80 0xBF b)
      \<or> (byte_in 0xED 0xED a \<and> byte_in 0x80 0x9F b) \<or> (byte_in 0xEE 0xEF a \<and> byte_in 0x80 0xBF b)
      \<or> (byte_in 0xF0 0xF0 a \<and> byte_in 0x90 0xBF b) \<or> (byte_in 0xF1 0xF3 a \<and> byte_in 0x80 0xBF b) \<or> (byte_in 0xF4 0xF4 a \<and> byte_in 0x80 0x8F b))"

fun utf8_lossy :: "bytes \<Rightarrow> string" where
  "utf8_lossy [] = []"
| "utf8_lossy (a # bs) =
     (if byte_in 0x00 0x7F a then a # utf8_lossy bs
      else (case bs of
        [] \<Rightarrow> replacement
      | b # bs2 \<Rightarrow>
        if \<not> second_ok a b then replacement @ utf8_lossy bs
        else if byte_in 0xC2 0xDF a then a # b # utf8_lossy bs2
        else (case bs2 of
          [] \<Rightarrow> replacement
        | c # bs3 \<Rightarrow>
          if \<not> byte_in 0x80 0xBF c then replacement @ utf8_lossy bs2
          else if byte_in 0xE0 0xEF a then a # b # c # utf8_lossy bs3
          else (case bs3 of
            [] \<Rightarrow> replacement
          | d # bs4 \<Rightarrow>
            if \<not> byte_in 0x80 0xBF d then replacement @ utf8_lossy bs3
            else a # b # c # d # utf8_lossy bs4))))"

section \<open>Answers\<close>

definition json_response :: "string \<Rightarrow> response" where
  "json_response text = \<lparr>status = 200, content_type = Some ''application/json'', resp_body = text\<rparr>"

definition no_content :: response where
  "no_content = \<lparr>status = 204, content_type = None, resp_body = []\<rparr>"

definition show_bool :: "bool \<Rightarrow> string" where
  "show_bool b = (if b then ''true'' else ''false'')"

definition secret_text :: "secret_payload \<Rightarrow> version_state \<Rightarrow> string" where
  "secret_text payload meta =
     (let created_time = epoch_ms_to_rfc3339 (created_time_ms meta);
          deletion_time = (if deletion_time_ms meta > 0 then ''\"'' @ epoch_ms_to_rfc3339 (deletion_time_ms meta) @ ''\"'' else ''\"\"'')
      in ''{\"data\":{\"data\":'' @ payload_value payload @ '',\"metadata\":{\"version\":'' @ show_nat (unat (version_id meta))
         @ '',\"created_time\":\"'' @ created_time @ ''\",\"deletion_time\":'' @ deletion_time
         @ '',\"destroyed\":'' @ show_bool (destroyed meta) @ ''}}}'')"

definition patch_text :: "version_state \<Rightarrow> string" where
  "patch_text latest_vs =
     ''{\"data\":{\"version\":'' @ show_nat (unat (version_id latest_vs)) @ '',\"created_time\":\"''
     @ epoch_ms_to_rfc3339 (created_time_ms latest_vs) @ ''\",\"deletion_time\":\"\",\"destroyed\":false}}''"

text \<open>A comma goes before every item but the first.\<close>

definition commas :: "string list \<Rightarrow> string" where
  "commas items = concat (map (\<lambda>(i, t). (if i > 0 then '','' else []) @ t) (enumerate 0 items))"

definition keys_text :: "string list \<Rightarrow> string" where
  "keys_text keys = ''{\"data\":{\"keys\":['' @ commas (map (\<lambda>key. ''\"'' @ key @ ''\"'') keys) @ '']}}''"

definition version_text :: "version_state \<Rightarrow> string" where
  "version_text v =
     ''\"'' @ show_nat (unat (version_id v)) @ ''\":{''
     @ ''\"created_time\":\"'' @ epoch_ms_to_rfc3339 (created_time_ms v) @ ''\",\"deletion_time\":''
     @ (if deletion_time_ms v > 0 then epoch_ms_to_rfc3339 (deletion_time_ms v) else [])
     @ ''\",\"destroyed\":'' @ show_bool (destroyed v) @ ''}''"

definition metadata_text :: "'v sonic \<Rightarrow> key_metadata \<Rightarrow> string option" where
  "metadata_text J metadata = do {
     custom \<leftarrow> v_print_map J (custom_metadata metadata);
     Some (''{\"data\":{\"cas_required\":'' @ show_bool (cas_required metadata)
       @ '',\"current_version\":'' @ show_nat (unat (current_version metadata))
       @ '',\"max_versions\":'' @ show_nat (unat (max_versions metadata))
       @ '',\"delete_version_after\":\"'' @ ms_to_vault_duration (delete_version_after_ms metadata)
       @ ''\",\"custom_metadata\":'' @ custom @ '',\"versions\":{''
       @ commas (map version_text (versions metadata)) @ ''}}}'')
   }"

fun error_status :: "app_error \<Rightarrow> nat \<times> string" where
  "error_status MountNotFound = (404, ''Mount path not found'')"
| "error_status (Engine NotFound) = (404, ''Secret not found'')"
| "error_status (Engine SoftDeleted) = (404, ''Secret soft-deleted'')"
| "error_status (Engine Destroyed) = (404, ''Key destroyed'')"
| "error_status (Engine (InvalidVersion v)) = (404, ''Invalid version: '' @ show_nat (unat v))"
| "error_status (Engine (CasMismatch _ _)) = (409, ''CAS mismatch'')"
| "error_status (Engine (StorageError msg)) = (500, msg)"
| "error_status (Engine QueueFull) = (503, ''Write queue full'')"

definition into_response :: "app_error \<Rightarrow> response" where
  "into_response err = (case error_status err of (code, err_msg) \<Rightarrow>
     \<lparr>status = code, content_type = Some ''application/json'', resp_body = ''{\"errors\":[\"'' @ err_msg @ '']}''\<rparr>)"

section \<open>Handlers\<close>

type_synonym ('s, 'a) http = "('s engine_registry, app_error, 'a) call"

text \<open>How every handler begins: the mount and the path of the URI, and the engine of the mount.\<close>

definition resolve_uri :: "string \<Rightarrow> uri \<Rightarrow> ('s, nat \<times> string) http" where
  "resolve_uri action u reg = (case extract_mount_and_path (uri_path u) action of
     None \<Rightarrow> fail MountNotFound reg
   | Some (mnt, path) \<Rightarrow> (case resolve mnt reg of
       None \<Rightarrow> fail MountNotFound reg
     | Some engine \<Rightarrow> ok (engine, path) reg))"

text \<open>A call of an engine; its errors become errors of the application.\<close>

definition on_engine :: "nat \<Rightarrow> ('s, engine_error, 'a) call \<Rightarrow> ('s, 'a) http" where
  "on_engine engine m reg = do {
     s \<leftarrow> heap reg engine;
     (r, s') \<leftarrow> m s;
     Some (map_sum Engine id r, reg\<lparr>heap := (heap reg)(engine \<mapsto> s')\<rparr>)
   }"

text \<open>A panic, and \<^verbatim>\<open>unwrap\<close>.\<close>

definition unwrap :: "'a option \<Rightarrow> ('s, 'a) http" where
  "unwrap x reg = (case x of None \<Rightarrow> None | Some y \<Rightarrow> ok y reg)"

definition read_secret :: "'s engine_ops \<Rightarrow> uri \<Rightarrow> ('s, response) http" where
  "read_secret K u = andthen (resolve_uri ''data'' u) (\<lambda>(engine, path).
     andthen (on_engine engine (op_read_version K path (extract_version_param u))) (\<lambda>(payload, meta).
     ok (json_response (secret_text payload meta))))"

text \<open>The value that a patch makes of the current one, and the version it asks for.\<close>

definition patched_value :: "'v sonic \<Rightarrow> string \<Rightarrow> 'v \<Rightarrow> 'v option" where
  "patched_value J current patch_body =
     (let current_value = (case v_parse J current of None \<Rightarrow> v_empty J | Some v \<Rightarrow> v);
          patch_data = (case v_get J patch_body ''data'' of None \<Rightarrow> patch_body | Some d \<Rightarrow> d)
      in json_merge_patch J current_value patch_data)"

definition patch_cas :: "'v sonic \<Rightarrow> 'v \<Rightarrow> u32 option" where
  "patch_cas J patch_body = do {
     opts \<leftarrow> v_get J patch_body ''options'';
     cas \<leftarrow> v_get J opts ''cas'';
     n \<leftarrow> v_u64 J cas;
     Some (ucast n)
   }"

definition patch_secret :: "'s engine_ops \<Rightarrow> 'v sonic \<Rightarrow> u64 \<Rightarrow> uri \<Rightarrow> bytes \<Rightarrow> ('s, response) http" where
  "patch_secret K J now u body = andthen (resolve_uri ''data'' u) (\<lambda>(engine, path).
     andthen (on_engine engine (op_read_version K path 0)) (\<lambda>(current_payload, _).
     (case v_parse J body of
        None \<Rightarrow> fail (Engine (StorageError ''Invalid patch JSON''))
      | Some patch_body \<Rightarrow>
          andthen (unwrap (patched_value J (payload_value current_payload) patch_body)) (\<lambda>current_value.
          andthen (unwrap (v_print J current_value)) (\<lambda>text.
          andthen (on_engine engine (op_put_version K now path \<lparr>payload_value = text, payload_ttl = payload_ttl current_payload\<rparr> (patch_cas J patch_body))) (\<lambda>_.
          andthen (on_engine engine (op_read_metadata K path)) (\<lambda>meta_after.
          andthen (unwrap (if versions meta_after = [] then None else Some (last (versions meta_after)))) (\<lambda>latest_vs.
          ok (json_response (patch_text latest_vs))))))))))"

definition read_subkeys :: "'s engine_ops \<Rightarrow> 'v sonic \<Rightarrow> uri \<Rightarrow> ('s, response) http" where
  "read_subkeys K J u = andthen (resolve_uri ''subkeys'' u) (\<lambda>(engine, path).
     andthen (on_engine engine (op_read_version K path (extract_version_param u))) (\<lambda>(payload, _).
     andthen (unwrap (strip_to_subkeys J (case v_parse J (payload_value payload) of None \<Rightarrow> v_empty J | Some v \<Rightarrow> v) 0 (extract_depth_param u))) (\<lambda>val.
     andthen (unwrap (v_print J val)) (\<lambda>text.
     ok (json_response (''{\"data\":{\"subkeys\":'' @ text @ ''}}''))))))"

definition write_value :: "'v sonic \<Rightarrow> bytes \<Rightarrow> string" where
  "write_value J body =
     (let secret_value = (case v_raw J body ''data'' of None \<Rightarrow> [] | Some raw \<Rightarrow> raw)
      in if secret_value = [] then utf8_lossy body else secret_value)"

definition write_secret :: "'s engine_ops \<Rightarrow> 'v sonic \<Rightarrow> u64 \<Rightarrow> uri \<Rightarrow> bytes \<Rightarrow> ('s, response) http" where
  "write_secret K J now u body = andthen (resolve_uri ''data'' u) (\<lambda>(engine, path).
     andthen (on_engine engine (op_put_version K now path \<lparr>payload_value = write_value J body, payload_ttl = 0\<rparr> None)) (\<lambda>_.
     ok no_content))"

definition delete_latest :: "'s engine_ops \<Rightarrow> u64 \<Rightarrow> uri \<Rightarrow> ('s, response) http" where
  "delete_latest K now u = andthen (resolve_uri ''data'' u) (\<lambda>(engine, path).
     andthen (on_engine engine (op_soft_delete K now path 0)) (\<lambda>_.
     ok no_content))"

text \<open>The loops over the versions of a request; the \<open>i\<close>-th call reads the clock at \<open>clock i\<close>.\<close>

fun each_version :: "(nat \<Rightarrow> u32 \<Rightarrow> ('s, unit) http) \<Rightarrow> nat \<Rightarrow> u32 list \<Rightarrow> ('s, unit) http" where
  "each_version f i [] = ok ()"
| "each_version f i (version # vs) = andthen (f i version) (\<lambda>_. each_version f (Suc i) vs)"

definition soft_delete_versions :: "'s engine_ops \<Rightarrow> 'v sonic \<Rightarrow> (nat \<Rightarrow> u64) \<Rightarrow> uri \<Rightarrow> bytes \<Rightarrow> ('s, response) http" where
  "soft_delete_versions K J clock u body = andthen (resolve_uri ''delete'' u) (\<lambda>(engine, path).
     andthen (each_version (\<lambda>i version. on_engine engine (op_soft_delete K (clock i) path version)) 0 (parse_versions_list J body)) (\<lambda>_.
     ok no_content))"

definition undelete_versions :: "'s engine_ops \<Rightarrow> 'v sonic \<Rightarrow> uri \<Rightarrow> bytes \<Rightarrow> ('s, response) http" where
  "undelete_versions K J u body = andthen (resolve_uri ''undelete'' u) (\<lambda>(engine, path).
     andthen (each_version (\<lambda>_ version. on_engine engine (op_undelete K path version)) 0 (parse_versions_list J body)) (\<lambda>_.
     ok no_content))"

definition destroy_versions :: "'s engine_ops \<Rightarrow> 'v sonic \<Rightarrow> uri \<Rightarrow> bytes \<Rightarrow> ('s, response) http" where
  "destroy_versions K J u body = andthen (resolve_uri ''destroy'' u) (\<lambda>(engine, path).
     andthen (each_version (\<lambda>_ version. on_engine engine (op_destroy_version K path version)) 0 (parse_versions_list J body)) (\<lambda>_.
     ok no_content))"

definition read_metadata_handler :: "'s engine_ops \<Rightarrow> 'v sonic \<Rightarrow> uri \<Rightarrow> ('s, response) http" where
  "read_metadata_handler K J u = andthen (resolve_uri ''metadata'' u) (\<lambda>(engine, path).
     if extract_list_param u then
       andthen (on_engine engine (op_list_keys K path)) (\<lambda>keys. ok (json_response (keys_text keys)))
     else
       andthen (on_engine engine (op_read_metadata K path)) (\<lambda>metadata.
       andthen (unwrap (metadata_text J metadata)) (\<lambda>text.
       ok (json_response text))))"

section \<open>The router\<close>

datatype handler =
    Read_Secret | Write_Secret | Delete_Latest | Patch_Secret | Read_Subkeys | Soft_Delete_Versions
  | Undelete_Versions | Destroy_Versions | Read_Metadata_Handler | Fixed document

definition sys_routes :: "(string \<times> (http_method \<times> handler) list) list" where
  "sys_routes = [
     (''/health'', [(GET, Fixed health_check)]),
     (''/mounts'', [(GET, Fixed get_mounts)]),
     (''/seal-status'', [(GET, Fixed seal_status)]),
     (''/internal/ui/mounts/*path'', [(GET, Fixed get_internal_ui_mounts)])]"

definition routes :: "(string \<times> (http_method \<times> handler) list) list" where
  "routes = [
     (''/v1/:mount/data/*path'', [(GET, Read_Secret), (POST, Write_Secret), (PUT, Write_Secret), (DELETE, Delete_Latest), (PATCH, Patch_Secret)]),
     (''/v1/:mount/subkeys/*path'', [(GET, Read_Subkeys)]),
     (''/v1/:mount/delete/*path'', [(POST, Soft_Delete_Versions)]),
     (''/v1/:mount/undelete/*path'', [(POST, Undelete_Versions)]),
     (''/v1/:mount/destroy/*path'', [(PUT, Destroy_Versions)]),
     (''/v1/:mount/metadata/*path'', [(GET, Read_Metadata_Handler)])]
   @ map (apfst ((@) ''/v1/sys'')) sys_routes"

definition run_handler :: "axum \<Rightarrow> 's engine_ops \<Rightarrow> 'v sonic \<Rightarrow> (nat \<Rightarrow> u64) \<Rightarrow> handler \<Rightarrow> uri \<Rightarrow> bytes \<Rightarrow> ('s, response) http" where
  "run_handler A K J clock h u body = (case h of
     Read_Secret \<Rightarrow> read_secret K u
   | Write_Secret \<Rightarrow> write_secret K J (clock 0) u body
   | Delete_Latest \<Rightarrow> delete_latest K (clock 0) u
   | Patch_Secret \<Rightarrow> patch_secret K J (clock 0) u body
   | Read_Subkeys \<Rightarrow> read_subkeys K J u
   | Soft_Delete_Versions \<Rightarrow> soft_delete_versions K J clock u body
   | Undelete_Versions \<Rightarrow> undelete_versions K J u body
   | Destroy_Versions \<Rightarrow> destroy_versions K J u body
   | Read_Metadata_Handler \<Rightarrow> read_metadata_handler K J u
   | Fixed doc \<Rightarrow> ok (ax_json A doc))"

definition vault_kv_router :: "axum \<Rightarrow> 's engine_ops \<Rightarrow> 'v sonic \<Rightarrow> (nat \<Rightarrow> u64) \<Rightarrow> http_request
    \<Rightarrow> 's engine_registry \<Rightarrow> (response \<times> 's engine_registry) option" where
  "vault_kv_router A K J clock req reg =
     (case ax_route A (map fst routes) (uri_path (req_uri req)) of
        None \<Rightarrow> Some (ax_not_found A, reg)
      | Some pattern \<Rightarrow>
        (case map_of routes pattern of
           None \<Rightarrow> Some (ax_not_found A, reg)
         | Some methods \<Rightarrow>
           (case map_of methods (req_method req) of
              None \<Rightarrow> Some (ax_not_allowed A, reg)
            | Some h \<Rightarrow> do {
                (r, reg') \<leftarrow> run_handler A K J clock h (req_uri req) (req_body req) reg;
                Some (case r of Inl err \<Rightarrow> into_response err | Inr resp \<Rightarrow> resp, reg')
              })))"

end
