(* ===== verification/Served_Engine.thy ===== *)
theory Served_Engine
  imports Http_Handler Kv_Theorems
begin

text \<open>
  The interface between the HTTP handlers and the engines.  The handlers run on the methods of an engine
  (\<open>engine_ops\<close>); \<open>spec_ops\<close> are the methods of the abstract store of \<open>Kv_Spec\<close>.  The locale \<open>engine_service\<close> extends the contract
  of a secret engine by the flush, and in it the handlers over the engine are shown to simulate the handlers
  over the abstract store; it is interpreted on the key-value engine.
\<close>

section \<open>Simulation of calls\<close>

definition sim :: "('s \<Rightarrow> 't \<Rightarrow> bool) \<Rightarrow> ('s, 'e, 'a) call \<Rightarrow> ('t, 'e, 'a) call \<Rightarrow> bool" where
  "sim R m m' \<longleftrightarrow> (\<forall>s t. R s t \<longrightarrow> rel_option (rel_prod (=) R) (m s) (m' t))"

named_theorems sim_intros \<open>calls that simulate each other\<close>

lemma simI: "(\<And>s t. R s t \<Longrightarrow> rel_option (rel_prod (=) R) (m s) (m' t)) \<Longrightarrow> sim R m m'"
  by (simp add: sim_def)

lemma simD: "sim R m m' \<Longrightarrow> R s t \<Longrightarrow> rel_option (rel_prod (=) R) (m s) (m' t)"
  by (simp add: sim_def)

lemma sim_ok [sim_intros]: "sim R (ok x) (ok x)" and sim_fail [sim_intros]: "sim R (fail e) (fail e)"
  by (simp_all add: sim_def)

lemma sim_andthen [sim_intros]: "sim R m m' \<Longrightarrow> (\<And>x. sim R (f x) (f' x)) \<Longrightarrow> sim R (andthen m f) (andthen m' f')"
proof (rule simI)
  fix s t assume h: "sim R m m'" "\<And>x. sim R (f x) (f' x)" "R s t"
  from simD[OF h(1,3)] show "rel_option (rel_prod (=) R) (andthen m f s) (andthen m' f' t)"
  proof (cases rule: option.rel_cases)
    case (Some x y)
    then obtain r s' t' where eq: "m s = Some (r, s')" "m' t = Some (r, t')" "R s' t'" by (cases x, cases y) auto
    then show ?thesis using simD[OF h(2) eq(3)] by (cases r) simp_all
  qed simp
qed

lemma sim_case_prod [sim_intros]: "(\<And>a b. sim R (f a b) (f' a b)) \<Longrightarrow> sim R (case_prod f p) (case_prod f' p)"
  by (cases p) simp

lemma sim_if [sim_intros]: "sim R a a' \<Longrightarrow> sim R b b' \<Longrightarrow> sim R (if c then a else b) (if c then a' else b')"
  by simp

lemma sim_option [sim_intros]:
  "sim R a a' \<Longrightarrow> (\<And>x. sim R (f x) (f' x)) \<Longrightarrow> sim R (case x of None \<Rightarrow> a | Some y \<Rightarrow> f y) (case x of None \<Rightarrow> a' | Some y \<Rightarrow> f' y)"
  by (cases x) simp_all

lemma sim_map:
  assumes "sim R (andthen m (\<lambda>x. ok (c x))) m'" "\<And>x. f (c x) = x"
  shows "sim R m (\<lambda>t. map_option (apfst (map_sum id f)) (m' t))"
proof (rule simI)
  fix s t assume "R s t"
  from simD[OF assms(1) this] show "rel_option (rel_prod (=) R) (m s) (map_option (apfst (map_sum id f)) (m' t))"
  proof (cases "m s")
    case (Some rs)
    then show ?thesis using \<open>rel_option _ _ _\<close> by (cases rs; cases "fst rs") (auto simp: option_rel_Some1 rel_prod_sel assms(2))
  qed (simp add: option.rel_sel)
qed

section \<open>The abstract store as an engine\<close>

fun dispatch :: "'s engine_ops \<Rightarrow> request \<Rightarrow> ('s, engine_error, answer) call" where
  "dispatch K (Read_Version path version) = andthen (op_read_version K path version) (\<lambda>(pl, vs). ok (Secret pl vs))"
| "dispatch K (Read_Metadata path) = andthen (op_read_metadata K path) (\<lambda>meta. ok (Metadata meta))"
| "dispatch K (Put_Version now path payload cas) = andthen (op_put_version K now path payload cas) (\<lambda>_. ok Done)"
| "dispatch K (Soft_Delete now path version) = andthen (op_soft_delete K now path version) (\<lambda>_. ok Done)"
| "dispatch K (Undelete path version) = andthen (op_undelete K path version) (\<lambda>_. ok Done)"
| "dispatch K (Destroy_Version path version) = andthen (op_destroy_version K path version) (\<lambda>_. ok Done)"
| "dispatch K (List_Keys prefix) = andthen (op_list_keys K prefix) (\<lambda>keys. ok (Keys keys))"

lemma dispatch_kv: "dispatch (kv_ops E) req = kv_step E req"
  by (cases req) simp_all

definition spec_call :: "(answer \<Rightarrow> 'a) \<Rightarrow> request \<Rightarrow> (vstore, engine_error, 'a) call" where
  "spec_call f req st = Some (apfst (map_sum id f) (spec_step req st))"

definition spec_ops :: "vstore engine_ops" where
  "spec_ops = \<lparr>
     op_read_version = (\<lambda>path version. spec_call (\<lambda>a. case a of Secret pl vs \<Rightarrow> (pl, vs)) (Read_Version path version)),
     op_read_metadata = (\<lambda>path. spec_call (\<lambda>a. case a of Metadata meta \<Rightarrow> meta) (Read_Metadata path)),
     op_put_version = (\<lambda>now path payload cas. spec_call (\<lambda>_. ()) (Put_Version now path payload cas)),
     op_soft_delete = (\<lambda>now path version. spec_call (\<lambda>_. ()) (Soft_Delete now path version)),
     op_undelete = (\<lambda>path version. spec_call (\<lambda>_. ()) (Undelete path version)),
     op_destroy_version = (\<lambda>path version. spec_call (\<lambda>_. ()) (Destroy_Version path version)),
     op_list_keys = (\<lambda>prefix. spec_call (\<lambda>a. case a of Keys keys \<Rightarrow> keys) (List_Keys prefix)),
     op_force_flush = ok ()\<rparr>"

section \<open>Registries\<close>

text \<open>
  Two registries with the mounts \<open>ms\<close>: every engine of the first satisfies its invariant and holds the store that the
  second has for it.
\<close>

definition represents :: "('s \<Rightarrow> bool) \<Rightarrow> ('s \<Rightarrow> vstore) \<Rightarrow> 's \<Rightarrow> vstore \<Rightarrow> bool" where
  "represents I store s st \<longleftrightarrow> I s \<and> store s = st"

definition served :: "(string \<times> nat) list \<Rightarrow> ('s \<Rightarrow> bool) \<Rightarrow> ('s \<Rightarrow> vstore) \<Rightarrow> 's engine_registry \<Rightarrow> vstore engine_registry \<Rightarrow> bool" where
  "served ms I store reg sreg \<longleftrightarrow> engines reg = ms \<and> engines sreg = ms \<and> snd ` set ms \<subseteq> dom (heap reg)
     \<and> (\<forall>r. rel_option (represents I store) (heap reg r) (heap sreg r))"

lemma served_at:
  assumes "served ms I store reg sreg"
  shows "heap reg r = Some s \<Longrightarrow> I s \<and> heap sreg r = Some (store s)" "heap reg r = None \<Longrightarrow> heap sreg r = None"
  using assms[unfolded served_def, THEN conjunct2, THEN conjunct2, THEN conjunct2, rule_format, of r] by (auto simp: represents_def option_rel_Some1)

lemma sim_resolve_uri [sim_intros]: "sim (served ms I store) (resolve_uri action u) (resolve_uri action u)"
  by (rule simI) (auto simp: served_def resolve_uri_def resolve_def split: option.splits prod.splits)

lemma sim_unwrap [sim_intros]: "sim R (unwrap x) (unwrap x)" for R :: "'s engine_registry \<Rightarrow> 't engine_registry \<Rightarrow> bool"
  by (rule simI) (simp add: unwrap_def split: option.splits)

lemma sim_on_engine [sim_intros]:
  assumes "sim (represents I store) m m'"
  shows "sim (served ms I store) (on_engine r m) (on_engine r m')"
proof (rule simI)
  fix reg sreg assume h: "served ms I store reg sreg"
  then have "rel_option (represents I store) (heap reg r) (heap sreg r)" by (simp add: served_def)
  then show "rel_option (rel_prod (=) (served ms I store)) (on_engine r m reg) (on_engine r m' sreg)"
  proof (cases rule: option.rel_cases)
    case (Some s st)
    then have "rel_option (rel_prod (=) (represents I store)) (m s) (m' st)" by (intro simD[OF assms]) simp
    then show ?thesis
    proof (cases rule: option.rel_cases)
      case (Some x y)
      then show ?thesis using h \<open>heap reg r = Some s\<close> \<open>heap sreg r = Some st\<close>
        by (cases x, cases y) (auto simp: on_engine_def served_def)
    qed (use Some in \<open>simp add: on_engine_def\<close>)
  qed (simp add: on_engine_def)
qed

lemma sim_each_version [sim_intros]:
  "(\<And>i v. sim R (f i v) (f' i v)) \<Longrightarrow> sim R (each_version f n vs) (each_version f' n vs)"
  for R :: "'s engine_registry \<Rightarrow> 't engine_registry \<Rightarrow> bool"
  by (induction vs arbitrary: n) (auto intro!: sim_intros)

section \<open>The contract of a served engine\<close>

locale engine_service = secret_engine inv store "dispatch K"
  for inv :: "'s \<Rightarrow> bool" and store :: "'s \<Rightarrow> vstore" and K :: "'s engine_ops" +
  assumes flush_law: "inv s \<Longrightarrow> wp (op_force_flush K) (\<lambda>r s'. inv s' \<and> store s' = store s) s"
begin

lemma dispatch_sim: "sim (represents inv store) (dispatch K req) (\<lambda>st. Some (spec_step req st))"
proof (rule simI)
  fix s st assume "represents inv store s st"
  then have s: "inv s" "store s = st" by (simp_all add: represents_def)
  obtain r s' where "dispatch K req s = Some (r, s')" "inv s'" "spec_step req st = (r, store s')"
    using step_law[OF s(1), of req] unfolding wp_def s(2) by metis
  then show "rel_option (rel_prod (=) (represents inv store)) (dispatch K req s) (Some (spec_step req st))"
    by (simp add: represents_def)
qed

lemma call_sim:
  assumes "dispatch K req = andthen m (\<lambda>x. ok (c x))" "\<And>x. f (c x) = x"
  shows "sim (represents inv store) m (spec_call f req)"
proof -
  have "spec_call f req = (\<lambda>t. map_option (apfst (map_sum id f)) (Some (spec_step req t)))" by (simp add: spec_call_def fun_eq_iff)
  then show ?thesis using sim_map[OF dispatch_sim[of req, unfolded assms(1)] assms(2)] by simp
qed

lemma ops_sim [sim_intros]:
  "sim (represents inv store) (op_read_version K path version) (op_read_version spec_ops path version)"
  "sim (represents inv store) (op_read_metadata K path) (op_read_metadata spec_ops path)"
  "sim (represents inv store) (op_put_version K now path payload cas) (op_put_version spec_ops now path payload cas)"
  "sim (represents inv store) (op_soft_delete K now path version) (op_soft_delete spec_ops now path version)"
  "sim (represents inv store) (op_undelete K path version) (op_undelete spec_ops path version)"
  "sim (represents inv store) (op_destroy_version K path version) (op_destroy_version spec_ops path version)"
  "sim (represents inv store) (op_list_keys K path) (op_list_keys spec_ops path)"
proof -
  have "dispatch K (Read_Version path version) = andthen (op_read_version K path version) (\<lambda>x. ok (case x of (pl, vs) \<Rightarrow> Secret pl vs))"
    by (simp add: case_prod_beta')
  then show "sim (represents inv store) (op_read_version K path version) (op_read_version spec_ops path version)"
    unfolding spec_ops_def engine_ops.simps by (rule call_sim) (simp split: prod.splits)
qed (simp_all add: spec_ops_def, (rule call_sim, rule dispatch.simps, simp)+)

lemma handler_sim: "sim (served ms inv store) (run_handler A K J clock h u body) (run_handler A spec_ops J clock h u body)"
  unfolding run_handler_def read_secret_def write_secret_def delete_latest_def patch_secret_def read_subkeys_def soft_delete_versions_def
    undelete_versions_def destroy_versions_def read_metadata_handler_def
  by (cases h; simp only: handler.case; (rule sim_intros)+)

lemma router_sim:
  assumes "served ms inv store reg sreg"
  shows "rel_option (rel_prod (=) (served ms inv store)) (vault_kv_router A K J clock req reg) (vault_kv_router A spec_ops J clock req sreg)"
proof -
  have "rel_option (rel_prod (=) (served ms inv store)) (run_handler A K J clock h u body reg) (run_handler A spec_ops J clock h u body sreg)" for h u body
    by (rule simD[OF handler_sim assms])
  then have "rel_option (rel_prod (=) (served ms inv store))
      (do { (r, reg') \<leftarrow> run_handler A K J clock h u body reg; Some (case r of Inl err \<Rightarrow> into_response err | Inr resp \<Rightarrow> resp, reg') })
      (do { (r, reg') \<leftarrow> run_handler A spec_ops J clock h u body sreg; Some (case r of Inl err \<Rightarrow> into_response err | Inr resp \<Rightarrow> resp, reg') })" for h u body
    by (rule option.rel_induct[of "rel_prod (=) (served ms inv store)"]) auto
  then show ?thesis using assms unfolding vault_kv_router_def by (simp split: option.splits)
qed

lemma flush_served:
  assumes "served ms inv store reg sreg"
  shows "\<exists>reg'. flush_all K reg = Some reg' \<and> served ms inv store reg' sreg"
proof -
  have *: "\<exists>r s'. op_force_flush K s = Some (r, s') \<and> inv s' \<and> store s' = store s" if "inv s" for s
    using flush_law[OF that] by (simp add: wp_def)
  have live: "\<forall>s \<in> ran (heap reg). inv s" using served_at(1)[OF assms] by (auto simp: ran_def)
  have refs: "set (map snd (engines reg)) \<subseteq> dom (heap reg)" using assms by (auto simp: served_def)
  have "\<exists>reg'. flush_all K reg = Some reg' \<and> engines reg' = engines reg \<and> (\<forall>s \<in> ran (heap reg'). inv s)
      \<and> (\<forall>r. rel_option (\<lambda>s s'. store s' = store s) (heap reg r) (heap reg' r))"
    unfolding flush_all_def by (rule foldm_flush[OF * _ _ refs live]) simp_all
  then obtain reg' where reg': "flush_all K reg = Some reg'" "engines reg' = engines reg" "\<forall>s \<in> ran (heap reg'). inv s"
    "\<forall>r. rel_option (\<lambda>s s'. store s' = store s) (heap reg r) (heap reg' r)" by blast
  have "rel_option (represents inv store) (heap reg' r) (heap sreg r)" for r
  proof (cases "heap reg r")
    case None
    then show ?thesis using reg'(4)[rule_format, of r] served_at(2)[OF assms None] by simp
  next
    case (Some s)
    then show ?thesis using reg'(3) reg'(4)[rule_format, of r] served_at(1)[OF assms Some]
      by (auto simp: option_rel_Some1 represents_def ran_def)
  qed
  moreover have "dom (heap reg') = dom (heap reg)" using reg'(4) by (auto simp: option.rel_sel dom_def)
  ultimately show ?thesis using reg'(1,2) assms by (auto simp: served_def)
qed

end

text \<open>The key-value engine in the immediate mode is such an engine.\<close>

lemma kv_flush_law: "kv_inv E V e \<Longrightarrow> wp (force_flush E) (\<lambda>r e'. kv_inv E V e' \<and> kv_store E V e' = kv_store E V e) e"
proof -
  assume inv: "kv_inv E V e"
  obtain r b where b: "backend_flush (env_rocks E) (rocksdb e) = (r, b)" by fastforce
  have "rocks_ok (env_rocks E) V" using inv by (simp add: kv_inv_def kv_agrees_iff holds_def env_sound_def)
  from flush_effect[OF this b] have d: "disk V b = disk V (rocksdb e)" by simp
  then have "kv_inv E V (e\<lparr>rocksdb := b\<rparr>) \<and> kv_store E V (e\<lparr>rocksdb := b\<rparr>) = kv_store E V e"
    using inv by (simp add: kv_inv_def kv_agrees_iff kv_store_def holds_def effective_def get_sync_mode_def)
  then show ?thesis using b by (cases r) (simp_all add: wp_def force_flush_def)
qed

text \<open>The flush of an engine does not write what is queued in the batch mode.\<close>

lemma flush_skips_queue: "force_flush E e = Some (r, e') \<Longrightarrow> rocks_ok (env_rocks E) V \<Longrightarrow> async_queue e' = async_queue e \<and> disk V (rocksdb e') = disk V (rocksdb e)"
  by (auto simp: force_flush_def dest: flush_effect split: prod.splits sum.splits)

interpretation kvs: engine_service "kv_inv E V" "kv_store E V" "kv_ops E" for E :: "('db, 'wb, 'it) env" and V
  by unfold_locales (simp_all add: dispatch_kv kv.step_law kv_flush_law)

end
