(* ===== verification/Http_Theorems.thy ===== *)
theory Http_Theorems
  imports Served_Engine
begin

text \<open>
  The server as a whole (\<^verbatim>\<open>kallisto-server/src/main.rs\<close>): the data plane over the registry and the administration
  server over the core, which share the default engine.  In the immediate mode it answers every sequence of
  requests as the handlers over the abstract store do; what that means for writing, reading and deleting a secret
  over HTTP.
\<close>

datatype server_event = Http "nat \<Rightarrow> u64" http_request | Admin admin_request

datatype reply = Http_Reply response | Admin_Reply "nat \<times> document"

fun serve :: "axum \<Rightarrow> ('db, 'wb, 'it) env \<Rightarrow> 'v sonic \<Rightarrow> string \<Rightarrow> server_event \<Rightarrow> 'db kv_engine kallisto_core \<Rightarrow> (reply \<times> 'db kv_engine kallisto_core) option" where
  "serve A E J pkg_version (Http clock req) c = do {
     (resp, reg) \<leftarrow> vault_kv_router A (kv_ops E) J clock req (registry c);
     Some (Http_Reply resp, c\<lparr>registry := reg\<rparr>)
   }"
| "serve A E J pkg_version (Admin req) c = do {
     (ans, c) \<leftarrow> admin_serve E pkg_version req c;
     Some (Admin_Reply ans, c)
   }"

fun server_run :: "axum \<Rightarrow> ('db, 'wb, 'it) env \<Rightarrow> 'v sonic \<Rightarrow> string \<Rightarrow> server_event list \<Rightarrow> 'db kv_engine kallisto_core \<Rightarrow> (reply list \<times> 'db kv_engine kallisto_core) option" where
  "server_run A E J pkg_version [] c = Some ([], c)"
| "server_run A E J pkg_version (ev # evs) c = do {
     (r, c) \<leftarrow> serve A E J pkg_version ev c;
     (rs, c) \<leftarrow> server_run A E J pkg_version evs c;
     Some (r # rs, c)
   }"

section \<open>The server over the abstract store\<close>

fun admin_answer :: "string \<Rightarrow> admin_request \<Rightarrow> nat \<times> document" where
  "admin_answer pkg_version Admin_Flush = (200, D_Obj [(''status'', D_Str ''OK''), (''message'', D_Str ''Database flushed to disk.'')])"
| "admin_answer pkg_version Admin_Mode_Batch = (200, D_Obj [(''status'', D_Str ''OK''), (''message'', D_Str ''Mode changed to BATCH.'')])"
| "admin_answer pkg_version Admin_Mode_Immediate = (200, D_Obj [(''status'', D_Str ''OK''), (''message'', D_Str ''Mode changed to IMMEDIATE.'')])"
| "admin_answer pkg_version Admin_Status = handle_status pkg_version"

fun spec_serve :: "axum \<Rightarrow> 'v sonic \<Rightarrow> string \<Rightarrow> server_event \<Rightarrow> vstore engine_registry \<Rightarrow> (reply \<times> vstore engine_registry) option" where
  "spec_serve A J pkg_version (Http clock req) sreg = map_option (apfst Http_Reply) (vault_kv_router A spec_ops J clock req sreg)"
| "spec_serve A J pkg_version (Admin req) sreg = Some (Admin_Reply (admin_answer pkg_version req), sreg)"

fun spec_server_run :: "axum \<Rightarrow> 'v sonic \<Rightarrow> string \<Rightarrow> server_event list \<Rightarrow> vstore engine_registry \<Rightarrow> (reply list \<times> vstore engine_registry) option" where
  "spec_server_run A J pkg_version [] sreg = Some ([], sreg)"
| "spec_server_run A J pkg_version (ev # evs) sreg = do {
     (r, sreg) \<leftarrow> spec_serve A J pkg_version ev sreg;
     (rs, sreg) \<leftarrow> spec_server_run A J pkg_version evs sreg;
     Some (r # rs, sreg)
   }"

text \<open>The core serves the stores of the second registry, and its default engine is one of the mounted ones.\<close>

definition core_serves :: "(string \<times> nat) list \<Rightarrow> ('db, 'wb, 'it) env \<Rightarrow> ('db, 'wb, 'it) rocks_view \<Rightarrow> 'db kv_engine kallisto_core
    \<Rightarrow> vstore engine_registry \<Rightarrow> bool" where
  "core_serves ms E V c sreg \<longleftrightarrow> served ms (kv_inv E V) (kv_store E V) (registry c) sreg \<and> default_kv c \<in> snd ` set ms"

section \<open>Refinement\<close>

lemma immediate_again: "kv_inv E V e \<Longrightarrow> change_sync_mode Immediate e = e"
  by (cases e) (auto simp: kv_inv_def kv_agrees_iff holds_def change_sync_mode_def get_sync_mode_def split: if_splits)

lemma serve_sim:
  assumes "core_serves ms E V c sreg" "ev \<noteq> Admin Admin_Mode_Batch"
  shows "rel_option (rel_prod (=) (core_serves ms E V)) (serve A E J pkg ev c) (spec_serve A J pkg ev sreg)"
proof (cases ev)
  case (Http clock req)
  have s: "served ms (kv_inv E V) (kv_store E V) (registry c) sreg" using assms(1) by (simp add: core_serves_def)
  have d: "default_kv c \<in> snd ` set ms" using assms(1) by (simp add: core_serves_def)
  from kvs.router_sim[OF s, of A J clock req] show ?thesis
  proof (cases rule: option.rel_cases)
    case (Some x y)
    then show ?thesis using d by (cases x, cases y) (simp add: Http core_serves_def)
  qed (simp add: Http)
next
  case (Admin req)
  have s: "served ms (kv_inv E V) (kv_store E V) (registry c) sreg" using assms(1) by (simp add: core_serves_def)
  then obtain e where e: "heap (registry c) (default_kv c) = Some e" using assms(1) by (auto simp: core_serves_def served_def)
  show ?thesis
  proof (cases req)
    case Admin_Flush
    obtain reg' where "flush_all (kv_ops E) (registry c) = Some reg'" "served ms (kv_inv E V) (kv_store E V) reg' sreg"
      using kvs.flush_served[OF s] by blast
    then show ?thesis using Admin_Flush assms(1) Admin by (simp add: core_serves_def handle_save_def core_force_flush_def)
  next
    case Admin_Mode_Immediate
    have "change_sync_mode Immediate e = e" using immediate_again served_at(1)[OF s e] by blast
    then have "core_change_sync_mode Immediate c = Some c" using e by (simp add: core_change_sync_mode_def fun_upd_idem)
    then show ?thesis using assms(1) Admin Admin_Mode_Immediate by (simp add: handle_mode_immediate_def)
  qed (use assms Admin in simp_all)
qed

lemma server_run_sim:
  assumes "core_serves ms E V c sreg" "Admin Admin_Mode_Batch \<notin> set evs"
  shows "rel_option (rel_prod (=) (core_serves ms E V)) (server_run A E J pkg evs c) (spec_server_run A J pkg evs sreg)"
  using assms
proof (induction evs arbitrary: c sreg)
  case (Cons ev evs)
  have "ev \<noteq> Admin Admin_Mode_Batch" using Cons.prems(2) by auto
  from serve_sim[OF Cons.prems(1) this, of A J pkg] show ?case
  proof (cases rule: option.rel_cases)
    case (Some x y)
    then obtain r c' sreg' where step: "serve A E J pkg ev c = Some (r, c')" "spec_serve A J pkg ev sreg = Some (r, sreg')" "core_serves ms E V c' sreg'"
      by (cases x, cases y) auto
    from Cons.IH[OF step(3)] Cons.prems(2) have
      "rel_option (rel_prod (=) (core_serves ms E V)) (server_run A E J pkg evs c') (spec_server_run A J pkg evs sreg')" by simp
    then show ?thesis by (cases rule: option.rel_cases) (auto simp: step)
  qed simp
qed simp

lemma core_new_spec:
  assumes "env_ok E V" "db_open (env_rocks E) db_path = Inr d" "utf8_paths (db_contents V d)" "64 \<le> env_node_size E" "env_node_size E \<le> 2 ^ 40"
  shows "\<exists>c c'. core_new E db_path = Some (Inr c) \<and> serve A E J pkg (Admin Admin_Mode_Immediate) c = Some (Admin_Reply (admin_answer pkg Admin_Mode_Immediate), c')
    \<and> core_serves [(''secret'', 0)] E V c' \<lparr>engines = [(''secret'', 0)], heap = [0 \<mapsto> stored E (db_contents V d)]\<rparr>"
proof -
  obtain e where e: "kv_open E db_path = Some (Inr e)" "kv_inv E V (change_sync_mode Immediate e)"
    "kv_store E V (change_sync_mode Immediate e) = stored E (db_contents V d)" using kv_open_spec[OF assms] by blast
  let ?c = "\<lambda>e. \<lparr>registry = \<lparr>engines = [(''secret'', 0)], heap = [0 \<mapsto> e]\<rparr>, default_kv = 0\<rparr>"
  have "core_new E db_path = Some (Inr (?c e))" using e(1) by (simp add: core_new_def mount_def registry_new_def)
  moreover have "serve A E J pkg (Admin Admin_Mode_Immediate) (?c e) = Some (Admin_Reply (admin_answer pkg Admin_Mode_Immediate), ?c (change_sync_mode Immediate e))"
    by (simp add: handle_mode_immediate_def core_change_sync_mode_def)
  moreover have "core_serves [(''secret'', 0)] E V (?c (change_sync_mode Immediate e)) \<lparr>engines = [(''secret'', 0)], heap = [0 \<mapsto> stored E (db_contents V d)]\<rparr>"
    using e(2,3) by (simp add: core_serves_def served_def represents_def)
  ultimately show ?thesis by blast
qed


section \<open>Routes\<close>

lemma split_first:
  assumes "CHR ''/'' \<notin> set m"
  shows "splitn (Suc (Suc n)) (m @ CHR ''/'' # s) = m # splitn (Suc n) s"
proof -
  have "dropWhile (\<lambda>c. c \<noteq> CHR ''/'') (m @ CHR ''/'' # s) = CHR ''/'' # s" "takeWhile (\<lambda>c. c \<noteq> CHR ''/'') (m @ CHR ''/'' # s) = m"
    using assms by (induction m) auto
  then show ?thesis by simp
qed

lemma split_cases:
  obtains "CHR ''/'' \<notin> set s" "splitn (Suc (Suc n)) s = [s]"
  | m rest where "s = m @ CHR ''/'' # rest" "CHR ''/'' \<notin> set m"
proof (cases "CHR ''/'' \<in> set s")
  case True
  then show ?thesis using that(2) split_list_first[of "CHR ''/''" s] by blast
next
  case False
  then have "dropWhile (\<lambda>c. c \<noteq> CHR ''/'') s = []" by (induction s) auto
  then have "splitn (Suc (Suc n)) s = [s]" by (simp only: splitn.simps list.case)
  then show ?thesis by (rule that(1)[OF False])
qed

lemma strip_prefix_Some: "strip_prefix p s = Some t \<longleftrightarrow> s = p @ t"
proof
  assume "strip_prefix p s = Some t"
  then have "take (length p) s = p" "t = drop (length p) s" by (auto simp: strip_prefix_def split: if_splits)
  then show "s = p @ t" using append_take_drop_id[of "length p" s] by simp
qed (simp add: strip_prefix_def)

text \<open>The extraction accepts exactly the URIs of the routes, and returns their parts.\<close>

lemma extract_iff:
  "extract_mount_and_path s a = Some (m, p) \<longleftrightarrow> s = ''/v1/'' @ m @ ''/'' @ a @ ''/'' @ p \<and> CHR ''/'' \<notin> set m \<and> CHR ''/'' \<notin> set a"
proof
  assume l: "extract_mount_and_path s a = Some (m, p)"
  then obtain t where t: "s = ''/v1/'' @ t"
    unfolding extract_mount_and_path_def bind_eq_Some_conv strip_prefix_Some by blast
  with l have l: "(case splitn 3 t of mnt # action # rest \<Rightarrow> if action \<noteq> a then None
      else (case rest of [] \<Rightarrow> None | secret_path # _ \<Rightarrow> Some (mnt, secret_path)) | _ \<Rightarrow> None) = Some (m, p)"
    by (simp add: extract_mount_and_path_def strip_prefix_def)
  show "s = ''/v1/'' @ m @ ''/'' @ a @ ''/'' @ p \<and> CHR ''/'' \<notin> set m \<and> CHR ''/'' \<notin> set a"
  proof (cases rule: split_cases[where s = t and n = 1])
    case 1
    then show ?thesis using l by (simp add: numeral_3_eq_3)
  next
    case (2 m' rest)
    then have t3: "splitn 3 t = m' # splitn 2 rest" using split_first[of m' 1 rest] by (simp add: numeral_3_eq_3 numeral_2_eq_2)
    show ?thesis
    proof (cases rule: split_cases[where s = rest and n = 0])
      case 1
      then show ?thesis using l t3 by (simp add: numeral_2_eq_2 split: if_splits)
    next
      case (2 a' p')
      then have "splitn 2 rest = [a', p']" using split_first[of a' 0 p'] by (simp add: numeral_2_eq_2)
      then show ?thesis using l t t3 2 \<open>t = m' @ CHR ''/'' # rest\<close> \<open>CHR ''/'' \<notin> set m'\<close> by (simp split: if_splits)
    qed
  qed
next
  assume r: "s = ''/v1/'' @ m @ ''/'' @ a @ ''/'' @ p \<and> CHR ''/'' \<notin> set m \<and> CHR ''/'' \<notin> set a"
  then have "splitn 3 (m @ ''/'' @ a @ ''/'' @ p) = [m, a, p]"
    using split_first[of m 1 "a @ ''/'' @ p"] split_first[of a 0 p] by (simp add: numeral_3_eq_3)
  with r show "extract_mount_and_path s a = Some (m, p)" by (simp add: extract_mount_and_path_def strip_prefix_def)
qed

section \<open>Secrets over HTTP\<close>

definition data_uri :: "string \<Rightarrow> string \<Rightarrow> uri" where
  "data_uri m p = \<lparr>uri_path = ''/v1/'' @ m @ ''/data/'' @ p, uri_query = None\<rparr>"

text \<open>What the code relies on in the framework: such a path is given to the route of the secrets.\<close>

definition routes_data :: "axum \<Rightarrow> string \<Rightarrow> string \<Rightarrow> bool" where
  "routes_data A m p \<longleftrightarrow> ax_route A (map fst routes) (uri_path (data_uri m p)) = Some ''/v1/:mount/data/*path''"

lemma data_route: "map_of routes ''/v1/:mount/data/*path''
    = Some [(GET, Read_Secret), (POST, Write_Secret), (PUT, Write_Secret), (DELETE, Delete_Latest), (PATCH, Patch_Secret)]"
  by (simp add: routes_def)

lemma resolve_data:
  assumes "CHR ''/'' \<notin> set m" "resolve m reg = Some r"
  shows "resolve_uri ''data'' (data_uri m p) reg = Some (Inr (r, p), reg)"
proof -
  have "extract_mount_and_path (uri_path (data_uri m p)) ''data'' = Some (m, p)" using assms(1) by (simp add: extract_iff data_uri_def)
  then show ?thesis using assms(2) by (simp add: resolve_uri_def)
qed

lemma spec_write:
  assumes "routes_data A m p" "CHR ''/'' \<notin> set m" "resolve m sreg = Some r" "heap sreg r = Some st"
  shows "vault_kv_router A spec_ops J clock \<lparr>req_method = POST, req_uri = data_uri m p, req_body = body\<rparr> sreg
    = Some (no_content, sreg\<lparr>heap := (heap sreg)(r \<mapsto> st(p \<mapsto> add_version (clock 0) \<lparr>payload_value = write_value J body, payload_ttl = 0\<rparr> (secret_at st p)))\<rparr>)"
  using assms(1) resolve_data[OF assms(2,3), of p] assms(4)
  by (simp add: vault_kv_router_def routes_data_def data_route run_handler_def write_secret_def on_engine_def andthen_def spec_ops_def spec_call_def spec_put_def Let_def)

lemma spec_read_latest:
  assumes "routes_data A m p" "CHR ''/'' \<notin> set m" "resolve m sreg = Some r" "heap sreg r = Some st" "spec_read p 0 st = Inr (Secret payload vs)"
  shows "vault_kv_router A spec_ops J clock \<lparr>req_method = GET, req_uri = data_uri m p, req_body = body\<rparr> sreg
    = Some (json_response (secret_text payload vs), sreg)"
proof -
  have "extract_version_param (data_uri m p) = 0" by (simp add: extract_version_param_def number_param_def data_uri_def)
  then show ?thesis using assms(1) resolve_data[OF assms(2,3), of p] assms(4,5)
    by (simp add: vault_kv_router_def routes_data_def data_route run_handler_def read_secret_def on_engine_def andthen_def spec_ops_def spec_call_def fun_upd_idem)
qed


lemma update_first_missing: "v \<notin> version_id ` set vss \<Longrightarrow> update_first v f vss = Inl (InvalidVersion v)"
  by (induction vss) auto

lemma no_version_zero: "meta_wf meta \<Longrightarrow> 0 \<notin> version_id ` set (versions meta)"
proof
  assume wf: "meta_wf meta" and "0 \<in> version_id ` set (versions meta)"
  then have "0 \<in> set (map (unat \<circ> version_id) (versions meta))" by (auto simp: image_comp intro: rev_image_eqI)
  then show False using wf unfolding meta_wf_def by (simp del: upt_Suc)
qed

text \<open>
  C29: Deleting the latest version over HTTP never succeeds: a DELETE of a path, mounted and with or without a secret, is answered with the
  status 404 and changes nothing, because the handler asks the engine to delete the version 0, which the engine
  takes as a number and not as the latest version.
\<close>

theorem delete_latest_fails:
  assumes "served ms (kv_inv E V) (kv_store E V) reg sreg" "routes_data A m p" "CHR ''/'' \<notin> set m"
    and "resolve m sreg = Some r" "heap sreg r = Some st" "store_wf st"
  shows "\<exists>reg' resp. vault_kv_router A (kv_ops E) J clock \<lparr>req_method = DELETE, req_uri = data_uri m p, req_body = body\<rparr> reg = Some (resp, reg')
    \<and> status resp = 404 \<and> served ms (kv_inv E V) (kv_store E V) reg' sreg"
proof -
  let ?req = "\<lparr>req_method = DELETE, req_uri = data_uri m p, req_body = body\<rparr>"
  have "\<exists>err. spec_step (Soft_Delete (clock 0) p 0) st = (Inl err, st) \<and> (err = NotFound \<or> err = InvalidVersion 0)"
  proof (cases "st p")
    case (Some s)
    then have "0 \<notin> version_id ` set (versions (fst s))"
      using assms(6) no_version_zero[of "fst s"] by (cases s) (simp add: store_wf_def)
    then show ?thesis using Some by (cases s) (simp add: spec_change_def update_first_missing)
  qed (simp add: spec_change_def)
  then obtain err where err: "spec_step (Soft_Delete (clock 0) p 0) st = (Inl err, st)" "err = NotFound \<or> err = InvalidVersion 0" by blast
  have "vault_kv_router A spec_ops J clock ?req sreg = Some (into_response (Engine err), sreg)"
    using assms(2) resolve_data[OF assms(3,4), of p] assms(5) err(1)
    by (simp add: vault_kv_router_def routes_data_def data_route run_handler_def delete_latest_def on_engine_def andthen_def spec_ops_def spec_call_def fun_upd_idem
        del: spec_step.simps)
  then obtain reg' where "vault_kv_router A (kv_ops E) J clock ?req reg = Some (into_response (Engine err), reg')" "served ms (kv_inv E V) (kv_store E V) reg' sreg"
    using kvs.router_sim[OF assms(1), of A J clock ?req] by (auto simp: option_rel_Some2)
  moreover have "status (into_response (Engine err)) = 404" using err(2) by (auto simp: into_response_def)
  ultimately show ?thesis by blast
qed

section \<open>The texts of the answers\<close>

lemma second_okI:
  "byte_in 0xC2 0xDF a \<Longrightarrow> byte_in 0x80 0xBF b \<Longrightarrow> second_ok a b"
  "(byte_in 0xE0 0xE0 a \<and> byte_in 0xA0 0xBF b) \<or> (byte_in 0xE1 0xEC a \<and> byte_in 0x80 0xBF b)
    \<or> (byte_in 0xED 0xED a \<and> byte_in 0x80 0x9F b) \<or> (byte_in 0xEE 0xEF a \<and> byte_in 0x80 0xBF b) \<Longrightarrow> second_ok a b \<and> byte_in 0xE0 0xEF a"
  "(byte_in 0xF0 0xF0 a \<and> byte_in 0x90 0xBF b) \<or> (byte_in 0xF1 0xF3 a \<and> byte_in 0x80 0xBF b)
    \<or> (byte_in 0xF4 0xF4 a \<and> byte_in 0x80 0x8F b) \<Longrightarrow> second_ok a b \<and> \<not> byte_in 0xE0 0xEF a"
  by (auto simp: second_ok_def byte_in_def)

lemma lossy_valid: "utf8_valid bs \<Longrightarrow> utf8_lossy bs = bs"
proof (induction bs rule: length_induct)
  case (1 bs)
  show ?case
  proof (cases bs)
    case (Cons a bs1)
    have IH: "utf8_lossy ys = ys" if "length ys \<le> length bs1" "utf8_valid ys" for ys using 1(1) that Cons by auto
    show ?thesis
    proof (cases "byte_in 0x00 0x7F a")
      case True
      then show ?thesis using 1(2) IH[of bs1] by (simp add: Cons)
    next
      case multi: False
      then obtain b bs2 where b: "bs1 = b # bs2" using 1(2) by (auto simp: Cons split: list.splits)
      show ?thesis
      proof (cases "byte_in 0xC2 0xDF a")
        case True
        then show ?thesis using 1(2) multi IH[of bs2] second_okI(1)[OF True] by (simp add: Cons b)
      next
        case more: False
        then obtain c bs3 where c: "bs2 = c # bs3" using 1(2) multi by (auto simp: Cons b split: list.splits)
        let ?three = "(byte_in 0xE0 0xE0 a \<and> byte_in 0xA0 0xBF b) \<or> (byte_in 0xE1 0xEC a \<and> byte_in 0x80 0xBF b)
          \<or> (byte_in 0xED 0xED a \<and> byte_in 0x80 0x9F b) \<or> (byte_in 0xEE 0xEF a \<and> byte_in 0x80 0xBF b)"
        show ?thesis
        proof (cases ?three)
          case True
          then have "byte_in 0x80 0xBF c" "utf8_valid bs3" using 1(2) multi more unfolding Cons b c by simp_all
          then show ?thesis using second_okI(2)[OF True] multi more IH[of bs3] by (simp add: Cons b c)
        next
          case four: False
          then obtain d bs4 where d: "bs3 = d # bs4" using 1(2) multi more unfolding Cons b c by (auto split: list.splits)
          have v: "(byte_in 0xF0 0xF0 a \<and> byte_in 0x90 0xBF b) \<or> (byte_in 0xF1 0xF3 a \<and> byte_in 0x80 0xBF b) \<or> (byte_in 0xF4 0xF4 a \<and> byte_in 0x80 0x8F b)"
            "byte_in 0x80 0xBF c" "byte_in 0x80 0xBF d" "utf8_valid bs4"
            using 1(2) multi more four unfolding Cons b c d by (simp_all only: utf8_valid.simps if_False list.case)
          then show ?thesis using second_okI(3)[OF v(1)] multi more IH[of bs4] by (simp add: Cons b c d)
        qed
      qed
    qed
  qed simp
qed

definition quotes :: "string \<Rightarrow> nat" where
  "quotes s = length (filter (\<lambda>c. c = CHR 0x22) s)"

lemma quotes_simps [simp]:
  "quotes [] = 0" "quotes (c # s) = (if c = CHR 0x22 then 1 else 0) + quotes s" "quotes (s @ t) = quotes s + quotes t"
  by (simp_all add: quotes_def)

lemma quotes_show [simp]: "quotes (show_nat n) = 0"
proof -
  have "CHR 0x22 \<notin> set (show_nat n)"
  proof
    assume "CHR 0x22 \<in> set (show_nat n)"
    then obtain d :: nat where "48 \<le> d" "d \<le> 57" "CHR 0x22 = (char_of d :: char)" using show_nat_digits[of n] by auto
    then have "of_char (CHR 0x22) = d" by simp
    then show False using \<open>48 \<le> d\<close> by simp
  qed
  then show ?thesis by (auto simp: quotes_def filter_empty_conv)
qed

lemma quotes_zeros [simp]: "quotes (replicate k CHR ''0'') = 0"
  by (simp add: quotes_def)

lemma quotes_time [simp]: "quotes (epoch_ms_to_rfc3339 ms) = 0"
  by (simp add: epoch_ms_to_rfc3339_def show_time_def pad_def Let_def split: prod.splits)

text \<open>The text of every error, and of every version in the metadata, has an odd number of quotation marks, so it is no JSON text.\<close>

lemma error_text_unbalanced: "\<forall>msg. err \<noteq> Engine (StorageError msg) \<Longrightarrow> odd (quotes (resp_body (into_response err)))"
  by (cases err rule: error_status.cases) (simp_all add: into_response_def)

lemma version_text_unbalanced: "odd (quotes (version_text v))"
  by (simp add: version_text_def show_bool_def)

text \<open>A version number beyond 32 bits stands for another version, and any parameter whose name ends in the word is taken.\<close>

lemma versions_truncated:
  assumes "v_parse J body = Some root" "v_get J root ''versions'' = Some v" "v_array J v = Some [x]" "v_u64 J x = Some (2 ^ 32 + 1)"
  shows "parse_versions_list J body = [1]"
proof -
  have "ucast (2 ^ 32 + 1 :: u64) = (1 :: u32)" by simp
  then show ?thesis using assms by (simp add: parse_versions_list_def List.map_filter_simps)
qed

lemma version_param_suffix: "extract_version_param \<lparr>uri_path = ''/v1/secret/data/a'', uri_query = Some ''conversion=3''\<rparr> = 3"
  by (simp add: extract_version_param_def number_param_def after_first.simps parse_u32_def read_digits_def)

section \<open>A concrete server\<close>

definition demo_axum :: axum where
  "demo_axum = \<lparr>ax_route = (\<lambda>_ path. if extract_mount_and_path path ''data'' = None then None else Some ''/v1/:mount/data/*path''),
     ax_not_found = \<lparr>status = 404, content_type = None, resp_body = []\<rparr>, ax_not_allowed = \<lparr>status = 405, content_type = None, resp_body = []\<rparr>,
     ax_json = (\<lambda>_. \<lparr>status = 200, content_type = Some ''application/json'', resp_body = []\<rparr>)\<rparr>"

lemma demo_routes: "CHR ''/'' \<notin> set m \<Longrightarrow> routes_data demo_axum m p"
proof -
  assume "CHR ''/'' \<notin> set m"
  then have "extract_mount_and_path (uri_path (data_uri m p)) ''data'' = Some (m, p)" by (simp add: extract_iff data_uri_def)
  then show ?thesis by (simp add: routes_data_def demo_axum_def)
qed

lemma demo_open: "db_open (env_rocks mem_env) db_path = Inr []" "utf8_paths (db_contents mem_view [])"
    "64 \<le> env_node_size mem_env" "env_node_size mem_env \<le> 2 ^ 40" "stored mem_env (db_contents mem_view []) = Map.empty"
  by (simp_all add: mem_env_def mem_rocks_def mem_view_def utf8_paths_def stored_def stored_meta_def fun_eq_iff)

lemma demo_served:
  obtains reg where "served [(''secret'', 0)] (kv_inv mem_env mem_view) (kv_store mem_env mem_view) reg \<lparr>engines = [(''secret'', 0)], heap = [0 \<mapsto> Map.empty]\<rparr>"
  using core_new_spec[OF mem_env_ok demo_open(1-4), of "''db''"] unfolding demo_open(5) core_serves_def by blast



theorem delete_latest_fails_witness:
  "\<exists>reg reg' resp. vault_kv_router demo_axum (kv_ops mem_env) json_sonic (\<lambda>_. 1000)
      \<lparr>req_method = DELETE, req_uri = data_uri ''secret'' ''a'', req_body = []\<rparr> reg = Some (resp, reg') \<and> status resp = 404"
proof -
  obtain reg where reg: "served [(''secret'', 0)] (kv_inv mem_env mem_view) (kv_store mem_env mem_view) reg \<lparr>engines = [(''secret'', 0)], heap = [0 \<mapsto> Map.empty]\<rparr>"
    by (rule demo_served)
  show ?thesis using delete_latest_fails[OF reg demo_routes, of "''secret''" 0 Map.empty json_sonic "\<lambda>_. 1000" "''a''" "[]"]
    by (auto simp: resolve_def store_wf_def)
qed

end
