(* ===== verification/Listener.thy ===== *)
theory Listener
  imports Engine_Types
begin

text \<open>
  The listening socket of a worker (\<^verbatim>\<open>src/server/listener.rs\<close>).  The system calls are a parameter: the record \<open>kernel\<close> holds
  them, \<open>kernel_ok\<close> states what they do to the table of open sockets, and \<open>kernel_grants\<close> when they succeed, with the
  rule of \<^verbatim>\<open>SO_REUSEPORT\<close>.  A socket that goes out of scope is closed, on every early return.
\<close>

type_synonym u16 = "16 word"
type_synonym sock_addr = "nat list \<times> u16"

section \<open>Socket addresses\<close>

fun split_char :: "char \<Rightarrow> string \<Rightarrow> string list" where
  "split_char c [] = [[]]"
| "split_char c (x # xs) = (if x = c then [] # split_char c xs else (case split_char c xs of p # ps \<Rightarrow> (x # p) # ps | [] \<Rightarrow> [[x]]))"

definition parse_decimal :: "nat \<Rightarrow> string \<Rightarrow> nat option" where
  "parse_decimal bound ds = (if ds \<noteq> [] \<and> list_all (\<lambda>c. 48 \<le> (of_char c :: nat) \<and> (of_char c :: nat) \<le> 57) ds \<and> read_digits ds \<le> bound
     then Some (read_digits ds) else None)"

definition parse_octet :: "string \<Rightarrow> nat option" where
  "parse_octet ds = (if length ds \<le> 3 \<and> (length ds > 1 \<longrightarrow> hd ds \<noteq> CHR ''0'') then parse_decimal 255 ds else None)"

text \<open>\<^verbatim>\<open>str::parse::<SocketAddr>\<close> on an IPv4 address with a port.\<close>

definition parse_socket_addr :: "string \<Rightarrow> sock_addr option" where
  "parse_socket_addr s = (case split_char CHR '':'' s of
     [ip, port] \<Rightarrow> (case map parse_octet (split_char CHR ''.'' ip) of
         [Some a, Some b, Some c, Some d] \<Rightarrow> map_option (\<lambda>p. ([a, b, c, d], of_nat p)) (parse_decimal 65535 port)
       | _ \<Rightarrow> None)
   | _ \<Rightarrow> None)"

lemma split_char_none: "c \<notin> set s \<Longrightarrow> split_char c s = [s]"
  by (induction s) auto

lemma split_char_first: "c \<notin> set s \<Longrightarrow> split_char c (s @ c # t) = s # split_char c t"
  by (induction s) auto

lemma parse_show: "n \<le> bound \<Longrightarrow> parse_decimal bound (show_nat n) = Some n"
  using show_nat_digits[of n] by (auto simp: parse_decimal_def show_nat_nonempty read_show_nat list_all_iff)

lemma parse_any_port: "parse_socket_addr (''0.0.0.0:'' @ show_nat (unat port)) = Some ([0, 0, 0, 0], port)"
proof -
  have "split_char CHR '':'' (''0.0.0.0'' @ CHR '':'' # show_nat (unat port)) = [''0.0.0.0'', show_nat (unat port)]"
    by (subst split_char_first) (simp_all add: split_char_none show_nat_no_char)
  moreover have "map parse_octet (split_char CHR ''.'' ''0.0.0.0'') = [Some 0, Some 0, Some 0, Some 0]"
    by (simp add: parse_octet_def parse_decimal_def read_digits_def)
  moreover have "unat port \<le> 65535" using unsigned_less[of port, where ?'a = nat] by simp
  ultimately show ?thesis by (simp add: parse_socket_addr_def parse_show)
qed

section \<open>System calls\<close>

datatype sock_option = Reuse_Port | Reuse_Address | No_Delay | Non_Blocking

record 'o kernel =
  sys_socket :: "'o \<Rightarrow> (string + nat) \<times> 'o"
  sys_setopt :: "nat \<Rightarrow> sock_option \<Rightarrow> 'o \<Rightarrow> (string + unit) \<times> 'o"
  sys_bind :: "nat \<Rightarrow> sock_addr \<Rightarrow> 'o \<Rightarrow> (string + unit) \<times> 'o"
  sys_listen :: "nat \<Rightarrow> nat \<Rightarrow> 'o \<Rightarrow> (string + unit) \<times> 'o"
  sys_close :: "nat \<Rightarrow> 'o \<Rightarrow> 'o"

definition sys :: "('o \<Rightarrow> (string + 'a) \<times> 'o) \<Rightarrow> ('o, string, 'a) call" where
  "sys f s = Some (f s)"

text \<open>The scope of a socket that is dropped when the scope is left with an error.\<close>

definition closing :: "('o, 'x) kernel_scheme \<Rightarrow> nat \<Rightarrow> ('o, string, 'a) call \<Rightarrow> ('o, string, 'a) call" where
  "closing K socket m s = do {
     (r, s) \<leftarrow> m s;
     Some (r, case r of Inl err \<Rightarrow> sys_close K socket s | Inr x \<Rightarrow> s)
   }"

definition bind_reuseport :: "('o, 'x) kernel_scheme \<Rightarrow> u16 \<Rightarrow> ('o, string, nat) call" where
  "bind_reuseport K port =
     andthen (sys (sys_socket K)) (\<lambda>socket.
     closing K socket (
       andthen (sys (sys_setopt K socket Reuse_Port)) (\<lambda>_.
       andthen (sys (sys_setopt K socket Reuse_Address)) (\<lambda>_.
       andthen (sys (sys_setopt K socket No_Delay)) (\<lambda>_.
       andthen (sys (sys_setopt K socket Non_Blocking)) (\<lambda>_.
       (case parse_socket_addr (''0.0.0.0:'' @ show_nat (unat port)) of
          None \<Rightarrow> (\<lambda>_. None)
        | Some addr \<Rightarrow>
            andthen (sys (sys_bind K socket addr)) (\<lambda>_.
            andthen (sys (sys_listen K socket 1024)) (\<lambda>_.
            ok socket)))))))))"

section \<open>What the kernel promises\<close>

record socket =
  sock_options :: "sock_option set"
  sock_bound :: "sock_addr option"
  sock_backlog :: "nat option"

type_synonym sockets = "nat \<Rightarrow> socket option"

definition new_socket :: socket where
  "new_socket = \<lparr>sock_options = {}, sock_bound = None, sock_backlog = None\<rparr>"

definition changes :: "('o \<Rightarrow> sockets) \<Rightarrow> ('o \<Rightarrow> (string + unit) \<times> 'o) \<Rightarrow> nat \<Rightarrow> (socket \<Rightarrow> socket) \<Rightarrow> bool" where
  "changes S f s g \<longleftrightarrow> (\<forall>w k r w'. S w s = Some k \<longrightarrow> f w = (r, w') \<longrightarrow> S w' = (case r of Inl err \<Rightarrow> S w | Inr _ \<Rightarrow> (S w)(s \<mapsto> g k)))"

definition kernel_ok :: "('o, 'x) kernel_scheme \<Rightarrow> ('o \<Rightarrow> sockets) \<Rightarrow> bool" where
  "kernel_ok K S \<longleftrightarrow>
     (\<forall>w r w'. sys_socket K w = (r, w') \<longrightarrow> (case r of Inl err \<Rightarrow> S w' = S w | Inr s \<Rightarrow> S w s = None \<and> S w' = (S w)(s \<mapsto> new_socket)))
   \<and> (\<forall>s v. changes S (sys_setopt K s v) s (\<lambda>k. k\<lparr>sock_options := insert v (sock_options k)\<rparr>))
   \<and> (\<forall>s a. changes S (sys_bind K s a) s (\<lambda>k. k\<lparr>sock_bound := Some a\<rparr>))
   \<and> (\<forall>s n. changes S (sys_listen K s n) s (\<lambda>k. k\<lparr>sock_backlog := Some n\<rparr>))
   \<and> (\<forall>s w. S (sys_close K s w) = (S w)(s := None))"

text \<open>A port can be bound again when every socket bound to it, and the new one, have set \<^verbatim>\<open>SO_REUSEPORT\<close>.\<close>

definition may_bind :: "sockets \<Rightarrow> nat \<Rightarrow> u16 \<Rightarrow> bool" where
  "may_bind M s port \<longleftrightarrow> (\<forall>t k a. t \<noteq> s \<longrightarrow> M t = Some k \<longrightarrow> sock_bound k = Some a \<longrightarrow> snd a = port \<longrightarrow>
     Reuse_Port \<in> sock_options k \<and> (\<exists>k'. M s = Some k' \<and> Reuse_Port \<in> sock_options k'))"

definition kernel_grants :: "('o, 'x) kernel_scheme \<Rightarrow> ('o \<Rightarrow> sockets) \<Rightarrow> bool" where
  "kernel_grants K S \<longleftrightarrow> (\<forall>w. \<exists>s. fst (sys_socket K w) = Inr s)
   \<and> (\<forall>s v w. S w s \<noteq> None \<longrightarrow> fst (sys_setopt K s v w) = Inr ())
   \<and> (\<forall>s a w. S w s \<noteq> None \<longrightarrow> may_bind (S w) s (snd a) \<longrightarrow> fst (sys_bind K s a w) = Inr ())
   \<and> (\<forall>s n w. S w s \<noteq> None \<longrightarrow> fst (sys_listen K s n w) = Inr ())"

section \<open>Rules\<close>

named_theorems sys_rules \<open>what a system call does to the open sockets\<close>

lemma sys_unit_rule:
  assumes "changes S f s g" "S w = M" "M s = Some k"
    and "\<And>w'. S w' = M(s \<mapsto> g k) \<Longrightarrow> Q (Inr ()) w'"
    and "\<And>err w'. fst (f w) = Inl err \<Longrightarrow> S w' = M \<Longrightarrow> Q (Inl err) w'"
  shows "wp (sys f) Q w"
proof -
  obtain r w' where f: "f w = (r, w')" by fastforce
  have "S w' = (case r of Inl err \<Rightarrow> S w | Inr _ \<Rightarrow> (S w)(s \<mapsto> g k))"
    using assms(1-3) f unfolding changes_def by blast
  then show ?thesis using assms(2,4,5) f by (cases r) (auto simp: wp_def sys_def)
qed

lemma sys_socket_rule [sys_rules]:
  assumes "kernel_ok K S" "S w = M"
    and "\<And>s w'. M s = None \<Longrightarrow> S w' = M(s \<mapsto> new_socket) \<Longrightarrow> Q (Inr s) w'"
    and "\<And>err w'. \<not> kernel_grants K S \<Longrightarrow> S w' = M \<Longrightarrow> Q (Inl err) w'"
  shows "wp (sys (sys_socket K)) Q w"
proof -
  obtain r w' where f: "sys_socket K w = (r, w')" by fastforce
  have "case r of Inl err \<Rightarrow> S w' = S w | Inr s \<Rightarrow> S w s = None \<and> S w' = (S w)(s \<mapsto> new_socket)"
    using assms(1) f unfolding kernel_ok_def by blast
  moreover have "\<not> kernel_grants K S" if "r = Inl err" for err
    using f that unfolding kernel_grants_def by (metis fst_conv sum.distinct(1))
  ultimately show ?thesis using assms(2,3,4) f by (cases r) (auto simp: wp_def sys_def)
qed

lemma sys_setopt_rule [sys_rules]:
  assumes "kernel_ok K S" "S w = M" "M s = Some k"
    and "\<And>w'. S w' = M(s \<mapsto> k\<lparr>sock_options := insert v (sock_options k)\<rparr>) \<Longrightarrow> Q (Inr ()) w'"
    and "\<And>err w'. \<not> kernel_grants K S \<Longrightarrow> S w' = M \<Longrightarrow> Q (Inl err) w'"
  shows "wp (sys (sys_setopt K s v)) Q w"
proof (rule sys_unit_rule[where S = S and M = M and s = s and k = k and w = w, OF _ assms(2,3)])
  show "changes S (sys_setopt K s v) s (\<lambda>k. k\<lparr>sock_options := insert v (sock_options k)\<rparr>)"
    using assms(1) by (simp add: kernel_ok_def)
  fix err w' assume *: "fst (sys_setopt K s v w) = Inl err" "S w' = M"
  have "\<not> kernel_grants K S" using * assms(2,3) by (auto simp: kernel_grants_def) (metis option.distinct(1) sum.distinct(1))
  then show "Q (Inl err) w'" using * assms(5) by blast
qed (rule assms(4))

lemma sys_bind_rule [sys_rules]:
  assumes "kernel_ok K S" "S w = M" "M s = Some k"
    and "\<And>w'. S w' = M(s \<mapsto> k\<lparr>sock_bound := Some a\<rparr>) \<Longrightarrow> Q (Inr ()) w'"
    and "\<And>err w'. \<not> (kernel_grants K S \<and> may_bind M s (snd a)) \<Longrightarrow> S w' = M \<Longrightarrow> Q (Inl err) w'"
  shows "wp (sys (sys_bind K s a)) Q w"
proof (rule sys_unit_rule[where S = S and M = M and s = s and k = k and w = w, OF _ assms(2,3)])
  show "changes S (sys_bind K s a) s (\<lambda>k. k\<lparr>sock_bound := Some a\<rparr>)" using assms(1) unfolding kernel_ok_def by blast
  fix err w' assume *: "fst (sys_bind K s a w) = Inl err" "S w' = M"
  have "\<not> (kernel_grants K S \<and> may_bind M s (snd a))"
    using * assms(2,3) unfolding kernel_grants_def by (metis option.distinct(1) sum.distinct(1))
  then show "Q (Inl err) w'" using * assms(5) by blast
qed (rule assms(4))

lemma sys_listen_rule [sys_rules]:
  assumes "kernel_ok K S" "S w = M" "M s = Some k"
    and "\<And>w'. S w' = M(s \<mapsto> k\<lparr>sock_backlog := Some n\<rparr>) \<Longrightarrow> Q (Inr ()) w'"
    and "\<And>err w'. \<not> kernel_grants K S \<Longrightarrow> S w' = M \<Longrightarrow> Q (Inl err) w'"
  shows "wp (sys (sys_listen K s n)) Q w"
proof (rule sys_unit_rule[where S = S and M = M and s = s and k = k and w = w, OF _ assms(2,3)])
  show "changes S (sys_listen K s n) s (\<lambda>k. k\<lparr>sock_backlog := Some n\<rparr>)" using assms(1) by (simp add: kernel_ok_def)
  fix err w' assume *: "fst (sys_listen K s n w) = Inl err" "S w' = M"
  have "\<not> kernel_grants K S" using * assms(2,3) by (auto simp: kernel_grants_def) (metis option.distinct(1) sum.distinct(1))
  then show "Q (Inl err) w'" using * assms(5) by blast
qed (rule assms(4))

text \<open>The same, on a socket that was just opened.\<close>

lemmas on_new_socket = sys_setopt_rule[where M = "M(s \<mapsto> k)" for M s k, OF _ _ fun_upd_same]
  sys_bind_rule[where M = "M(s \<mapsto> k)" for M s k, OF _ _ fun_upd_same]
  sys_listen_rule[where M = "M(s \<mapsto> k)" for M s k, OF _ _ fun_upd_same]

lemma closing_rule:
  assumes "wp m (\<lambda>r w'. case r of Inl err \<Rightarrow> Q (Inl err) (sys_close K s w') | Inr x \<Rightarrow> Q (Inr x) w') w"
  shows "wp (closing K s m) Q w"
proof -
  obtain r w' where "m w = Some (r, w')" "case r of Inl err \<Rightarrow> Q (Inl err) (sys_close K s w') | Inr x \<Rightarrow> Q (Inr x) w'"
    using assms unfolding wp_def by blast
  then show ?thesis by (cases r) (simp_all add: wp_def closing_def)
qed

text \<open>
  \<^verbatim>\<open>bind_reuseport\<close> never panics.  It opens one socket with every option set, bound and listening, or leaves the sockets as they
  were; it cannot fail when the kernel grants what it may and the other sockets of the port can be shared.
\<close>

definition listening :: "u16 \<Rightarrow> socket" where
  "listening port = \<lparr>sock_options = {Reuse_Port, Reuse_Address, No_Delay, Non_Blocking},
     sock_bound = Some ([0, 0, 0, 0], port), sock_backlog = Some 1024\<rparr>"

definition sharable :: "sockets \<Rightarrow> u16 \<Rightarrow> bool" where
  "sharable M port \<longleftrightarrow> (\<forall>t k a. M t = Some k \<longrightarrow> sock_bound k = Some a \<longrightarrow> snd a = port \<longrightarrow> Reuse_Port \<in> sock_options k)"

lemma bind_reuseport_rule:
  assumes K: "kernel_ok K S" and M: "S w = M"
    and opened: "\<And>s w'. M s = None \<Longrightarrow> S w' = M(s \<mapsto> listening port) \<Longrightarrow> Q (Inr s) w'"
    and refused: "\<And>err w'. \<not> (kernel_grants K S \<and> sharable M port) \<Longrightarrow> S w' = M \<Longrightarrow> Q (Inl err) w'"
  shows "wp (bind_reuseport K port) Q w"
  unfolding bind_reuseport_def wp_andthen[of "sys (sys_socket K)"]
proof (rule sys_socket_rule[OF K M])
  fix s w1 assume s: "M s = None" and w1: "S w1 = M(s \<mapsto> new_socket)"
  have close: "S (sys_close K s w') = M" if "S w' = M(s \<mapsto> k)" for w' k
    using K that s by (simp add: kernel_ok_def fun_upd_idem)
  have bindable: "may_bind (M(s \<mapsto> k)) s port" if "sharable M port" "Reuse_Port \<in> sock_options k" for k
    using that by (auto simp: may_bind_def sharable_def)
  note rules = on_new_socket[OF K, where s = s, unfolded fun_upd_upd]
  show "case Inr s of Inl err \<Rightarrow> Q (Inl err) w1 | Inr socket \<Rightarrow> wp (closing K socket (
       andthen (sys (sys_setopt K socket Reuse_Port)) (\<lambda>_.
       andthen (sys (sys_setopt K socket Reuse_Address)) (\<lambda>_.
       andthen (sys (sys_setopt K socket No_Delay)) (\<lambda>_.
       andthen (sys (sys_setopt K socket Non_Blocking)) (\<lambda>_.
       (case parse_socket_addr (''0.0.0.0:'' @ show_nat (unat port)) of
          None \<Rightarrow> (\<lambda>_. None)
        | Some addr \<Rightarrow>
            andthen (sys (sys_bind K socket addr)) (\<lambda>_.
            andthen (sys (sys_listen K socket 1024)) (\<lambda>_.
            ok socket))))))))) Q w1"
    unfolding sum.case parse_any_port option.case
  proof (rule closing_rule, unfold wp_andthen, rule rules(1)[OF w1], unfold sum.case, rule rules(1), assumption,
      unfold sum.case, rule rules(1), assumption, unfold sum.case, rule rules(1), assumption,
      unfold sum.case, rule rules(2), assumption, unfold sum.case, rule rules(3), assumption, unfold sum.case, goal_cases)
    case (1 w2 w3 w4 w5 w6 w7)
    have "S w7 = M(s \<mapsto> listening port)" using 1(6) by (simp add: new_socket_def listening_def insert_commute)
    then show ?case using opened[OF s] by simp
  qed (auto simp: bindable intro!: refused close)
qed (use refused in simp)

end
