(* ===== verification/Worker_Pool.thy ===== *)
theory Worker_Pool
  imports Listener
begin

text \<open>
  The worker threads (\<^verbatim>\<open>src/event/worker.rs\<close>): which core each is pinned to, how each opens its listener, and when waiting for
  them ends.  Threads, runtimes and the registration of a socket are calls of the host; the bodies of the threads
  up to the serving loop run in the order in which they are spawned.  A panic ends its thread only, after closing its socket.
\<close>

record 'o host = "'o kernel" +
  sys_thread :: "string \<Rightarrow> 'o \<Rightarrow> (string + unit) \<times> 'o"
  sys_runtime :: "'o \<Rightarrow> (string + unit) \<times> 'o"
  sys_register :: "nat \<Rightarrow> 'o \<Rightarrow> (string + unit) \<times> 'o"

text \<open>\<^verbatim>\<open>Some None\<close> is a worker that is not pinned, \<open>None\<close> an index out of bounds or a division by zero.\<close>

definition pick_core :: "'c list \<Rightarrow> nat \<Rightarrow> 'c option option" where
  "pick_core core_ids worker_idx =
     (if core_ids \<noteq> [] then map_option Some (mem_rd core_ids (worker_idx mod length core_ids)) else Some None)"

text \<open>What a worker does before it serves: an error is a panic of the thread.\<close>

definition worker_body :: "('o, 'x) host_scheme \<Rightarrow> u16 \<Rightarrow> ('o, string, nat) call" where
  "worker_body H port =
     andthen (sys (sys_runtime H)) (\<lambda>_.
     andthen (bind_reuseport H port) (\<lambda>std_listener.
     closing H std_listener (
       andthen (sys (sys_setopt H std_listener Non_Blocking)) (\<lambda>_.
       andthen (sys (sys_register H std_listener)) (\<lambda>_.
       ok std_listener)))))"

record 'c worker =
  thread_name :: string
  thread_core :: "'c option"
  thread_listener :: "nat option"

definition spawn_worker :: "('o, 'x) host_scheme \<Rightarrow> 'c list \<Rightarrow> u16 \<Rightarrow> nat \<Rightarrow> 'o \<Rightarrow> ('c worker \<times> 'o) option" where
  "spawn_worker H core_ids port worker_idx w = do {
     core_id \<leftarrow> pick_core core_ids worker_idx;
     let name = ''wrk:'' @ show_nat worker_idx;
     (case sys_thread H name w of
        (Inl err, w) \<Rightarrow> None
      | (Inr u, w) \<Rightarrow> do {
          (r, w) \<leftarrow> worker_body H port w;
          Some (\<lparr>thread_name = name, thread_core = core_id,
            thread_listener = (case r of Inl err \<Rightarrow> None | Inr listener \<Rightarrow> Some listener)\<rparr>, w)
        })
   }"

fun spawn_workers :: "('o, 'x) host_scheme \<Rightarrow> 'c list \<Rightarrow> u16 \<Rightarrow> nat list \<Rightarrow> 'o \<Rightarrow> ('c worker list \<times> 'o) option" where
  "spawn_workers H core_ids port [] w = Some ([], w)"
| "spawn_workers H core_ids port (i # is) w = do {
     (t, w) \<leftarrow> spawn_worker H core_ids port i w;
     (ts, w) \<leftarrow> spawn_workers H core_ids port is w;
     Some (t # ts, w)
   }"

definition pool_spawn :: "('o, 'x) host_scheme \<Rightarrow> 'c list option \<Rightarrow> nat \<Rightarrow> u16 \<Rightarrow> 'o \<Rightarrow> ('c worker list \<times> 'o) option" where
  "pool_spawn H get_core_ids num_workers port w =
     (let core_ids = (case get_core_ids of None \<Rightarrow> [] | Some ids \<Rightarrow> ids)
      in spawn_workers H core_ids port [0..<num_workers] w)"

text \<open>A worker that serves does not return, so waiting for all ends when every worker has panicked.\<close>

definition join_all_returns :: "'c worker list \<Rightarrow> bool" where
  "join_all_returns handles \<longleftrightarrow> list_all (\<lambda>t. thread_listener t = None) handles"

section \<open>What the host promises\<close>

definition keeps_sockets :: "('o \<Rightarrow> sockets) \<Rightarrow> ('o \<Rightarrow> (string + 'a) \<times> 'o) \<Rightarrow> bool" where
  "keeps_sockets S f \<longleftrightarrow> (\<forall>w. S (snd (f w)) = S w)"

definition host_ok :: "('o, 'x) host_scheme \<Rightarrow> ('o \<Rightarrow> sockets) \<Rightarrow> bool" where
  "host_ok H S \<longleftrightarrow> kernel_ok H S \<and> (\<forall>name. keeps_sockets S (sys_thread H name)) \<and> keeps_sockets S (sys_runtime H)
     \<and> (\<forall>s. keeps_sockets S (sys_register H s))"

definition host_grants :: "('o, 'x) host_scheme \<Rightarrow> ('o \<Rightarrow> sockets) \<Rightarrow> bool" where
  "host_grants H S \<longleftrightarrow> kernel_grants H S \<and> (\<forall>name w. fst (sys_thread H name w) = Inr ()) \<and> (\<forall>w. fst (sys_runtime H w) = Inr ())
     \<and> (\<forall>s w. fst (sys_register H s w) = Inr ())"

lemma pick_core_total: "\<exists>c. pick_core core_ids i = Some c"
  by (cases "core_ids = []") (simp_all add: pick_core_def mem_rd_def)

lemma pick_core_value:
  "core_ids \<noteq> [] \<Longrightarrow> pick_core core_ids i = Some (Some (core_ids ! (i mod length core_ids)))"
  by (simp add: pick_core_def mem_rd_def)

lemma sys_keeps_rule:
  assumes "keeps_sockets S f" "S w = M" "\<And>w'. S w' = M \<Longrightarrow> Q (Inr ()) w'"
    and "\<And>err w'. fst (f w) = Inl err \<Longrightarrow> S w' = M \<Longrightarrow> Q (Inl err) w'"
  shows "wp (sys f) Q w"
proof -
  obtain r w' where f: "f w = (r, w')" by fastforce
  then have "S w' = M" using assms(1,2) unfolding keeps_sockets_def by (metis snd_conv)
  then show ?thesis using assms(3,4) f by (cases r) (auto simp: wp_def sys_def)
qed

lemma sharable_listening: "sharable M port \<Longrightarrow> sharable (M(s \<mapsto> listening port')) port"
  by (auto simp: sharable_def listening_def)

lemma worker_body_rule:
  assumes H: "host_ok H S" and M: "S w = M"
    and opened: "\<And>s w'. M s = None \<Longrightarrow> S w' = M(s \<mapsto> listening port) \<Longrightarrow> Q (Inr s) w'"
    and refused: "\<And>err w'. \<not> (host_grants H S \<and> sharable M port) \<Longrightarrow> S w' = M \<Longrightarrow> Q (Inl err) w'"
  shows "wp (worker_body H port) Q w"
proof -
  have K: "kernel_ok H S" and R: "keeps_sockets S (sys_runtime H)" "\<And>s. keeps_sockets S (sys_register H s)"
    using H by (simp_all add: host_ok_def)
  have no: "\<not> (host_grants H S \<and> sharable M port)" if "\<not> (kernel_grants H S \<and> sharable M port)" using that by (auto simp: host_grants_def)
  have close: "S (sys_close H s w') = M" if "S w' = M(s \<mapsto> k)" "M s = None" for w' k s
    using K that by (simp add: kernel_ok_def fun_upd_idem)
  have again: "listening port\<lparr>sock_options := insert Non_Blocking (sock_options (listening port))\<rparr> = listening port"
    by (simp add: listening_def insert_absorb)
  have serving: "wp (closing H s (andthen (sys (sys_setopt H s Non_Blocking)) (\<lambda>_. andthen (sys (sys_register H s)) (\<lambda>_. ok s)))) Q w'"
    if s: "M s = None" and w': "S w' = M(s \<mapsto> listening port)" for s w'
  proof (rule closing_rule, unfold wp_andthen, rule on_new_socket(1)[OF K w'], unfold sum.case fun_upd_upd again, rule sys_keeps_rule[OF R(2)], assumption, unfold sum.case, goal_cases)
    case (1 w1 w2)
    then show ?case using opened[OF s] by simp
  next
    case (2 w1 err w2)
    have "\<not> host_grants H S" using 2(2) by (auto simp: host_grants_def)
    then show ?case using refused close[OF 2(3) s] by blast
  next
    case (3 err w1)
    have "\<not> host_grants H S" using 3(1) by (auto simp: host_grants_def)
    then show ?case using refused close[OF 3(2) s] by blast
  qed
  show ?thesis unfolding worker_body_def wp_andthen[of "sys (sys_runtime H)"] wp_andthen[of "bind_reuseport H port"]
  proof (rule sys_keeps_rule[OF R(1) M], unfold sum.case, rule bind_reuseport_rule[OF K], assumption, unfold sum.case, goal_cases)
    case (3 err w1)
    have "\<not> host_grants H S" using 3(1) by (auto simp: host_grants_def)
    then show ?case using refused 3(2) by blast
  qed (use serving refused no in blast)+
qed

lemma spawn_worker_spec:
  assumes "host_ok H S" "host_grants H S" "sharable (S w) port"
  shows "\<exists>c s w'. spawn_worker H core_ids port i w = Some (\<lparr>thread_name = ''wrk:'' @ show_nat i, thread_core = c, thread_listener = Some s\<rparr>, w')
    \<and> pick_core core_ids i = Some c \<and> S w s = None \<and> S w' = (S w)(s \<mapsto> listening port)"
proof -
  obtain c where c: "pick_core core_ids i = Some c" using pick_core_total by blast
  obtain w1 where w1: "sys_thread H (''wrk:'' @ show_nat i) w = (Inr (), w1)"
    using assms(2) unfolding host_grants_def by (metis prod.collapse)
  have M: "S w1 = S w" using assms(1) w1 unfolding host_ok_def keeps_sockets_def by (metis snd_conv)
  have "wp (worker_body H port) (\<lambda>r w'. \<exists>s. r = Inr s \<and> S w s = None \<and> S w' = (S w)(s \<mapsto> listening port)) w1"
    using assms(2,3) by (intro worker_body_rule[OF assms(1) M]) auto
  then obtain s w' where "worker_body H port w1 = Some (Inr s, w')" "S w s = None" "S w' = (S w)(s \<mapsto> listening port)"
    unfolding wp_def by blast
  then show ?thesis using c w1 by (simp add: spawn_worker_def)
qed

lemma spawn_workers_spec:
  assumes "host_ok H S" "host_grants H S" "sharable (S w) port"
  shows "\<exists>ts w'. spawn_workers H core_ids port is w = Some (ts, w') \<and> map thread_name ts = map (\<lambda>i. ''wrk:'' @ show_nat i) is
    \<and> map (\<lambda>t. Some (thread_core t)) ts = map (pick_core core_ids) is
    \<and> (\<forall>t \<in> set ts. \<exists>s. thread_listener t = Some s \<and> S w s = None \<and> S w' s = Some (listening port))
    \<and> distinct (map thread_listener ts) \<and> (\<forall>s. S w s \<noteq> None \<longrightarrow> S w' s = S w s)"
  using assms(3)
proof (induction "is" arbitrary: w)
  case (Cons i "is")
  obtain c s w1 where w1: "spawn_worker H core_ids port i w = Some (\<lparr>thread_name = ''wrk:'' @ show_nat i, thread_core = c, thread_listener = Some s\<rparr>, w1)"
    "pick_core core_ids i = Some c" "S w s = None" "S w1 = (S w)(s \<mapsto> listening port)"
    using spawn_worker_spec[OF assms(1,2) Cons.prems] by blast
  have "sharable (S w1) port" using Cons.prems by (simp add: w1(4) sharable_listening)
  from Cons.IH[OF this] obtain ts w' where ts: "spawn_workers H core_ids port is w1 = Some (ts, w')"
    "map thread_name ts = map (\<lambda>i. ''wrk:'' @ show_nat i) is" "map (\<lambda>t. Some (thread_core t)) ts = map (pick_core core_ids) is"
    "\<forall>t \<in> set ts. \<exists>s. thread_listener t = Some s \<and> S w1 s = None \<and> S w' s = Some (listening port)"
    "distinct (map thread_listener ts)" "\<forall>s. S w1 s \<noteq> None \<longrightarrow> S w' s = S w1 s" by blast
  have fresh: "Some s \<notin> thread_listener ` set ts" using ts(4) w1(4) by fastforce
  have mine: "S w' s = Some (listening port)" using ts(6) w1(4) by (metis fun_upd_same option.distinct(1))
  have "\<exists>s. thread_listener t = Some s \<and> S w s = None \<and> S w' s = Some (listening port)" if "t \<in> set ts" for t
    using ts(4) that w1(4) by (auto split: if_splits)
  moreover have "S w' q = S w q" if "S w q \<noteq> None" for q using ts(6) that w1(3,4) by (metis fun_upd_other)
  ultimately show ?case using w1 ts(1-3,5) fresh mine by auto
qed simp

end
