(* ===== verification/Server_Program.thy ===== *)
theory Server_Program
  imports Http_Theorems Worker_Pool
begin

text \<open>
  The program that is run (\<^verbatim>\<open>cmd/kallisto-server/src/main.rs\<close>) with the start and the stop of the administration server
  (\<^verbatim>\<open>kallisto_cluster/src/admin_http.rs\<close>): it removes the database directory, opens the core, starts two workers and the
  administration server, waits for the workers and stops.  What RocksDB finds on the disk is the environment of the engine as
  a function of the state of the machine.
\<close>

record 'o machine = "'o host" +
  path_exists :: "string \<Rightarrow> 'o \<Rightarrow> bool"
  remove_dir_all :: "string \<Rightarrow> 'o \<Rightarrow> (string + unit) \<times> 'o"
  get_core_ids :: "'o \<Rightarrow> nat list option"
  tokio_bind :: "string \<Rightarrow> 'o \<Rightarrow> (string + nat) \<times> 'o"

section \<open>The administration server\<close>

text \<open>The thread serves when it has a listener; without one it has ended.\<close>

record admin_server =
  admin_listener :: "nat option"

definition start_admin_server :: "('o, 'x) machine_scheme \<Rightarrow> u16 \<Rightarrow> 'o \<Rightarrow> (admin_server \<times> 'o) option" where
  "start_admin_server H port w = (case sys_thread H [] w of
     (Inl err, w) \<Rightarrow> None
   | (Inr u, w) \<Rightarrow> (case sys_runtime H w of
       (Inl err, w) \<Rightarrow> Some (\<lparr>admin_listener = None\<rparr>, w)
     | (Inr u, w) \<Rightarrow>
         (let addr = ''0.0.0.0:'' @ show_nat (unat port) in
          case tokio_bind H addr w of
            (Inl err, w) \<Rightarrow> Some (\<lparr>admin_listener = None\<rparr>, w)
          | (Inr listener, w) \<Rightarrow> Some (\<lparr>admin_listener = Some listener\<rparr>, w))))"

definition stop_admin_server :: "('o, 'x) machine_scheme \<Rightarrow> admin_server \<Rightarrow> 'o \<Rightarrow> 'o" where
  "stop_admin_server H server w = (case admin_listener server of None \<Rightarrow> w | Some listener \<Rightarrow> sys_close H listener w)"

section \<open>The program\<close>

record 'db program =
  prog_core :: "'db kv_engine kallisto_core"
  prog_pool :: "nat worker list"
  prog_admin :: admin_server

definition DB_PATH :: string where
  "DB_PATH = ''/tmp/kallisto_server_bench''"

definition start_program :: "('o, 'x) machine_scheme \<Rightarrow> ('o \<Rightarrow> ('db, 'wb, 'it) env) \<Rightarrow> 'o \<Rightarrow> ('db program \<times> 'o) option" where
  "start_program H env_at w = do {
     w \<leftarrow> (if path_exists H DB_PATH w
           then (case remove_dir_all H DB_PATH w of (Inl err, w) \<Rightarrow> None | (Inr u, w) \<Rightarrow> Some w)
           else Some w);
     r \<leftarrow> core_new (env_at w) DB_PATH;
     c \<leftarrow> (case r of Inl err \<Rightarrow> None | Inr c \<Rightarrow> Some c);
     (pool, w) \<leftarrow> pool_spawn H (get_core_ids H w) 2 8200 w;
     (adm, w) \<leftarrow> start_admin_server H 8202 w;
     Some (\<lparr>prog_core = c, prog_pool = pool, prog_admin = adm\<rparr>, w)
   }"

text \<open>A request reaches the program when a socket listens for it.\<close>

fun delivered :: "'db program \<Rightarrow> server_event \<Rightarrow> bool" where
  "delivered p (Http clock req) \<longleftrightarrow> list_ex (\<lambda>t. thread_listener t \<noteq> None) (prog_pool p)"
| "delivered p (Admin req) \<longleftrightarrow> admin_listener (prog_admin p) \<noteq> None"

text \<open>\<open>None\<close> in the second component: the program still waits for its workers.\<close>

definition main_program :: "('o, 'x) machine_scheme \<Rightarrow> axum \<Rightarrow> ('db, 'wb, 'it) env \<Rightarrow> 'v sonic \<Rightarrow> string \<Rightarrow> server_event list
    \<Rightarrow> 'db program \<times> 'o \<Rightarrow> (reply list \<times> 'db kv_engine kallisto_core \<times> 'o option) option" where
  "main_program H A E J pkg evs = (\<lambda>(p, w). do {
     (rs, c) \<leftarrow> server_run A E J pkg (filter (delivered p) evs) (prog_core p);
     Some (rs, c, if join_all_returns (prog_pool p) then Some (stop_admin_server H (prog_admin p) w) else None)
   })"

section \<open>What the machine promises\<close>

definition machine_ok :: "('o, 'x) machine_scheme \<Rightarrow> ('o \<Rightarrow> sockets) \<Rightarrow> bool" where
  "machine_ok H S \<longleftrightarrow> host_ok H S \<and> (\<forall>path. keeps_sockets S (remove_dir_all H path))
     \<and> (\<forall>path w w'. remove_dir_all H path w = (Inr (), w') \<longrightarrow> \<not> path_exists H path w')"

definition machine_grants :: "('o, 'x) machine_scheme \<Rightarrow> ('o \<Rightarrow> sockets) \<Rightarrow> bool" where
  "machine_grants H S \<longleftrightarrow> host_grants H S \<and> (\<forall>path w. fst (remove_dir_all H path w) = Inr ())
     \<and> (\<forall>addr w. \<exists>s. fst (tokio_bind H addr w) = Inr s)"

text \<open>RocksDB creates an empty database where there is none.\<close>

definition creates_empty :: "('o, 'x) machine_scheme \<Rightarrow> ('o \<Rightarrow> ('db, 'wb, 'it) env) \<Rightarrow> ('db, 'wb, 'it) rocks_view \<Rightarrow> bool" where
  "creates_empty H env_at V \<longleftrightarrow> (\<forall>path w. \<not> path_exists H path w \<longrightarrow> (\<exists>d. db_open (env_rocks (env_at w)) path = Inr d \<and> db_contents V d = Map.empty))"

lemma removed:
  assumes "machine_ok H S" "machine_grants H S"
  obtains w' where "(if path_exists H DB_PATH w
           then (case remove_dir_all H DB_PATH w of (Inl err, w) \<Rightarrow> None | (Inr u, w) \<Rightarrow> Some w)
           else Some w) = Some w'" "\<not> path_exists H DB_PATH w'" "S w' = S w"
proof (cases "path_exists H DB_PATH w")
  case True
  obtain w' where r: "remove_dir_all H DB_PATH w = (Inr (), w')" using assms(2) unfolding machine_grants_def by (metis prod.collapse)
  then have "\<not> path_exists H DB_PATH w'" using assms(1) by (auto simp: machine_ok_def)
  moreover have "S w' = S w" using assms(1) r unfolding machine_ok_def keeps_sockets_def by (metis snd_conv)
  ultimately show ?thesis using that[of w'] True r by simp
qed (use that[of w] in simp)

lemma start_admin_listens:
  assumes "machine_grants H S"
  shows "\<exists>s w'. start_admin_server H port w = Some (\<lparr>admin_listener = Some s\<rparr>, w')"
proof -
  have g: "\<And>name w. fst (sys_thread H name w) = Inr ()" "\<And>w. fst (sys_runtime H w) = Inr ()" "\<And>addr w. \<exists>s. fst (tokio_bind H addr w) = Inr s"
    using assms by (simp_all add: machine_grants_def host_grants_def)
  obtain w1 where w1: "sys_thread H [] w = (Inr (), w1)" using g(1) by (metis prod.collapse)
  obtain w2 where w2: "sys_runtime H w1 = (Inr (), w2)" using g(2) by (metis prod.collapse)
  obtain s w3 where "tokio_bind H (''0.0.0.0:'' @ show_nat (unat port)) w2 = (Inr s, w3)" using g(3) by (metis prod.collapse)
  then show ?thesis using w1 w2 by (simp add: start_admin_server_def)
qed

section \<open>Refused sockets\<close>

definition refuses_port :: "('o, 'x) kernel_scheme \<Rightarrow> u16 \<Rightarrow> bool" where
  "refuses_port K port \<longleftrightarrow> (\<forall>s a w. snd a = port \<longrightarrow> (\<exists>err. fst (sys_bind K s a w) = Inl err))"

lemma andthen_fails: "(\<And>x w. \<exists>err w'. f x w = Some (Inl err, w')) \<Longrightarrow> (\<And>w. \<exists>r w'. m w = Some (r, w')) \<Longrightarrow> \<exists>err w'. andthen m f w = Some (Inl err, w')"
proof -
  assume f: "\<And>x w. \<exists>err w'. f x w = Some (Inl err, w')" and m: "\<And>w. \<exists>r w'. m w = Some (r, w')"
  obtain r w' where "m w = Some (r, w')" using m by blast
  then show ?thesis using f by (cases r) (auto simp: andthen_def)
qed

lemma sys_returns: "\<exists>r w'. sys f w = Some (r, w')"
  by (cases "f w") (simp add: sys_def)

lemma bind_refused:
  assumes "refuses_port K port"
  shows "\<exists>err w'. bind_reuseport K port w = Some (Inl err, w')"
proof -
  have b: "\<exists>err w'. andthen (sys (sys_bind K s ([0, 0, 0, 0], port))) h w = Some (Inl err, w')" for s h w
    using assms[unfolded refuses_port_def, rule_format, of "([0, 0, 0, 0], port)" s w]
    by (cases "sys_bind K s ([0, 0, 0, 0], port) w") (auto simp: andthen_def sys_def)
  have closes: "\<exists>err w'. closing K s m w = Some (Inl err, w')" if "\<exists>err w'. m w = Some (Inl err, w')" for s m w
    using that by (auto simp: closing_def)
  show ?thesis unfolding bind_reuseport_def parse_any_port option.case
    by (intro andthen_fails closes b sys_returns)
qed

lemma worker_body_refused:
  assumes "refuses_port H port"
  shows "\<exists>err w'. worker_body H port w = Some (Inl err, w')"
proof -
  have b: "\<exists>err w'. andthen (bind_reuseport H port) h w = Some (Inl err, w')" for h w
    using bind_refused[OF assms, of w] by (auto simp: andthen_def)
  show ?thesis unfolding worker_body_def by (rule andthen_fails) (rule b, rule sys_returns)
qed

lemma worker_refused:
  assumes "refuses_port H port" "spawn_worker H core_ids port i w = Some (t, w')"
  shows "thread_listener t = None"
proof -
  have "r = Inl (projl r)" if "worker_body H port w = Some (r, w')" for r w w'
    using that worker_body_refused[OF assms(1), of w] by auto
  then show ?thesis using assms(2)
    by (auto simp: spawn_worker_def Let_def split: Option.bind_splits prod.splits sum.splits if_splits)
qed

lemma workers_refused:
  "refuses_port H port \<Longrightarrow> spawn_workers H core_ids port is w = Some (ts, w') \<Longrightarrow> \<forall>t \<in> set ts. thread_listener t = None"
proof (induction "is" arbitrary: w ts)
  case (Cons i "is")
  then show ?case using worker_refused[OF Cons.prems(1)] by (auto split: Option.bind_splits prod.splits)
qed simp

lemma refused_workers_return:
  assumes "refuses_port H port" "\<And>name w. fst (sys_thread H name w) = Inr ()"
  shows "\<exists>ts w'. spawn_workers H core_ids port is w = Some (ts, w')"
proof (induction "is" arbitrary: w)
  case (Cons i "is")
  obtain c where c: "pick_core core_ids i = Some c" using pick_core_total by blast
  obtain w1 where w1: "sys_thread H (''wrk:'' @ show_nat i) w = (Inr (), w1)" using assms(2) by (metis prod.collapse)
  obtain err w2 where "worker_body H port w1 = Some (Inl err, w2)" using worker_body_refused[OF assms(1)] by blast
  then obtain t where "spawn_worker H core_ids port i w = Some (t, w2)" using c w1 by (simp add: spawn_worker_def)
  then show ?case using Cons[of w2] by auto
qed simp

lemma start_admin_returns:
  assumes "\<And>name w. fst (sys_thread H name w) = Inr ()"
  shows "\<exists>adm w'. start_admin_server H port w = Some (adm, w')"
proof -
  obtain w1 where "sys_thread H [] w = (Inr (), w1)" using assms by (metis prod.collapse)
  then show ?thesis by (simp add: start_admin_server_def Let_def split: prod.splits sum.splits)
qed

section \<open>A machine\<close>

text \<open>The open sockets as a list, and whether the database directory exists.\<close>

type_synonym sim = "socket option list \<times> bool"

definition sim_sockets :: "sim \<Rightarrow> sockets" where
  "sim_sockets w = (\<lambda>s. if s < length (fst w) then fst w ! s else None)"

definition sim_set :: "nat \<Rightarrow> (socket \<Rightarrow> socket) \<Rightarrow> sim \<Rightarrow> (string + unit) \<times> sim" where
  "sim_set s g w = (case sim_sockets w s of None \<Rightarrow> (Inl ''Bad file descriptor'', w) | Some k \<Rightarrow> (Inr (), (fst w)[s := Some (g k)], snd w))"

definition sim_machine :: "sim machine" where
  "sim_machine = \<lparr>sys_socket = (\<lambda>w. (Inr (length (fst w)), fst w @ [Some new_socket], snd w)),
     sys_setopt = (\<lambda>s v. sim_set s (\<lambda>k. k\<lparr>sock_options := insert v (sock_options k)\<rparr>)),
     sys_bind = (\<lambda>s a w. if may_bind (sim_sockets w) s (snd a) then sim_set s (\<lambda>k. k\<lparr>sock_bound := Some a\<rparr>) w
        else (Inl ''Address already in use'', w)),
     sys_listen = (\<lambda>s n. sim_set s (\<lambda>k. k\<lparr>sock_backlog := Some n\<rparr>)),
     sys_close = (\<lambda>s w. ((fst w)[s := None], snd w)),
     sys_thread = (\<lambda>name w. (Inr (), w)), sys_runtime = (\<lambda>w. (Inr (), w)), sys_register = (\<lambda>s w. (Inr (), w)),
     path_exists = (\<lambda>path w. snd w), remove_dir_all = (\<lambda>path w. (Inr (), fst w, False)), get_core_ids = (\<lambda>w. Some [0, 1, 2, 3]),
     tokio_bind = (\<lambda>addr w. (Inr (length (fst w)), fst w @ [Some new_socket], snd w))\<rparr>"

text \<open>RocksDB on that machine: a database with one pair where the directory exists, an empty one elsewhere.\<close>

definition sim_env :: "sim \<Rightarrow> ((bytes \<times> bytes) list, batch_op list, (bytes \<times> bytes) list) env" where
  "sim_env w = mem_env\<lparr>env_rocks := mem_rocks\<lparr>db_open := (\<lambda>path. Inr (if snd w then [(''m:old'', ''1;1;0;0;'')] else []))\<rparr>\<rparr>"

lemma sim_set_changes: "changes sim_sockets (sim_set s g) s g"
  by (auto simp: changes_def sim_set_def sim_sockets_def fun_eq_iff nth_list_update split: option.splits if_splits)

lemma sim_machine_ok: "machine_ok sim_machine sim_sockets" "machine_grants sim_machine sim_sockets"
proof -
  have "changes sim_sockets (sys_bind sim_machine s a) s (\<lambda>k. k\<lparr>sock_bound := Some a\<rparr>)" for s a
    using sim_set_changes[of s "\<lambda>k. k\<lparr>sock_bound := Some a\<rparr>"] unfolding changes_def by (simp add: sim_machine_def)
  moreover have "sim_sockets (xs @ [Some k], b) = (sim_sockets (xs, b))(length xs \<mapsto> k)" for xs b k
    by (auto simp: sim_sockets_def fun_eq_iff nth_append)
  moreover have "sim_sockets (xs[s := None], b) = (sim_sockets (xs, b))(s := None)" for xs s b
    by (auto simp: sim_sockets_def fun_eq_iff nth_list_update)
  moreover have "sim_sockets (xs, b) (length xs) = None" "sim_sockets (xs, b) = sim_sockets (xs, b')" for xs b b'
    by (simp_all add: sim_sockets_def fun_eq_iff)
  ultimately show "machine_ok sim_machine sim_sockets"
    by (auto simp: machine_ok_def host_ok_def kernel_ok_def keeps_sockets_def sim_set_changes sim_machine_def)
  show "machine_grants sim_machine sim_sockets"
    by (auto simp: machine_grants_def host_grants_def kernel_grants_def sim_machine_def sim_set_def)
qed

lemma sim_env_ok: "env_ok (sim_env w) mem_view \<and> 64 \<le> env_node_size (sim_env w) \<and> env_node_size (sim_env w) \<le> 2 ^ 40"
  using mem_env_ok by (auto simp: env_ok_def sim_env_def mem_env_def rocks_ok_def writes_ok_def reads_ok_def iterator_ok_def rocks_reliable_def)

lemma sim_creates_empty: "creates_empty sim_machine sim_env mem_view"
  by (simp add: creates_empty_def sim_machine_def sim_env_def mem_view_def)

section \<open>Properties\<close>





end
