(* ===== verification/Spec2Isabelle.thy ===== *)
theory Spec2Isabelle
  imports Cuckoo_Clock Sharded_Cuckoo BTree_Theorems LFQ_Concurrent Async_Flusher Kv_Batch Server_Program
begin

text \<open>
  \<^bold>\<open>A verification of Kallisto.\<close>  Kallisto is a secret store with the HTTP interface of the versioned key-value
  engine of Vault, written in Rust.  Requests come in over HTTP, are routed to the engine mounted under the first segment
  of the path, and the engine keeps every version of every secret in RocksDB, behind a cache of 64 cuckoo tables; a
  B-tree holds the paths for listings; in the batch mode writes go through a bounded queue to a worker
  thread.  Paths below are relative to \<^verbatim>\<open>src/\<close>.

  \<^bold>\<open>Conventions.\<close>  Strings and byte vectors are lists of characters, integers are words of their width or, for indices,
  natural numbers.  A function returns \<open>None\<close> where the code panics, leaves its memory or does not return, so a
  theorem that a call returns \<open>Some\<close> is a theorem of safety and termination; a \<^verbatim>\<open>Result\<close> is a sum with the error on the
  left.  A method that changes a state and may fail is a \<open>call\<close> (\<open>Engine_Types\<close>): \<open>andthen\<close> is the operator \<^verbatim>\<open>?\<close>, and
  \<open>wp\<close> says that a call returns and what holds then.  Packages are parameters of the definitions: SipHash, RocksDB,
  rkyv, the crossbeam channel, sonic_rs, axum and the operating system; what the code relies on is stated by \<open>rocks_ok\<close>,
  \<open>rkyv_ok\<close>, \<open>channel_ok\<close>, \<open>sonic_ok\<close>, \<open>routes_data\<close> and \<open>machine_ok\<close>, each with a concrete instance that satisfies it.

  \<^bold>\<open>The cache\<close> (\<^verbatim>\<open>src/engine/cuckoo_table.rs\<close>, \<^verbatim>\<open>sharded_cuckoo_table.rs\<close>).  \<open>Cuckoo_Table\<close> models the buckets,
  the arena with its free list and its CLOCK hand, and every operation, each access to the raw memory checked.
  \<open>Cuckoo_Invariant\<close> is the representation invariant, \<open>Cuckoo_Correct\<close> and \<open>Cuckoo_Theorems\<close> show that every
  operation keeps it and behaves as a map that may forget entries, \<open>Cuckoo_Scan\<close> treats the enumeration and the
  statistics, \<open>Cuckoo_Clock\<close> the eviction and the displacement.  \<open>Cache_Interface\<close> has the contract as the locale
  \<open>lossy_cache\<close>, interpreted on the table (\<open>ct\<close>) and, in \<open>Sharded_Cuckoo\<close>, on the sharded table (\<open>st\<close>).

  \<^bold>\<open>The path index\<close> (\<^verbatim>\<open>src/engine/btree_index.rs\<close>, \<^verbatim>\<open>tls_btree_manager.rs\<close>).  \<open>BTree_Index\<close> models the tree with
  its vectors, \<open>BTree_Correct\<close> and \<open>BTree_Theorems\<close> show order, balance, height and that insertion, membership
  and enumeration are those of a set of paths; \<open>Index_Interface\<close> is the contract, interpreted as \<open>bt\<close> and \<open>tls\<close>.

  \<^bold>\<open>The queue\<close> (\<^verbatim>\<open>src/engine/lock_free_queue.rs\<close>).  \<open>Lock_Free_Queue\<close> has one step for every access to shared memory.
  \<open>LFQ_Sequential\<close> runs the steps of one caller and shows the behaviour of a bounded FIFO queue (\<open>Queue_Interface\<close>,
  interpreted as \<open>lfq\<close>); \<open>LFQ_Concurrent\<close> is the step relation of any number of threads, its invariant by rule
  induction, and the schedules in which a thread waits for another.

  \<^bold>\<open>Storage\<close> (\<^verbatim>\<open>src/storage/\<close>).  \<open>Rocksdb_Backend\<close> is the wrapper of RocksDB with single writes, batches and scans
  (\<open>Store_Interface\<close>, interpreted as \<open>rdb\<close>).  \<open>Write_Behind\<close> is the loop of a worker that drains a queue into batches;
  both \<open>Async_Flusher\<close> (\<open>fl\<close>) and the worker of the engine (\<open>Kv_Worker\<close>, \<open>wb\<close>) are instances of it.

  \<^bold>\<open>The engine\<close> (\<^verbatim>\<open>src/engine/kv_engine.rs\<close>, \<^verbatim>\<open>traits.rs\<close>, \<^verbatim>\<open>error.rs\<close>).  \<open>Kv_Engine\<close> models every method over the
  components above.  \<open>Kv_Spec\<close> is the contract: a map from paths to secrets with numbered versions, the answers to each
  request, and the locale \<open>secret_engine\<close>.  \<open>Kv_Refinement\<close> has a rule for every method in both modes: what the engine
  holds is the disk with the operations of the queue and of the worker applied, cache and index stay in agreement with it,
  and every failed call of RocksDB and every full queue is a case of the rules.  In the immediate mode this gives the
  contract (\<open>kv\<close>).  \<open>Kv_Open\<close> treats opening a database, \<open>Kv_Theorems\<close> what the contract gives a client, \<open>Kv_Failures\<close> what remains of
  it when calls of RocksDB fail (the locale \<open>faulty_engine\<close>, interpreted as \<open>kvf\<close>), \<open>Kv_Worker\<close> the worker, the shutdown and the
  restart, \<open>Kv_Batch\<close> the contract of the batch mode with the worker between the requests (the locale
  \<open>background_engine\<close>, which extends \<open>faulty_engine\<close>, interpreted as \<open>kvb\<close>) and how it fails when the cache has evicted a key
  that is under way.

  \<^bold>\<open>The server\<close> (\<^verbatim>\<open>src/engine/engine_registry.rs\<close>, \<^verbatim>\<open>src/lib.rs\<close>, \<^verbatim>\<open>src/server/\<close>, \<^verbatim>\<open>components/kallisto_cluster\<close>).
  \<open>Engine_Registry\<close> has the mounted engines in a heap, so that the core and the registry share the default one;
  \<open>Sys_Handler\<close> the endpoints with fixed answers and the administration; \<open>Time_Format\<close> the dates and durations, shown correct
  against the Gregorian calendar of \<open>Calendar\<close>; \<open>Sonic_Json\<close> the merge patch and the subkeys; \<open>Http_Handler\<close> the
  routes, extractors, handlers and answers.  \<open>Served_Engine\<close> has the locale \<open>engine_service\<close>, which extends \<open>secret_engine\<close>, and
  proves that the handlers over an engine simulate the handlers over the abstract store (\<open>kvs\<close> for the key-value
  engine); \<open>Http_Theorems\<close> concludes for the whole server.

  \<^bold>\<open>The program\<close> (\<^verbatim>\<open>src/server/listener.rs\<close>, \<^verbatim>\<open>src/event/worker.rs\<close>, \<^verbatim>\<open>cmd/kallisto-server/src/main.rs\<close>).
  \<open>Listener\<close> has the system calls that open a listening socket, with their effect on the table of sockets and the rule by
  which a port is shared; \<open>Worker_Pool\<close> the start of the workers and their panics; \<open>Server_Program\<close> the administration server, the
  start and the end of the program, and what follows for the requests that reach it.

  \<^bold>\<open>Bounds.\<close>  The displacement loop has the 256 iterations of the code, and the sweep of the CLOCK hand its two
  rounds.  The loops of the queue, the scans and the JSON recursions are \<^theory_text>\<open>partial_function\<close>s, and their return is
  proved where it holds.  A version counter below \<open>2 ^ 32 - 1\<close> is a hypothesis where a new version must be fresh.  A queue node has
  between 64 and \<open>2 ^ 40\<close> bytes, so that the allocation of the queue succeeds.

  \<^bold>\<open>Not modelled.\<close>  The crates with empty modules (\<^verbatim>\<open>kallisto_crypto\<close>, \<^verbatim>\<open>kallisto_policy\<close>, \<^verbatim>\<open>kallisto_telemetry\<close>,
  \<^verbatim>\<open>kallisto-ctl\<close>), which have no code; what the program prints; the options that tune RocksDB.  The workers start one after
  another, and threads, runtimes, sockets and the file system are calls of a machine that is a parameter.
  The operations of the engine run one at a time, except that the reads and the write of two \<open>put_version\<close> calls are
  interleaved in \<open>put_race\<close> and the worker thread between requests in \<open>Kv_Worker\<close> and \<open>Kv_Batch\<close>; the memory of the queue is
  sequentially consistent.  The answers of axum to requests without a route and to HEAD are left to it.
\<close>

end
